(* ===== verification/Prelude.thy ===== *)
theory Prelude
  imports
    Main
    "HOL-Library.Word"
    "HOL-Library.Multiset"
    "HOL-Library.Monad_Syntax"
begin

unbundle bit_operations_syntax

text \<open>
  Shared vocabulary of the development.

  A C function that may hit undefined behaviour (an index outside an array, a read
  of an uninitialised cell, a null or dangling pointer), a failed \<open>assert\<close>, or that may loop
  for ever, is modelled by a function into \<open>'a option\<close>: \<open>None\<close> means that the call
  does not return normally. The \<open>do\<close> blocks below are those of the option monad.

  Unsigned C integers that are used as indices or sizes are natural numbers with
  the wrap-around written out (\<open>u32\<close>, \<open>u64\<close>); integers that the code uses as bit
  sets or truncates are machine words.
\<close>

subsection \<open>Collections of facts\<close>

named_theorems flag_simps \<open>flag tests as bit tests\<close>
named_theorems u32_simps \<open>unsigned arithmetic below the wrap-around\<close>

subsection \<open>Addresses\<close>

text \<open>The address of a \<open>struct event\<close>; the null pointer is \<open>None\<close> of \<open>eid option\<close>.\<close>

type_synonym eid = nat

subsection \<open>Unsigned arithmetic with its wrap-around\<close>

definition u32 :: "nat \<Rightarrow> nat" where
  "u32 x = x mod 2 ^ 32"

definition u64 :: "nat \<Rightarrow> nat" where
  "u64 x = x mod 2 ^ 64"

definition UINT_MAX :: nat where
  "UINT_MAX = 2 ^ 32 - 1"

lemma u32_small [u32_simps]: "x < 2 ^ 32 \<Longrightarrow> u32 x = x"
  by (simp add: u32_def)

lemma u32_less [simp]: "u32 x < 2 ^ 32"
  by (simp add: u32_def)

lemma u64_small [u32_simps]: "x < 2 ^ 64 \<Longrightarrow> u64 x = x"
  by (simp add: u64_def)

lemma u64_less [simp]: "u64 x < 2 ^ 64"
  by (simp add: u64_def)

text \<open>
  Conversions between \<open>size_t\<close> and \<open>int\<close>: to \<open>int\<close> the low 32 bits are kept and read as two's
  complement, to \<open>size_t\<close> the value is taken modulo \<open>2 ^ 64\<close>.
\<close>

definition int_of_size :: "nat \<Rightarrow> int" where
  "int_of_size n = sint (word_of_nat n :: 32 word)"

definition size_of_int :: "int \<Rightarrow> nat" where
  "size_of_int i = nat (i mod 2 ^ 64)"

lemma int_of_size_small [u32_simps]: "n < 2 ^ 31 \<Longrightarrow> int_of_size n = int n"
  by (simp add: int_of_size_def sint_uint unsigned_of_nat take_bit_nat_eq_self
      signed_take_bit_int_eq_self)

lemma size_of_int_nonneg [u32_simps]: "0 \<le> i \<Longrightarrow> i < 2 ^ 63 \<Longrightarrow> size_of_int i = nat i"
  by (simp add: size_of_int_def)

subsection \<open>Arrays of cells\<close>

text \<open>
  An allocated array is a list of cells, one per slot; a cell that was never
  written holds \<open>None\<close>. Reading such a cell and indexing outside the array
  are both undefined.
\<close>

definition cell_get :: "'a option list \<Rightarrow> nat \<Rightarrow> 'a option" where
  "cell_get xs i = (if i < length xs then xs ! i else None)"

definition cell_set :: "'a option list \<Rightarrow> nat \<Rightarrow> 'a \<Rightarrow> 'a option list option" where
  "cell_set xs i x = (if i < length xs then Some (xs[i := Some x]) else None)"

lemma cell_get_Some: "cell_get xs i = Some x \<longleftrightarrow> i < length xs \<and> xs ! i = Some x"
  by (simp add: cell_get_def)

lemma cell_get_nth: "i < length xs \<Longrightarrow> cell_get xs i = xs ! i"
  by (simp add: cell_get_def)

lemma cell_set_Some: "cell_set xs i x = Some ys \<longleftrightarrow> i < length xs \<and> ys = xs[i := Some x]"
  by (auto simp: cell_set_def)

lemma cell_set_in: "i < length xs \<Longrightarrow> cell_set xs i x = Some (xs[i := Some x])"
  by (simp add: cell_set_def)

text \<open>Reading and writing a range of cells (\<open>memcpy\<close> from and to an array).\<close>

definition cells_read :: "'a option list \<Rightarrow> nat \<Rightarrow> nat \<Rightarrow> 'a list option" where
  "cells_read xs i n =
     (if i + n \<le> length xs \<and> None \<notin> set (take n (drop i xs))
      then Some (map the (take n (drop i xs))) else None)"

definition cells_write :: "'a option list \<Rightarrow> nat \<Rightarrow> 'a list \<Rightarrow> 'a option list option" where
  "cells_write xs i ys =
     (if i + length ys \<le> length xs
      then Some (take i xs @ map Some ys @ drop (i + length ys) xs) else None)"

lemma length_cells_write: "cells_write xs i ys = Some zs \<Longrightarrow> length zs = length xs"
  by (auto simp: cells_write_def split: if_splits)

lemma no_None_iff: "None \<notin> set cs \<longleftrightarrow> cs = map Some (map the cs)"
  by (induction cs) auto

lemma cells_read_Some:
  "cells_read xs i n = Some ys \<longleftrightarrow> i + n \<le> length xs \<and> take n (drop i xs) = map Some ys"
  unfolding cells_read_def no_None_iff by (auto simp: o_def)

subsection \<open>Lists\<close>

lemma distinct_swap_update:
  assumes "distinct xs" and "i < length xs" and "j < length xs"
  shows "distinct (xs[i := xs ! j, j := xs ! i])"
  using assms by simp

lemma set_swap_update:
  assumes "i < length xs" and "j < length xs"
  shows "set (xs[i := xs ! j, j := xs ! i]) = set xs"
proof -
  have "mset (xs[i := xs ! j, j := xs ! i]) = mset xs"
    using mset_swap [OF assms(2,1)] by simp
  then show ?thesis by (rule mset_eq_setD)
qed

lemma nth_swap_update:
  assumes "i < length xs" and "j < length xs" and "k < length xs"
  shows "xs[i := xs ! j, j := xs ! i] ! k =
    (if k = j then xs ! i else if k = i then xs ! j else xs ! k)"
  using assms by (auto simp: nth_list_update)

lemma mset_remove1_nth:
  assumes "i < length xs"
  shows "mset xs = add_mset (xs ! i) (mset (take i xs @ drop (Suc i) xs))"
  by (metis assms id_take_nth_drop mset.simps(2) mset_append union_mset_add_mset_right)

lemma length_remove1_Suc: "x \<in> set xs \<Longrightarrow> Suc (length (remove1 x xs)) = length xs"
  by (induction xs) auto

lemma remove1_absent: "e \<notin> set xs \<Longrightarrow> remove1 e xs = xs"
  by (induction xs) auto

lemma remove1_filter: "e \<notin> set (remove1 e xs) \<Longrightarrow> remove1 e xs = filter (\<lambda>x. x \<noteq> e) xs"
proof (induction xs)
  case (Cons x xs)
  then show ?case using filter_id_conv [of "\<lambda>y. y \<noteq> e" xs] by (cases "x = e") auto
qed simp

lemma mset_butlast: "xs \<noteq> [] \<Longrightarrow> mset (butlast xs) = mset xs - {#last xs#}"
  by (cases xs rule: rev_cases) auto

subsection \<open>Flags\<close>

text \<open>\<open>has f q\<close> is the C test \<open>f & q\<close> used as a condition.\<close>

definition has :: "'a::len word \<Rightarrow> 'a word \<Rightarrow> bool" where
  "has f q \<longleftrightarrow> f AND q \<noteq> 0"

lemma has_exp: "has f (2 ^ k) \<longleftrightarrow> bit f k"
  by (simp add: has_def and_exp_eq_0_iff_not_bit)

lemma has_or: "has f (p OR q) \<longleftrightarrow> has f p \<or> has f q"
  by (simp add: has_def bit.conj_disj_distrib or_eq_0_iff)

end
