(* ===== verification/Timeval.thy ===== *)
theory Timeval
  imports Prelude
begin

text \<open>
  \<open>struct timeval\<close> and the macros of \<open>sys/time.h\<close> the library uses:
  \<open>timercmp\<close>, \<open>timeradd\<close>, \<open>timersub\<close>, \<open>timerclear\<close>. The macros compare seconds
  first and microseconds only between equal seconds, and add or subtract with one
  carry, so on normalised values they agree with the number of microseconds.
  Seconds are integers: a \<open>time_t\<close> has 64 bits and signed overflow is undefined.
\<close>

datatype timeval = Timeval (tv_sec: int) (tv_usec: int)

definition timerclear :: timeval where
  "timerclear = Timeval 0 0"

definition timercmp :: "timeval \<Rightarrow> timeval \<Rightarrow> (int \<Rightarrow> int \<Rightarrow> bool) \<Rightarrow> bool" where
  "timercmp a b cmp =
     (if tv_sec a = tv_sec b then cmp (tv_usec a) (tv_usec b) else cmp (tv_sec a) (tv_sec b))"

definition timeradd :: "timeval \<Rightarrow> timeval \<Rightarrow> timeval" where
  "timeradd a b =
     (let s = tv_sec a + tv_sec b; u = tv_usec a + tv_usec b
      in if u \<ge> 1000000 then Timeval (s + 1) (u - 1000000) else Timeval s u)"

definition timersub :: "timeval \<Rightarrow> timeval \<Rightarrow> timeval" where
  "timersub a b =
     (let s = tv_sec a - tv_sec b; u = tv_usec a - tv_usec b
      in if u < 0 then Timeval (s - 1) (u + 1000000) else Timeval s u)"

subsection \<open>The order of \<open>timercmp\<close> is linear\<close>

instantiation timeval :: linorder
begin

definition less_eq_timeval :: "timeval \<Rightarrow> timeval \<Rightarrow> bool" where
  "less_eq_timeval a b = timercmp a b (\<le>)"

definition less_timeval :: "timeval \<Rightarrow> timeval \<Rightarrow> bool" where
  "less_timeval a b = timercmp a b (<)"

instance
  by intro_classes
    (auto simp: less_eq_timeval_def less_timeval_def timercmp_def timeval.expand
      split: if_splits)

end

lemma timercmp_simps [simp]:
  "timercmp a b (>) \<longleftrightarrow> b < a"
  "timercmp a b (\<ge>) \<longleftrightarrow> b \<le> a"
  "timercmp a b (\<le>) \<longleftrightarrow> a \<le> b"
  "timercmp a b (<) \<longleftrightarrow> a < b"
  by (auto simp: less_eq_timeval_def less_timeval_def timercmp_def)

subsection \<open>Normalised values count microseconds\<close>

definition tv_ok :: "timeval \<Rightarrow> bool" where
  "tv_ok t \<longleftrightarrow> 0 \<le> tv_usec t \<and> tv_usec t < 1000000"

definition usecs :: "timeval \<Rightarrow> int" where
  "usecs t = 1000000 * tv_sec t + tv_usec t"

lemma usecs_timeradd [simp]: "usecs (timeradd a b) = usecs a + usecs b"
  by (simp add: usecs_def timeradd_def Let_def)

lemma usecs_timersub [simp]: "usecs (timersub a b) = usecs a - usecs b"
  by (simp add: usecs_def timersub_def Let_def)

lemma usecs_timerclear [simp]: "usecs timerclear = 0"
  by (simp add: usecs_def timerclear_def)

lemma tv_ok_timeradd [simp]: "tv_ok a \<Longrightarrow> tv_ok b \<Longrightarrow> tv_ok (timeradd a b)"
  by (auto simp: tv_ok_def timeradd_def Let_def)

lemma tv_ok_timersub [simp]: "tv_ok a \<Longrightarrow> tv_ok b \<Longrightarrow> tv_ok (timersub a b)"
  by (auto simp: tv_ok_def timersub_def Let_def)

lemma tv_ok_timerclear [simp]: "tv_ok timerclear"
  by (simp add: tv_ok_def timerclear_def)

lemma le_iff_usecs: "tv_ok a \<Longrightarrow> tv_ok b \<Longrightarrow> a \<le> b \<longleftrightarrow> usecs a \<le> usecs b"
  by (auto simp: less_eq_timeval_def timercmp_def usecs_def tv_ok_def)

lemma less_iff_usecs: "tv_ok a \<Longrightarrow> tv_ok b \<Longrightarrow> a < b \<longleftrightarrow> usecs a < usecs b"
  by (auto simp: less_timeval_def timercmp_def usecs_def tv_ok_def)

lemma tv_sec_nonneg: "tv_ok t \<Longrightarrow> 0 \<le> tv_sec t \<longleftrightarrow> 0 \<le> usecs t"
  by (auto simp: usecs_def tv_ok_def)

text \<open>Moving every deadline back by the same offset keeps their order.\<close>

lemma timersub_mono:
  assumes "tv_ok a" and "tv_ok b" and "tv_ok c"
  shows "timersub a c \<le> timersub b c \<longleftrightarrow> a \<le> b"
  using assms by (simp add: le_iff_usecs)

end
