(* ===== verification/MinHeap.thy ===== *)
theory MinHeap
  imports Timeval
begin

text \<open>
  The timer queue of \<open>minheap.cpp\<close>: a binary min-heap of event pointers, ordered by
  \<open>ev_timeout\<close>, in a growable array. Every event knows its slot (\<open>min_heap_idx\<close>), so
  that an arbitrary event can be erased.

  The field \<open>min_heap_idx\<close> of \<open>struct event\<close> is written by this component only;
  it is kept here as the map \<open>hp_idx\<close> from events to their slot. The field \<open>ev_timeout\<close>
  is read only, and is the argument \<open>K\<close>. The array \<open>p\<close> of capacity \<open>a\<close> is the list of cells
  \<open>hp_p\<close>. Whether \<open>realloc\<close> of so many bytes succeeds is the argument \<open>alloc\<close>.
\<close>

subsection \<open>Data and operations\<close>

record min_heap =
  hp_p :: "eid option list"
  hp_n :: nat
  hp_a :: nat
  hp_idx :: "eid \<Rightarrow> nat"

text \<open>The size of a pointer, \<open>sizeof *p\<close>.\<close>

definition sizeof_ptr :: nat where
  "sizeof_ptr = 8"

definition min_heap_ctor :: "min_heap \<Rightarrow> min_heap" where
  "min_heap_ctor s = s\<lparr>hp_p := [], hp_n := 0, hp_a := 0\<rparr>"

definition min_heap_elem_init :: "min_heap \<Rightarrow> eid \<Rightarrow> min_heap" where
  "min_heap_elem_init s e = s\<lparr>hp_idx := (hp_idx s)(e := UINT_MAX)\<rparr>"

definition min_heap_elem_greater :: "(eid \<Rightarrow> timeval) \<Rightarrow> eid \<Rightarrow> eid \<Rightarrow> bool" where
  "min_heap_elem_greater K a b \<longleftrightarrow> timercmp (K a) (K b) (>)"

definition min_heap_empty :: "min_heap \<Rightarrow> bool" where
  "min_heap_empty s \<longleftrightarrow> hp_n s = 0"

definition min_heap_size :: "min_heap \<Rightarrow> nat" where
  "min_heap_size s = hp_n s"

text \<open>The outer option is the C call, the inner one the (null) pointer it returns.\<close>

definition min_heap_top :: "min_heap \<Rightarrow> eid option option" where
  "min_heap_top s =
     (if hp_n s \<noteq> 0 then do { e \<leftarrow> cell_get (hp_p s) 0; Some (Some e) } else Some None)"

definition min_heap_reserve :: "(nat \<Rightarrow> bool) \<Rightarrow> min_heap \<Rightarrow> nat \<Rightarrow> int \<times> min_heap" where
  "min_heap_reserve alloc s n =
     (if hp_a s < n then
        let a0 = (if hp_a s \<noteq> 0 then u32 (hp_a s * 2) else 8);
            a = (if a0 < n then n else a0)
        in if alloc (a * sizeof_ptr)
           then (0, s\<lparr>hp_p := take a (hp_p s) @ replicate (a - length (hp_p s)) None, hp_a := a\<rparr>)
           else (-1, s)
      else (0, s))"

text \<open>\<open>(hole_index - 1) / 2\<close> and \<open>2 * (hole_index + 1)\<close> on \<open>unsigned\<close>.\<close>

definition parent_of :: "nat \<Rightarrow> nat" where
  "parent_of hole = u32 (hole + (2 ^ 32 - 1)) div 2"

definition min_child_of :: "nat \<Rightarrow> nat" where
  "min_child_of hole = u32 (2 * u32 (hole + 1))"

lemma u32_dec: "0 < x \<Longrightarrow> x < 2 ^ 32 \<Longrightarrow> u32 (x + (2 ^ 32 - 1)) = x - 1"
proof -
  assume x: "0 < x" "x < 2 ^ 32"
  then have "x + (2 ^ 32 - 1) = (x - 1) + 2 ^ 32" by simp
  then have "u32 (x + (2 ^ 32 - 1)) = (x - 1) mod 2 ^ 32"
    by (simp only: u32_def mod_add_self2)
  with x show ?thesis by simp
qed

lemma parent_of_pos: "0 < h \<Longrightarrow> h < 2 ^ 32 \<Longrightarrow> parent_of h = (h - 1) div 2"
  by (simp only: parent_of_def u32_dec)

lemma parent_of_less: "h \<noteq> 0 \<Longrightarrow> parent_of h < h"
proof (cases "h < 2 ^ 32")
  case True
  moreover assume "h \<noteq> 0"
  ultimately show ?thesis by (simp add: parent_of_pos)
next
  case False
  have "u32 (h + (2 ^ 32 - 1)) < 2 ^ 32" by (rule u32_less)
  then have "parent_of h < 2 ^ 32" by (simp add: parent_of_def)
  with False show ?thesis by simp
qed

text \<open>\<open>(s->p[hole] = e)->min_heap_idx = hole\<close>\<close>

definition min_heap_put :: "min_heap \<Rightarrow> nat \<Rightarrow> eid \<Rightarrow> min_heap option" where
  "min_heap_put s hole e =
     do { p \<leftarrow> cell_set (hp_p s) hole e;
          Some (s\<lparr>hp_p := p, hp_idx := (hp_idx s)(e := hole)\<rparr>) }"

function min_heap_shift_up ::
  "(eid \<Rightarrow> timeval) \<Rightarrow> min_heap \<Rightarrow> nat \<Rightarrow> eid \<Rightarrow> min_heap option" where
  "min_heap_shift_up K s hole e =
     (if hole \<noteq> 0 then
        do { q \<leftarrow> cell_get (hp_p s) (parent_of hole);
             if min_heap_elem_greater K q e
             then do { s' \<leftarrow> min_heap_put s hole q; min_heap_shift_up K s' (parent_of hole) e }
             else min_heap_put s hole e }
      else min_heap_put s hole e)"
  by pat_completeness auto
termination
proof (relation "measure (\<lambda>(K, s, hole, e). hole)")
  show "wf (measure (\<lambda>(K, s, hole, e). hole :: nat))" by simp
next
  fix K s hole e x xa
  assume "(hole :: nat) \<noteq> 0"
  then have "parent_of hole < hole" by (simp add: parent_of_less)
  then show "((K :: eid \<Rightarrow> timeval, xa :: min_heap, parent_of hole, e :: eid), K, s, hole, e)
      \<in> measure (\<lambda>(K, s, hole, e). hole)"
    by simp
qed

text \<open>
  \<open>min_child -= min_child == s->n || greater(p[min_child], p[min_child - 1])\<close>:
  the smaller child, the left one when it is the only one.
\<close>

definition min_heap_pick_child :: "(eid \<Rightarrow> timeval) \<Rightarrow> min_heap \<Rightarrow> nat \<Rightarrow> nat option" where
  "min_heap_pick_child K s c =
     (if c = hp_n s then Some (u32 (c + (2 ^ 32 - 1)))
      else do { r \<leftarrow> cell_get (hp_p s) c;
                l \<leftarrow> cell_get (hp_p s) (u32 (c + (2 ^ 32 - 1)));
                Some (if min_heap_elem_greater K r l then u32 (c + (2 ^ 32 - 1)) else c) })"

partial_function (option) min_heap_shift_down ::
  "(eid \<Rightarrow> timeval) \<Rightarrow> min_heap \<Rightarrow> nat \<Rightarrow> eid \<Rightarrow> min_heap option" where
  "min_heap_shift_down K s hole e =
     (if min_child_of hole \<le> hp_n s then
        do { c \<leftarrow> min_heap_pick_child K s (min_child_of hole);
             x \<leftarrow> cell_get (hp_p s) c;
             if \<not> min_heap_elem_greater K e x then min_heap_shift_up K s hole e
             else do { s' \<leftarrow> min_heap_put s hole x; min_heap_shift_down K s' c e } }
      else min_heap_shift_up K s hole e)"

definition min_heap_push ::
  "(nat \<Rightarrow> bool) \<Rightarrow> (eid \<Rightarrow> timeval) \<Rightarrow> min_heap \<Rightarrow> eid \<Rightarrow> (int \<times> min_heap) option" where
  "min_heap_push alloc K s e =
     (case min_heap_reserve alloc s (u32 (hp_n s + 1)) of (r, s1) \<Rightarrow>
        if r \<noteq> 0 then Some (-1, s1)
        else do { s2 \<leftarrow> min_heap_shift_up K (s1\<lparr>hp_n := u32 (hp_n s1 + 1)\<rparr>) (hp_n s1) e;
                  Some (0, s2) })"

definition min_heap_pop ::
  "(eid \<Rightarrow> timeval) \<Rightarrow> min_heap \<Rightarrow> (eid option \<times> min_heap) option" where
  "min_heap_pop K s =
     (if hp_n s \<noteq> 0 then
        do { e \<leftarrow> cell_get (hp_p s) 0;
             let s1 = s\<lparr>hp_n := hp_n s - 1\<rparr>;
             last \<leftarrow> cell_get (hp_p s) (hp_n s1);
             s2 \<leftarrow> min_heap_shift_down K s1 0 last;
             Some (Some e, s2\<lparr>hp_idx := (hp_idx s2)(e := UINT_MAX)\<rparr>) }
      else Some (None, s))"

definition min_heap_erase ::
  "(eid \<Rightarrow> timeval) \<Rightarrow> min_heap \<Rightarrow> eid \<Rightarrow> (int \<times> min_heap) option" where
  "min_heap_erase K s e =
     (if hp_idx s e \<noteq> UINT_MAX then
        do { let s1 = s\<lparr>hp_n := u32 (hp_n s + (2 ^ 32 - 1))\<rparr>;
             last \<leftarrow> cell_get (hp_p s1) (hp_n s1);
             up \<leftarrow> (if hp_idx s e > 0
                    then do { q \<leftarrow> cell_get (hp_p s1) (parent_of (hp_idx s e));
                              Some (min_heap_elem_greater K q last) }
                    else Some False);
             s2 \<leftarrow> (if up then min_heap_shift_up K s1 (hp_idx s e) last
                    else min_heap_shift_down K s1 (hp_idx s e) last);
             Some (0, s2\<lparr>hp_idx := (hp_idx s2)(e := UINT_MAX)\<rparr>) }
      else Some (-1, s))"

declare min_heap_shift_up.simps [simp del]


subsection \<open>The heap order on lists\<close>

definition par :: "nat \<Rightarrow> nat" where
  "par i = (i - 1) div 2"

text \<open>No element is due before its parent.\<close>

definition heap_list :: "(eid \<Rightarrow> timeval) \<Rightarrow> eid list \<Rightarrow> bool" where
  "heap_list K xs \<longleftrightarrow> (\<forall>i<length xs. 0 < i \<longrightarrow> K (xs ! par i) \<le> K (xs ! i))"

text \<open>
  A heap with one defect at \<open>j\<close>: \<open>xs ! j\<close> may be smaller than its parent
  (\<open>up_defect\<close>) or greater than its children (\<open>down_defect\<close>).
\<close>

definition grand_le :: "(eid \<Rightarrow> timeval) \<Rightarrow> eid list \<Rightarrow> nat \<Rightarrow> bool" where
  "grand_le K xs j \<longleftrightarrow>
     (\<forall>i<length xs. 0 < i \<longrightarrow> par i = j \<longrightarrow> 0 < j \<longrightarrow> K (xs ! par j) \<le> K (xs ! i))"

definition up_defect :: "(eid \<Rightarrow> timeval) \<Rightarrow> eid list \<Rightarrow> nat \<Rightarrow> bool" where
  "up_defect K xs j \<longleftrightarrow>
     (\<forall>i<length xs. 0 < i \<longrightarrow> i \<noteq> j \<longrightarrow> K (xs ! par i) \<le> K (xs ! i)) \<and> grand_le K xs j"

definition down_defect :: "(eid \<Rightarrow> timeval) \<Rightarrow> eid list \<Rightarrow> nat \<Rightarrow> bool" where
  "down_defect K xs j \<longleftrightarrow>
     (\<forall>i<length xs. 0 < i \<longrightarrow> par i \<noteq> j \<longrightarrow> K (xs ! par i) \<le> K (xs ! i)) \<and> grand_le K xs j"

definition swap :: "'a list \<Rightarrow> nat \<Rightarrow> nat \<Rightarrow> 'a list" where
  "swap xs j k = xs[j := xs ! k, k := xs ! j]"

lemma length_swap [simp]: "length (swap xs j k) = length xs"
  by (simp add: swap_def)

lemma nth_swap: "j < length xs \<Longrightarrow> k < length xs \<Longrightarrow> i < length xs \<Longrightarrow>
    swap xs j k ! i = (if i = k then xs ! j else if i = j then xs ! k else xs ! i)"
  by (auto simp: swap_def nth_list_update)

lemma mset_swap_eq [simp]: "j < length xs \<Longrightarrow> k < length xs \<Longrightarrow> mset (swap xs j k) = mset xs"
  using mset_swap [of k xs j] by (simp add: swap_def)

lemma set_swap_eq [simp]: "j < length xs \<Longrightarrow> k < length xs \<Longrightarrow> set (swap xs j k) = set xs"
  by (rule mset_eq_setD) simp

lemma distinct_swap [simp]:
  "j < length xs \<Longrightarrow> k < length xs \<Longrightarrow> distinct (swap xs j k) = distinct xs"
  by (simp add: swap_def)

lemma par_less: "0 < i \<Longrightarrow> par i < i"
  by (simp add: par_def)

lemma par_le_less: "i < n \<Longrightarrow> par i < n"
  by (simp add: par_def)

lemma par_children: "0 < i \<Longrightarrow> par i = j \<longleftrightarrow> i = 2 * j + 1 \<or> i = 2 * j + 2"
  by (auto simp: par_def)

lemma heap_list_min:
  assumes "heap_list K xs" and "i < length xs"
  shows "K (xs ! 0) \<le> K (xs ! i)"
  using assms(2)
proof (induction i rule: less_induct)
  case (less i)
  show ?case
  proof (cases "i = 0")
    case False
    then have "K (xs ! 0) \<le> K (xs ! par i)"
      using less par_less [of i] by (meson gr0I less_trans)
    also have "\<dots> \<le> K (xs ! i)"
      using assms(1) less.prems False by (simp add: heap_list_def)
    finally show ?thesis .
  qed simp
qed

lemma up_defect_start: "heap_list K xs \<Longrightarrow> up_defect K (xs @ [e]) (length xs)"
  unfolding up_defect_def heap_list_def grand_le_def
  by (auto simp: nth_append less_Suc_eq dest: par_less)

lemma up_defect_done: "up_defect K xs j \<Longrightarrow> j = 0 \<or> K (xs ! par j) \<le> K (xs ! j) \<Longrightarrow> heap_list K xs"
  unfolding up_defect_def heap_list_def by (metis neq0_conv)

lemma up_defect_step:
  assumes up: "up_defect K xs j" and j: "0 < j" "j < length xs"
    and lt: "K (xs ! j) < K (xs ! par j)"
  shows "up_defect K (swap xs j (par j)) (par j)"
proof -
  have pj: "par j < length xs" using par_less [OF j(1)] j(2) by simp
  have ord: "K (xs ! par i) \<le> K (xs ! i)" if "i < length xs" "0 < i" "i \<noteq> j" for i
    using up that by (simp add: up_defect_def)
  have grand: "K (xs ! par j) \<le> K (xs ! i)" if "i < length xs" "0 < i" "par i = j" for i
    using up that j(1) by (simp add: up_defect_def grand_le_def)
  have par_lt: "par i < length xs" if "i < length xs" "0 < i" for i
    using par_less [OF that(2)] that(1) by simp
  have nth: "swap xs j (par j) ! i = (if i = par j then xs ! j else if i = j then xs ! par j else xs ! i)"
    if "i < length xs" for i using nth_swap [OF j(2) pj that] .
  have "K (swap xs j (par j) ! par i) \<le> K (swap xs j (par j) ! i)"
    if i: "i < length xs" "0 < i" "i \<noteq> par j" for i
    using nth [OF i(1)] nth [OF par_lt [OF i(1,2)]] i ord [OF i(1,2)] grand [OF i(1,2)] lt
      par_less [OF i(2)] by auto
  moreover have "K (swap xs j (par j) ! par (par j)) \<le> K (swap xs j (par j) ! i)"
    if i: "i < length xs" "0 < i" "par i = par j" "0 < par j" for i
  proof -
    have top: "K (xs ! par (par j)) \<le> K (xs ! par j)"
      using ord [OF pj i(4)] par_less [OF j(1)] by auto
    have "swap xs j (par j) ! par (par j) = xs ! par (par j)"
      using nth [OF par_lt [OF pj i(4)]] par_less [OF i(4)] par_less [OF j(1)] by auto
    then show ?thesis
      using top nth [OF i(1)] ord [OF i(1,2)] i par_less [OF i(2)] by auto
  qed
  ultimately show ?thesis by (simp add: up_defect_def grand_le_def)
qed

lemma down_defect_done:
  assumes "down_defect K xs j" and "\<And>i. i < length xs \<Longrightarrow> 0 < i \<Longrightarrow> par i = j \<Longrightarrow> K (xs ! j) \<le> K (xs ! i)"
  shows "heap_list K xs"
  using assms unfolding down_defect_def heap_list_def by metis

lemma down_defect_step:
  assumes down: "down_defect K xs j" and c: "0 < c" "c < length xs" "par c = j"
    and lt: "K (xs ! c) < K (xs ! j)"
    and least: "\<And>i. i < length xs \<Longrightarrow> 0 < i \<Longrightarrow> par i = j \<Longrightarrow> K (xs ! c) \<le> K (xs ! i)"
  shows "down_defect K (swap xs j c) c"
proof -
  have jc: "j < c" using par_less [OF c(1)] c(3) by simp
  have j: "j < length xs" using jc c(2) by simp
  have ord: "K (xs ! par i) \<le> K (xs ! i)" if "i < length xs" "0 < i" "par i \<noteq> j" for i
    using down that by (simp add: down_defect_def)
  have grand: "K (xs ! par j) \<le> K (xs ! c)" if "0 < j"
    using down that c by (simp add: down_defect_def grand_le_def)
  have par_lt: "par i < length xs" if "i < length xs" "0 < i" for i
    using par_less [OF that(2)] that(1) by simp
  have nth: "swap xs j c ! i = (if i = c then xs ! j else if i = j then xs ! c else xs ! i)"
    if "i < length xs" for i using nth_swap [OF j c(2) that] .
  have "K (swap xs j c ! par i) \<le> K (swap xs j c ! i)"
    if i: "i < length xs" "0 < i" "par i \<noteq> c" for i
    using nth [OF i(1)] nth [OF par_lt [OF i(1,2)]] i c(3) ord [OF i(1,2)] least [OF i(1,2)]
      grand lt par_less [OF i(2)] by auto
  moreover have "K (swap xs j c ! par c) \<le> K (swap xs j c ! i)"
    if i: "i < length xs" "0 < i" "par i = c" for i
    using nth [OF i(1)] nth [OF j] ord [OF i(1,2)] i c(3) jc par_less [OF i(2)] by auto
  ultimately show ?thesis by (simp add: down_defect_def grand_le_def)
qed

subsection \<open>What the array represents\<close>

text \<open>
  \<open>heap_rep s xs\<close>: the first cells of the array hold \<open>xs\<close> and every one of these events
  knows its slot. \<open>hole_rep s j e xs\<close>: the same but for a hole at \<open>j\<close> that is meant for \<open>e\<close>.
\<close>

definition heap_rep :: "min_heap \<Rightarrow> eid list \<Rightarrow> bool" where
  "heap_rep s xs \<longleftrightarrow> length xs \<le> length (hp_p s) \<and> distinct xs \<and>
     (\<forall>i<length xs. hp_p s ! i = Some (xs ! i) \<and> hp_idx s (xs ! i) = i)"

definition hole_rep :: "min_heap \<Rightarrow> nat \<Rightarrow> eid \<Rightarrow> eid list \<Rightarrow> bool" where
  "hole_rep s j e xs \<longleftrightarrow> length xs \<le> length (hp_p s) \<and> distinct xs \<and> j < length xs \<and> xs ! j = e \<and>
     (\<forall>i<length xs. i \<noteq> j \<longrightarrow> hp_p s ! i = Some (xs ! i) \<and> hp_idx s (xs ! i) = i)"

definition heap_frame :: "min_heap \<Rightarrow> min_heap \<Rightarrow> eid set \<Rightarrow> bool" where
  "heap_frame s s' X \<longleftrightarrow> hp_n s' = hp_n s \<and> hp_a s' = hp_a s \<and>
     length (hp_p s') = length (hp_p s) \<and> (\<forall>x. x \<notin> X \<longrightarrow> hp_idx s' x = hp_idx s x)"

lemma heap_frame_refl [simp]: "heap_frame s s X"
  by (simp add: heap_frame_def)

lemma heap_frame_trans [trans]:
  "heap_frame s t X \<Longrightarrow> heap_frame t u X \<Longrightarrow> heap_frame s u X"
  by (simp add: heap_frame_def)

lemma hole_rep_get:
  assumes "hole_rep s j e xs" and "i < length xs" and "i \<noteq> j"
  shows "cell_get (hp_p s) i = Some (xs ! i)"
  using assms by (auto simp: hole_rep_def cell_get_def)

lemma min_heap_put_fills:
  assumes "hole_rep s j e xs"
  obtains s' where "min_heap_put s j e = Some s'" and "heap_rep s' xs" and "heap_frame s s' (set xs)"
proof -
  define s' where "s' = s\<lparr>hp_p := (hp_p s)[j := Some e], hp_idx := (hp_idx s)(e := j)\<rparr>"
  from assms have j: "j < length (hp_p s)" "j < length xs" "xs ! j = e" "distinct xs"
    by (auto simp: hole_rep_def)
  have "min_heap_put s j e = Some s'"
    using j by (simp add: min_heap_put_def s'_def cell_set_def)
  moreover have "heap_rep s' xs"
    using assms j by (auto simp: heap_rep_def hole_rep_def s'_def nth_list_update nth_eq_iff_index_eq)
  moreover have "heap_frame s s' (set xs)"
    using j by (auto simp: heap_frame_def s'_def)
  ultimately show thesis by (rule that)
qed

lemma min_heap_put_moves:
  assumes "hole_rep s j e xs" and "k < length xs" and "k \<noteq> j"
  obtains s' where "min_heap_put s j (xs ! k) = Some s'" and "hole_rep s' k e (swap xs j k)"
    and "heap_frame s s' (set xs)"
proof -
  define s' where "s' = s\<lparr>hp_p := (hp_p s)[j := Some (xs ! k)], hp_idx := (hp_idx s)(xs ! k := j)\<rparr>"
  from assms have j: "j < length (hp_p s)" "j < length xs" "xs ! j = e" "distinct xs"
    by (auto simp: hole_rep_def)
  have "min_heap_put s j (xs ! k) = Some s'"
    using j by (simp add: min_heap_put_def s'_def cell_set_def)
  moreover have "hole_rep s' k e (swap xs j k)"
    using assms j
    by (auto simp: hole_rep_def s'_def nth_list_update nth_swap nth_eq_iff_index_eq)
  moreover have "heap_frame s s' (set xs)"
    using j assms(2) by (auto simp: heap_frame_def s'_def)
  ultimately show thesis by (rule that)
qed

subsection \<open>The two loops\<close>

lemma parent_of_par: "0 < j \<Longrightarrow> j < 2 ^ 32 \<Longrightarrow> parent_of j = par j"
  by (simp only: parent_of_pos par_def)

lemma min_heap_shift_up_correct:
  assumes "hole_rep s j e xs" and "up_defect K xs j" and "length xs < 2 ^ 31"
  shows "\<exists>s' ys. min_heap_shift_up K s j e = Some s' \<and> heap_rep s' ys \<and> heap_list K ys \<and>
    mset ys = mset xs \<and> heap_frame s s' (set xs)"
  using assms
proof (induction j arbitrary: s xs rule: less_induct)
  case (less j)
  note rep = less.prems(1) and up = less.prems(2)
  have j: "j < length xs" "xs ! j = e" using rep by (auto simp: hole_rep_def)
  show ?case
  proof (cases "j \<noteq> 0 \<and> K (xs ! j) < K (xs ! par j)")
    case True
    then have pj: "par j < j" "parent_of j = par j" "par j < length xs"
      using par_less [of j] parent_of_par [of j] j less.prems(3) by auto
    obtain s1 where s1: "min_heap_put s j (xs ! par j) = Some s1"
      "hole_rep s1 (par j) e (swap xs j (par j))" "heap_frame s s1 (set xs)"
      using min_heap_put_moves [OF rep pj(3)] pj(1) by auto
    have "up_defect K (swap xs j (par j)) (par j)"
      using up_defect_step [OF up _ j(1)] True by simp
    from less.IH [OF pj(1) s1(2) this] obtain s' ys where s':
      "min_heap_shift_up K s1 (par j) e = Some s'" "heap_rep s' ys" "heap_list K ys"
      "mset ys = mset xs" "heap_frame s1 s' (set xs)"
      using less.prems(3) j(1) pj(3) by auto
    have "min_heap_shift_up K s j e = Some s'"
      using True pj s1(1) s'(1) hole_rep_get [OF rep pj(3)] j(2)
      by (simp add: min_heap_shift_up.simps [of K s j e] min_heap_elem_greater_def)
    then show ?thesis using s' s1(3) heap_frame_trans by blast
  next
    case False
    obtain s' where s': "min_heap_put s j e = Some s'" "heap_rep s' xs" "heap_frame s s' (set xs)"
      by (rule min_heap_put_fills [OF rep])
    have "min_heap_shift_up K s j e = Some s'"
    proof (cases "j = 0")
      case nz: False
      then have "par j < j" "parent_of j = par j" "par j < length xs"
        using par_less [of j] parent_of_par [of j] j less.prems(3) by auto
      then show ?thesis
        using nz False s'(1) hole_rep_get [OF rep, of "par j"] j(2)
        by (simp add: min_heap_shift_up.simps [of K s j e] min_heap_elem_greater_def)
    next
      case True
      then show ?thesis using s'(1) by (simp add: min_heap_shift_up.simps [of K s 0 e])
    qed
    moreover have "heap_list K xs"
      using False by (intro up_defect_done [OF up]) auto
    ultimately show ?thesis using s' by blast
  qed
qed

lemma min_child_of_small: "j < 2 ^ 31 - 1 \<Longrightarrow> min_child_of j = 2 * j + 2"
  by (simp add: min_child_of_def u32_def)

lemma min_heap_pick_child_correct:
  assumes rep: "hole_rep s j e xs" and n: "hp_n s = length xs" "length xs < 2 ^ 31"
    and c: "2 * j + 2 \<le> length xs"
  obtains c where "min_heap_pick_child K s (2 * j + 2) = Some c"
    and "0 < c" "c < length xs" "par c = j"
    and "\<And>i. i < length xs \<Longrightarrow> 0 < i \<Longrightarrow> par i = j \<Longrightarrow> K (xs ! c) \<le> K (xs ! i)"
proof -
  have dec: "u32 (2 * j + 2 + (2 ^ 32 - 1)) = 2 * j + 1"
    using u32_dec [of "2 * j + 2"] c n(2) by simp
  have l: "cell_get (hp_p s) (2 * j + 1) = Some (xs ! (2 * j + 1))"
    using hole_rep_get [OF rep, of "2 * j + 1"] c by simp
  show thesis
  proof (cases "2 * j + 2 = length xs \<or> K (xs ! (2 * j + 2)) > K (xs ! (2 * j + 1))")
    case True
    have "min_heap_pick_child K s (2 * j + 2) = Some (2 * j + 1)"
    proof (cases "2 * j + 2 = length xs")
      case False
      then have "cell_get (hp_p s) (2 * j + 2) = Some (xs ! (2 * j + 2))"
        using hole_rep_get [OF rep, of "2 * j + 2"] c by simp
      then show ?thesis
        using False True l n(1) unfolding min_heap_pick_child_def dec
        by (simp add: min_heap_elem_greater_def)
    next
      case True
      then show ?thesis using n(1) unfolding min_heap_pick_child_def dec by simp
    qed
    moreover have "K (xs ! (2 * j + 1)) \<le> K (xs ! i)"
      if "i < length xs" "0 < i" "par i = j" for i
      using that True par_children [OF that(2)] by auto
    ultimately show thesis using that [of "2 * j + 1"] c by (simp add: par_def)
  next
    case False
    then have r: "cell_get (hp_p s) (2 * j + 2) = Some (xs ! (2 * j + 2))"
      using hole_rep_get [OF rep, of "2 * j + 2"] c by simp
    have "min_heap_pick_child K s (2 * j + 2) = Some (2 * j + 2)"
      using False r l n(1) unfolding min_heap_pick_child_def dec
      by (simp add: min_heap_elem_greater_def)
    moreover have "K (xs ! (2 * j + 2)) \<le> K (xs ! i)"
      if "i < length xs" "0 < i" "par i = j" for i
      using that False par_children [OF that(2)] by auto
    ultimately show thesis using that [of "2 * j + 2"] c False by (simp add: par_def)
  qed
qed

lemma min_heap_shift_down_correct:
  assumes "hole_rep s j e xs" and "down_defect K xs j"
    and "0 < j \<Longrightarrow> K (xs ! par j) \<le> K (xs ! j)"
    and "hp_n s = length xs" and "length xs < 2 ^ 31"
  shows "\<exists>s' ys. min_heap_shift_down K s j e = Some s' \<and> heap_rep s' ys \<and> heap_list K ys \<and>
    mset ys = mset xs \<and> heap_frame s s' (set xs)"
  using assms
proof (induction "length xs - j" arbitrary: s j xs rule: less_induct)
  case less
  note rep = less.prems(1) and down = less.prems(2) and le = less.prems(3)
    and n = less.prems(4,5)
  have j: "j < length xs" "xs ! j = e" using rep by (auto simp: hole_rep_def)
  have mc: "min_child_of j = 2 * j + 2" using min_child_of_small j n(2) by simp
  have stop: ?case
    if h: "heap_list K xs" and eq: "min_heap_shift_down K s j e = min_heap_shift_up K s j e"
  proof -
    have "up_defect K xs j"
      using h down by (auto simp: up_defect_def heap_list_def down_defect_def)
    then show ?thesis using min_heap_shift_up_correct [OF rep _ n(2)] eq by simp
  qed
  show ?case
  proof (cases "2 * j + 2 \<le> length xs")
    case False
    then have "heap_list K xs"
      by (intro down_defect_done [OF down]) (auto simp: par_children)
    then show ?thesis
      using False mc n(1) by (intro stop) (simp_all add: min_heap_shift_down.simps [of K s j e])
  next
    case True
    obtain c where c: "min_heap_pick_child K s (2 * j + 2) = Some c"
      "0 < c" "c < length xs" "par c = j"
      and least: "\<And>i. i < length xs \<Longrightarrow> 0 < i \<Longrightarrow> par i = j \<Longrightarrow> K (xs ! c) \<le> K (xs ! i)"
      using min_heap_pick_child_correct [OF rep n True, where K = K] by blast
    have cj: "j < c" using par_less [OF c(2)] c(4) by simp
    have get: "cell_get (hp_p s) c = Some (xs ! c)"
      using hole_rep_get [OF rep c(3)] cj by simp
    show ?thesis
    proof (cases "K (xs ! c) < K (xs ! j)")
      case False
      have "heap_list K xs"
        using False least by (intro down_defect_done [OF down]) force
      then show ?thesis
        using False mc n(1) c(1) get j(2) True
        by (intro stop)
          (simp_all add: min_heap_shift_down.simps [of K s j e] min_heap_elem_greater_def)
    next
      case lt: True
      obtain s1 where s1: "min_heap_put s j (xs ! c) = Some s1"
        "hole_rep s1 c e (swap xs j c)" "heap_frame s s1 (set xs)"
        using min_heap_put_moves [OF rep c(3)] cj by auto
      have "down_defect K (swap xs j c) c"
        using down_defect_step [OF down c(2-4) lt least] .
      moreover have "K (swap xs j c ! par c) \<le> K (swap xs j c ! c)"
        using lt j c cj by (simp add: nth_swap)
      ultimately obtain s' ys where s': "min_heap_shift_down K s1 c e = Some s'"
        "heap_rep s' ys" "heap_list K ys" "mset ys = mset (swap xs j c)"
        "heap_frame s1 s' (set (swap xs j c))"
        using less.hyps [OF _ s1(2)] s1(3) n cj c(3) by (fastforce simp: heap_frame_def)
      have "min_heap_shift_down K s j e = Some s'"
        using mc n(1) c(1) get j(2) True lt s1(1) s'(1)
        by (simp add: min_heap_shift_down.simps [of K s j e] min_heap_elem_greater_def)
      then show ?thesis using s' s1(3) j(1) c(3) heap_frame_trans by auto
    qed
  qed
qed

subsection \<open>The invariant of the heap\<close>

definition helems :: "min_heap \<Rightarrow> eid list" where
  "helems s = map the (take (hp_n s) (hp_p s))"

text \<open>
  The capacity and the fill count are those of the array, the count is far enough from the
  wrap-around of \<open>unsigned\<close> that no index computation wraps, every element knows its slot,
  and the slots are ordered.
\<close>

definition heap_ok :: "(eid \<Rightarrow> timeval) \<Rightarrow> min_heap \<Rightarrow> bool" where
  "heap_ok K s \<longleftrightarrow> hp_a s = length (hp_p s) \<and> hp_n s \<le> hp_a s \<and> hp_n s < 2 ^ 31 \<and>
     heap_rep s (helems s) \<and> heap_list K (helems s)"

lemma length_helems: "hp_n s \<le> length (hp_p s) \<Longrightarrow> length (helems s) = hp_n s"
  by (simp add: helems_def)

lemma helems_eq:
  assumes "heap_rep s xs" and "hp_n s \<le> length xs"
  shows "helems s = take (hp_n s) xs"
  using assms by (auto simp: helems_def heap_rep_def intro!: nth_equalityI)

lemma heap_ok_n: "heap_ok K s \<Longrightarrow> hp_n s = length (helems s)"
  by (simp add: heap_ok_def length_helems)

lemma heap_ok_distinct: "heap_ok K s \<Longrightarrow> distinct (helems s)"
  by (simp add: heap_ok_def heap_rep_def)

lemma heap_ok_idx: "heap_ok K s \<Longrightarrow> i < length (helems s) \<Longrightarrow> hp_idx s (helems s ! i) = i"
  by (simp add: heap_ok_def heap_rep_def)

lemma heap_ok_get: "heap_ok K s \<Longrightarrow> i < length (helems s) \<Longrightarrow> cell_get (hp_p s) i = Some (helems s ! i)"
  by (auto simp: heap_ok_def heap_rep_def cell_get_def)

lemma heap_ok_slot:
  assumes "heap_ok K s" and "e \<in> set (helems s)"
  shows "hp_idx s e < length (helems s)" and "helems s ! hp_idx s e = e"
  using assms by (auto simp: in_set_conv_nth heap_ok_idx)

lemma par_nth_mem: "i < length xs \<Longrightarrow> xs ! par i \<in> set xs"
  by (cases "i = 0") (auto simp: par_def intro!: nth_mem)

lemma heap_list_cong: "(\<And>e. e \<in> set xs \<Longrightarrow> K' e = K e) \<Longrightarrow> heap_list K' xs = heap_list K xs"
  by (simp add: heap_list_def par_nth_mem)

text \<open>Only the deadlines of the queued events matter.\<close>

lemma heap_ok_cong:
  "heap_ok K s \<Longrightarrow> (\<And>e. e \<in> set (helems s) \<Longrightarrow> K' e = K e) \<Longrightarrow> heap_ok K' s"
  using heap_list_cong [of "helems s" K' K] by (simp add: heap_ok_def)

lemma heap_ok_rekey:
  assumes "heap_ok K s"
    and "\<And>a b. a \<in> set (helems s) \<Longrightarrow> b \<in> set (helems s) \<Longrightarrow> K a \<le> K b \<Longrightarrow> K' a \<le> K' b"
  shows "heap_ok K' s"
  using assms by (simp add: heap_ok_def heap_list_def par_nth_mem)

lemma heap_okI:
  assumes "heap_rep s ys" and "heap_list K ys" and "hp_n s = length ys"
    and "hp_a s = length (hp_p s)" and "length ys < 2 ^ 31"
  shows "heap_ok K s" and "helems s = ys"
proof -
  show "helems s = ys" using helems_eq [OF assms(1)] assms(3) by simp
  with assms show "heap_ok K s" by (simp add: heap_ok_def heap_rep_def)
qed

subsection \<open>The operations keep the invariant\<close>

lemma min_heap_top_correct:
  assumes "heap_ok K s"
  shows "min_heap_top s = Some (case helems s of [] \<Rightarrow> None | e # _ \<Rightarrow> Some e)"
  using heap_ok_get [OF assms, of 0] heap_ok_n [OF assms]
  by (auto simp: min_heap_top_def split: list.split)

lemma min_heap_top_min:
  assumes "heap_ok K s" and "min_heap_top s = Some (Some e)"
  shows "e \<in> set (helems s)" and "x \<in> set (helems s) \<Longrightarrow> K e \<le> K x"
proof -
  from assms have e: "helems s \<noteq> []" "e = helems s ! 0"
    by (auto simp: min_heap_top_correct split: list.splits)
  then show "e \<in> set (helems s)" by simp
  assume "x \<in> set (helems s)"
  then show "K e \<le> K x"
    using assms(1) e by (auto simp: in_set_conv_nth heap_ok_def dest: heap_list_min)
qed

lemma min_heap_reserve_correct:
  assumes "heap_ok K s" and "min_heap_reserve alloc s n = (r, s')"
  shows "heap_ok K s'" and "helems s' = helems s" and "hp_idx s' = hp_idx s"
    and "hp_n s' = hp_n s" and "r = 0 \<Longrightarrow> n \<le> length (hp_p s')"
    and "r = 0 \<or> r = -1 \<and> s' = s" and "(\<And>b. alloc b) \<Longrightarrow> r = 0"
proof -
  have "heap_ok K s' \<and> helems s' = helems s \<and> hp_idx s' = hp_idx s \<and> hp_n s' = hp_n s \<and>
    (r = 0 \<longrightarrow> n \<le> length (hp_p s')) \<and> (r = 0 \<or> r = -1 \<and> s' = s) \<and> ((\<forall>b. alloc b) \<longrightarrow> r = 0)"
  proof (cases "hp_a s < n \<and> r = 0")
    case True
    define a where "a = max n (if hp_a s \<noteq> 0 then u32 (hp_a s * 2) else 8)"
    have a: "n \<le> a"
      "s' = s\<lparr>hp_p := take a (hp_p s) @ replicate (a - length (hp_p s)) None, hp_a := a\<rparr>"
      using assms(2) True
      by (auto simp: min_heap_reserve_def Let_def a_def max_def split: if_splits)
    have le: "hp_n s \<le> length (hp_p s)" "length (hp_p s) \<le> a" "hp_a s = length (hp_p s)"
      using assms(1) a(1) True by (auto simp: heap_ok_def)
    then have "helems s' = helems s" by (simp add: a(2) helems_def)
    then show ?thesis using assms(1) le a True
      by (auto simp: heap_ok_def heap_rep_def nth_append length_helems)
  next
    case False
    then show ?thesis using assms
      by (auto simp: min_heap_reserve_def Let_def heap_ok_def split: if_splits)
  qed
  then show "heap_ok K s'" "helems s' = helems s" "hp_idx s' = hp_idx s" "hp_n s' = hp_n s"
    "r = 0 \<Longrightarrow> n \<le> length (hp_p s')" "r = 0 \<or> r = -1 \<and> s' = s" "(\<And>b. alloc b) \<Longrightarrow> r = 0"
    by blast+
qed

lemma min_heap_push_correct:
  assumes ok: "heap_ok K s" and e: "e \<notin> set (helems s)" and n: "hp_n s + 1 < 2 ^ 31"
  obtains r s' where "min_heap_push alloc K s e = Some (r, s')" and "heap_ok K s'"
    and "r = 0 \<and> mset (helems s') = add_mset e (mset (helems s)) \<or> r = -1 \<and> s' = s"
    and "(\<And>b. alloc b) \<Longrightarrow> r = 0"
    and "\<And>x. x \<noteq> e \<Longrightarrow> x \<notin> set (helems s) \<Longrightarrow> hp_idx s' x = hp_idx s x"
proof -
  obtain r s1 where res: "min_heap_reserve alloc s (u32 (hp_n s + 1)) = (r, s1)" by fastforce
  note s1 = min_heap_reserve_correct [OF ok res]
  show thesis
  proof (cases "r = 0")
    case False
    then show thesis
      using that [of "-1" s] ok s1(6,7) res by (auto simp: min_heap_push_def)
  next
    case True
    define s2 where "s2 = s1\<lparr>hp_n := u32 (hp_n s1 + 1)\<rparr>"
    let ?xs = "helems s @ [e]"
    have n1: "hp_n s1 = length (helems s)" "u32 (hp_n s1 + 1) = length ?xs"
      using heap_ok_n [OF ok] s1(4) n by (auto simp: u32_def)
    have cap: "length ?xs \<le> length (hp_p s1)"
      using s1(5) [OF True] n1 s1(4) by simp
    have hole: "hole_rep s2 (length (helems s)) e ?xs"
      using s1(1,2) e cap
      by (auto simp: hole_rep_def s2_def heap_ok_def heap_rep_def nth_append less_Suc_eq)
    have up: "up_defect K ?xs (length (helems s))" "length ?xs < 2 ^ 31"
      using ok n n1 s1(4) by (auto simp: up_defect_start heap_ok_def)
    obtain s' ys where s':
      "min_heap_shift_up K s2 (length (helems s)) e = Some s'" "heap_rep s' ys" "heap_list K ys"
      "mset ys = mset ?xs" "heap_frame s2 s' (set ?xs)"
      using min_heap_shift_up_correct [OF hole up] by blast
    have len: "length ys = length ?xs" using s'(4) by (metis size_mset)
    have "heap_ok K s'" "helems s' = ys"
      using heap_okI [OF s'(2,3)] s'(5) s1(1) n n1 s1(4) len
      by (auto simp: heap_frame_def s2_def heap_ok_def)
    moreover have "min_heap_push alloc K s e = Some (0, s')"
      using res True s'(1) n1(1) by (simp add: min_heap_push_def s2_def)
    ultimately show thesis
      using that [of 0 s'] s'(4,5) s1(3) by (auto simp: heap_frame_def s2_def)
  qed
qed

lemma min_heap_shift_up_stays:
  assumes "j < 2 ^ 32" and "0 < j \<Longrightarrow> cell_get (hp_p s) (par j) = Some q \<and> K q \<le> K e"
  shows "min_heap_shift_up K s j e = min_heap_put s j e"
proof (cases "j = 0")
  case True
  then show ?thesis by (simp add: min_heap_shift_up.simps [of K s 0 e])
next
  case False
  then show ?thesis using assms parent_of_par [of j]
    by (auto simp: min_heap_shift_up.simps [of K s j e] min_heap_elem_greater_def)
qed

text \<open>The slot \<open>i\<close> is refilled with the last element, which the shorter heap no longer has.\<close>

definition refill :: "eid list \<Rightarrow> nat \<Rightarrow> eid list" where
  "refill xs i = (butlast xs)[i := last xs]"

lemma mset_refill:
  assumes "i < length xs - 1"
  shows "mset (refill xs i) = mset xs - {#xs ! i#}"
proof -
  from assms have "xs \<noteq> []" and mem: "xs ! i \<in># mset (butlast xs)"
    by (auto simp: in_set_conv_nth nth_butlast)
  then have "mset xs = {#last xs#} + mset (butlast xs)"
    by (metis append_butlast_last_id mset_append mset_single_iff_right union_commute)
  with assms mem show ?thesis
    by (simp add: refill_def mset_update nth_butlast diff_union_single_conv
        flip: add_mset_add_single)
qed

lemma distinct_refill:
  assumes "distinct xs" and "i < length xs - 1"
  shows "distinct (refill xs i)"
  using assms by (cases xs rule: rev_cases) (auto simp: refill_def intro!: distinct_list_update)

lemma nth_refill:
  "j < length xs - 1 \<Longrightarrow> refill xs i ! j = (if j = i then last xs else xs ! j)"
  by (auto simp: refill_def nth_list_update nth_butlast)

lemma refill_defect:
  assumes "heap_list K xs" and "i < length xs - 1"
  shows "K (last xs) < K (xs ! par i) \<Longrightarrow> 0 < i \<Longrightarrow> up_defect K (refill xs i) i"
    and "0 < i \<longrightarrow> K (xs ! par i) \<le> K (last xs) \<Longrightarrow> down_defect K (refill xs i) i"
proof -
  have len: "length (refill xs i) = length xs - 1" by (simp add: refill_def)
  have ord: "K (xs ! par j) \<le> K (xs ! j)" if "j < length xs" "0 < j" for j
    using assms(1) that by (simp add: heap_list_def)
  have pi: "par j < length xs - 1" if "j < length xs - 1" for j
    using that by (rule par_le_less)
  have grand: "K (xs ! par i) \<le> K (xs ! j)" if "j < length xs - 1" "0 < j" "par j = i" "0 < i" for j
    using order_trans [OF ord [of i] ord [of j, unfolded that(3)]] that assms(2) by simp
  have g: "grand_le K (refill xs i) i"
    using grand assms(2) len pi par_less less_irrefl
    by (auto simp: grand_le_def nth_refill) (metis less_irrefl par_less)
  have rest: "K (refill xs i ! par j) \<le> K (refill xs i ! j)"
    if "j < length xs - 1" "0 < j" "j \<noteq> i" "par j \<noteq> i" for j
    using that ord [of j] pi [of j] by (simp add: nth_refill)
  show "up_defect K (refill xs i) i" if lt: "K (last xs) < K (xs ! par i)" and i: "0 < i"
  proof -
    have "K (refill xs i ! par j) \<le> K (refill xs i ! j)"
      if j: "j < length xs - 1" "0 < j" "j \<noteq> i" "par j = i" for j
      using grand [OF j(1,2,4) i] lt j assms(2) by (simp add: nth_refill)
    with rest g show ?thesis unfolding up_defect_def len by blast
  qed
  show "down_defect K (refill xs i) i" if le: "0 < i \<longrightarrow> K (xs ! par i) \<le> K (last xs)"
  proof -
    have "K (refill xs i ! par j) \<le> K (refill xs i ! j)"
      if j: "j < length xs - 1" "0 < j" "j = i" for j
      using le j pi [of j] par_less [of j] by (simp add: nth_refill)
    with rest g show ?thesis unfolding down_defect_def len by blast
  qed
qed

lemma heap_list_butlast: "heap_list K xs \<Longrightarrow> heap_list K (butlast xs)"
  by (auto simp: heap_list_def nth_butlast par_le_less)

lemma min_heap_fill_slot:
  assumes ok: "heap_ok K s" and i: "i < length (helems s)"
    and s1: "s1 = s\<lparr>hp_n := hp_n s - 1\<rparr>"
    and up: "up \<longleftrightarrow> 0 < i \<and> K (last (helems s)) < K (helems s ! par i)"
  shows "\<exists>s2 ys. (if up then min_heap_shift_up K s1 i (last (helems s))
      else min_heap_shift_down K s1 i (last (helems s))) = Some s2 \<and> heap_rep s2 ys \<and>
    heap_list K (take (hp_n s1) ys) \<and> hp_n s1 \<le> length ys \<and>
    mset (take (hp_n s1) ys) = mset (helems s) - {#helems s ! i#} \<and>
    heap_frame s1 s2 (set (helems s))"
proof -
  let ?xs = "helems s" and ?e = "last (helems s)"
  have n: "hp_n s = length ?xs" "length ?xs < 2 ^ 31" and ne: "?xs \<noteq> []"
    and hl: "heap_list K ?xs" and d: "distinct ?xs"
    using heap_ok_n [OF ok] ok i by (auto simp: heap_ok_def heap_rep_def)
  have last: "?e = ?xs ! (length ?xs - 1)" using ne by (simp add: last_conv_nth)
  show ?thesis
  proof (cases "i = length ?xs - 1")
    case True
    have par: "par i < length ?xs" using i by (rule par_le_less)
    have nup: "\<not> up" using up hl i True last by (auto simp: heap_list_def not_less)
    have hole: "hole_rep s1 i ?e ?xs"
      using ok i last True by (auto simp: hole_rep_def heap_ok_def heap_rep_def s1)
    obtain s2 where s2: "min_heap_put s1 i ?e = Some s2" "heap_rep s2 ?xs"
      "heap_frame s1 s2 (set ?xs)"
      by (rule min_heap_put_fills [OF hole])
    have "min_child_of i = 2 * i + 2" using min_child_of_small i n(2) by simp
    moreover have "\<not> 2 * i + 2 \<le> hp_n s1" using True n(1) by (simp add: s1)
    ultimately have "min_heap_shift_down K s1 i ?e = min_heap_shift_up K s1 i ?e"
      by (simp add: min_heap_shift_down.simps [of K s1 i ?e])
    also have "\<dots> = min_heap_put s1 i ?e"
      using i n(2) heap_ok_get [OF ok par] nup up
      by (intro min_heap_shift_up_stays [where q = "?xs ! par i"]) (auto simp: s1 not_less)
    finally have "min_heap_shift_down K s1 i ?e = Some s2" using s2(1) by simp
    moreover have bl: "take (length ?xs - 1) ?xs = butlast ?xs"
      by (simp add: butlast_conv_take)
    moreover have "mset (butlast ?xs) = mset ?xs - {#?xs ! i#}"
      using mset_butlast [OF ne] True last by simp
    moreover have "heap_list K (butlast ?xs)"
      using hl by (rule heap_list_butlast)
    ultimately show ?thesis using nup s2 n(1)
      by (intro exI [of _ s2] exI [of _ ?xs]) (simp add: s1)
  next
    case False
    then have i': "i < length ?xs - 1" using i by simp
    let ?zs = "refill ?xs i"
    have len: "length ?zs = length ?xs - 1" by (simp add: refill_def)
    have hole: "hole_rep s1 i ?e ?zs"
      using ok i' distinct_refill [OF d i'] 
      by (auto simp: hole_rep_def heap_ok_def heap_rep_def s1 len nth_refill)
    have set: "set ?zs \<subseteq> set ?xs"
      using mset_refill [OF i'] by (metis diff_subset_eq_self mset_subset_eqD set_mset_mset subsetI)
    have "\<exists>s2 ys. (if up then min_heap_shift_up K s1 i ?e else min_heap_shift_down K s1 i ?e)
        = Some s2 \<and> heap_rep s2 ys \<and> heap_list K ys \<and> mset ys = mset ?zs \<and>
        heap_frame s1 s2 (set ?zs)"
    proof (cases up)
      case True
      then have "up_defect K ?zs i" using refill_defect(1) [OF hl i'] up by blast
      then show ?thesis using min_heap_shift_up_correct [OF hole] True n len by simp
    next
      case False
      then have le: "0 < i \<longrightarrow> K (?xs ! par i) \<le> K ?e" using up by auto
      have "K (?zs ! par i) \<le> K (?zs ! i)" if "0 < i"
        using le that i' par_less [OF that] by (simp add: nth_refill)
      then show ?thesis
        using min_heap_shift_down_correct [OF hole refill_defect(2) [OF hl i' le]] False n len
        by (simp add: s1)
    qed
    then obtain s2 ys where s2: "(if up then min_heap_shift_up K s1 i ?e
        else min_heap_shift_down K s1 i ?e) = Some s2" "heap_rep s2 ys" "heap_list K ys"
      "mset ys = mset ?zs" "heap_frame s1 s2 (set ?zs)" by blast
    have "length ys = hp_n s1" using s2(4) len n(1) by (metis s1 size_mset
      min_heap.select_convs(2) min_heap.surjective min_heap.update_convs(2))
    then show ?thesis
      using s2 mset_refill [OF i'] set
      by (intro exI [of _ s2] exI [of _ ys]) (auto simp: heap_frame_def)
  qed
qed

lemma min_heap_erase_correct:
  assumes ok: "heap_ok K s" and e: "e \<in> set (helems s)"
  obtains s' where "min_heap_erase K s e = Some (0, s')" and "heap_ok K s'"
    and "mset (helems s') = mset (helems s) - {#e#}" and "hp_idx s' e = UINT_MAX"
    and "\<And>x. x \<notin> set (helems s) \<Longrightarrow> hp_idx s' x = hp_idx s x"
proof -
  let ?xs = "helems s" and ?i = "hp_idx s e" and ?s1 = "s\<lparr>hp_n := hp_n s - 1\<rparr>"
  note slot = heap_ok_slot [OF ok e]
  have n: "hp_n s = length ?xs" "length ?xs < 2 ^ 31" "?xs \<noteq> []"
    using heap_ok_n [OF ok] ok slot(1) by (auto simp: heap_ok_def)
  have dec: "u32 (hp_n s + (2 ^ 32 - 1)) = hp_n s - 1"
    using slot(1) n by (intro u32_dec) auto
  have last: "cell_get (hp_p s) (hp_n s - 1) = Some (last ?xs)"
    using heap_ok_get [OF ok, of "length ?xs - 1"] n by (simp add: last_conv_nth)
  let ?up = "0 < ?i \<and> K (last ?xs) < K (?xs ! par ?i)"
  have up: "(if ?i > 0 then do { q \<leftarrow> cell_get (hp_p s) (parent_of ?i);
      Some (min_heap_elem_greater K q (last ?xs)) } else Some False) = Some ?up"
    using heap_ok_get [OF ok par_le_less [OF slot(1)]] parent_of_par [of ?i] slot(1) n(2)
    by (auto simp: min_heap_elem_greater_def)
  obtain s2 ys where s2: "(if ?up then min_heap_shift_up K ?s1 ?i (last ?xs)
      else min_heap_shift_down K ?s1 ?i (last ?xs)) = Some s2" "heap_rep s2 ys"
    "heap_list K (take (hp_n ?s1) ys)" "hp_n ?s1 \<le> length ys"
    "mset (take (hp_n ?s1) ys) = mset ?xs - {#?xs ! ?i#}" "heap_frame ?s1 s2 (set ?xs)"
    using min_heap_fill_slot [OF ok slot(1) refl refl] by blast
  define s' where "s' = s2\<lparr>hp_idx := (hp_idx s2)(e := UINT_MAX)\<rparr>"
  have "mset (take (hp_n ?s1) ys) = mset (remove1 e ?xs)" using s2(5) slot(2) by simp
  then have "set (take (hp_n ?s1) ys) = set (remove1 e ?xs)" by (rule mset_eq_setD)
  then have "e \<notin> set (take (hp_n ?s1) ys)" using heap_ok_distinct [OF ok] by simp
  then have rep: "heap_rep s' (take (hp_n ?s1) ys)"
    using s2(2,4) by (auto simp: heap_rep_def s'_def in_set_conv_nth)
  have "heap_ok K s'" "helems s' = take (hp_n ?s1) ys"
    using heap_okI [OF rep s2(3)] s2(4,6) ok n by (auto simp: s'_def heap_frame_def heap_ok_def)
  moreover have p: "hp_p ?s1 = hp_p s" by simp
  moreover have "min_heap_erase K s e = Some (0, s')"
    using s2(1) up last slot(1) n(2) unfolding min_heap_erase_def dec Let_def p
    by (simp add: s'_def UINT_MAX_def split del: if_split)
  moreover have "hp_idx s' x = hp_idx s x" if "x \<notin> set ?xs" for x
    using s2(6) e that by (auto simp: s'_def heap_frame_def)
  moreover have "hp_idx s' e = UINT_MAX" by (simp add: s'_def)
  ultimately show thesis using that [of s'] s2(5) slot(2) by simp
qed

lemma min_heap_erase_absent: "hp_idx s e = UINT_MAX \<Longrightarrow> min_heap_erase K s e = Some (-1, s)"
  by (simp add: min_heap_erase_def)

text \<open>Removing the minimum is erasing the event in the first slot.\<close>

lemma min_heap_pop_erase:
  assumes ok: "heap_ok K s" and ne: "helems s \<noteq> []"
  shows "min_heap_pop K s =
    do { (r, s') \<leftarrow> min_heap_erase K s (hd (helems s)); Some (Some (hd (helems s)), s') }"
proof -
  have n: "hp_n s = length (helems s)" "length (helems s) < 2 ^ 31"
    using heap_ok_n [OF ok] ok by (auto simp: heap_ok_def)
  have hd: "hd (helems s) = helems s ! 0" using ne by (simp add: hd_conv_nth)
  then have "hp_idx s (hd (helems s)) = 0"
    using heap_ok_idx [OF ok, of 0] ne by simp
  moreover have "u32 (hp_n s + (2 ^ 32 - 1)) = hp_n s - 1"
    using n ne by (intro u32_dec) auto
  moreover have "cell_get (hp_p s) 0 = Some (hd (helems s))"
    using heap_ok_get [OF ok, of 0] ne hd by simp
  ultimately show ?thesis
    using n ne unfolding min_heap_pop_def min_heap_erase_def
    by (simp add: UINT_MAX_def Option.bind_assoc)
qed

subsection \<open>The interface of the timer queue\<close>

text \<open>
  What the event core relies on: a set of events, each at most once, from which the
  earliest can be read and any can be erased; \<open>ok K\<close> is the invariant for the deadlines \<open>K\<close>.
\<close>

locale timer_queue =
  fixes ok :: "(eid \<Rightarrow> timeval) \<Rightarrow> 'q \<Rightarrow> bool"
    and elems :: "'q \<Rightarrow> eid list"
    and room :: "'q \<Rightarrow> bool"
    and reserved :: "'q \<Rightarrow> bool"
    and reserve :: "(nat \<Rightarrow> bool) \<Rightarrow> 'q \<Rightarrow> int \<times> 'q"
    and top :: "'q \<Rightarrow> eid option option"
    and push :: "(nat \<Rightarrow> bool) \<Rightarrow> (eid \<Rightarrow> timeval) \<Rightarrow> 'q \<Rightarrow> eid \<Rightarrow> (int \<times> 'q) option"
    and erase :: "(eid \<Rightarrow> timeval) \<Rightarrow> 'q \<Rightarrow> eid \<Rightarrow> (int \<times> 'q) option"
  assumes elems_distinct: "ok K q \<Longrightarrow> distinct (elems q)"
    and ok_rekey: "ok K q \<Longrightarrow>
      (\<And>a b. a \<in> set (elems q) \<Longrightarrow> b \<in> set (elems q) \<Longrightarrow> K a \<le> K b \<Longrightarrow> K' a \<le> K' b) \<Longrightarrow> ok K' q"
    and top_None: "ok K q \<Longrightarrow> elems q = [] \<Longrightarrow> top q = Some None"
    and top_least: "ok K q \<Longrightarrow> elems q \<noteq> [] \<Longrightarrow>
      \<exists>e. top q = Some (Some e) \<and> e \<in> set (elems q) \<and> (\<forall>x\<in>set (elems q). K e \<le> K x)"
    and push_elems: "ok K q \<Longrightarrow> e \<notin> set (elems q) \<Longrightarrow> room q \<Longrightarrow>
      \<exists>r q'. push alloc K q e = Some (r, q') \<and> ok K q' \<and>
        (r = 0 \<and> mset (elems q') = add_mset e (mset (elems q)) \<or> r = -1 \<and> q' = q) \<and>
        (reserved q \<or> (\<forall>b. alloc b) \<longrightarrow> r = 0)"
    and erase_elems: "ok K q \<Longrightarrow> e \<in> set (elems q) \<Longrightarrow>
      \<exists>q'. erase K q e = Some (0, q') \<and> ok K q' \<and> mset (elems q') = mset (elems q) - {#e#} \<and>
        room q' \<and> reserved q'"
    and reserve_one: "ok K q \<Longrightarrow> room q \<Longrightarrow> reserve alloc q = (r, q') \<Longrightarrow>
      ok K q' \<and> elems q' = elems q \<and> room q' \<and> (r = 0 \<and> reserved q' \<or> r = -1 \<and> q' = q)"
begin

lemma ok_cong: "ok K q \<Longrightarrow> (\<And>e. e \<in> set (elems q) \<Longrightarrow> K' e = K e) \<Longrightarrow> ok K' q"
  by (erule ok_rekey) simp

lemma top_None_iff: "ok K q \<Longrightarrow> top q = Some None \<longleftrightarrow> elems q = []"
  using top_None top_least by fastforce

lemma top_Some:
  assumes "ok K q" and "top q = Some (Some e)"
  shows "e \<in> set (elems q)" and "x \<in> set (elems q) \<Longrightarrow> K e \<le> K x"
  using assms top_None [of K q] top_least [of K q] by (cases "elems q = []"; auto)+

lemma erase_set:
  assumes "ok K q" and "e \<in> set (elems q)"
  obtains q' where "erase K q e = Some (0, q')" and "ok K q'"
    and "set (elems q') = set (elems q) - {e}" and "length (elems q') < length (elems q)"
    and "room q'" and "reserved q'"
proof -
  obtain q' where q': "erase K q e = Some (0, q')" "ok K q'"
    "mset (elems q') = mset (elems q) - {#e#}" "room q'" "reserved q'"
    using erase_elems [OF assms] by blast
  have m: "mset (elems q') = mset (remove1 e (elems q))" using q'(3) by simp
  have "set (elems q') = set (elems q) - {e}"
    using mset_eq_setD [OF m] elems_distinct [OF assms(1)] by simp
  moreover have "length (elems q') < length (elems q)"
    using mset_eq_length [OF m] length_remove1_Suc [OF assms(2)] by simp
  ultimately show thesis using that q' by blast
qed

lemma push_set:
  assumes "ok K q" and "e \<notin> set (elems q)" and "room q"
  obtains r q' where "push alloc K q e = Some (r, q')" and "ok K q'"
    and "r = 0 \<and> set (elems q') = insert e (set (elems q)) \<or> r = -1 \<and> q' = q"
    and "reserved q \<or> (\<forall>b. alloc b) \<Longrightarrow> r = 0"
proof -
  obtain r q' where q': "push alloc K q e = Some (r, q')" "ok K q'"
    "r = 0 \<and> mset (elems q') = add_mset e (mset (elems q)) \<or> r = -1 \<and> q' = q"
    "reserved q \<or> (\<forall>b. alloc b) \<Longrightarrow> r = 0"
    using push_elems [OF assms, of alloc] by blast
  have "set (elems q') = insert e (set (elems q))"
    if "mset (elems q') = add_mset e (mset (elems q))"
    using mset_eq_setD [of "elems q'" "e # elems q"] that by simp
  then show thesis using that q' by blast
qed

text \<open>Giving a queued event a new deadline: erase it, then push it under the new key.\<close>

lemma reset_deadline:
  assumes "ok K q" and "e \<in> set (elems q)"
  obtains q1 q2 where "erase K q e = Some (0, q1)" and "push alloc (K(e := t)) q1 e = Some (0, q2)"
    and "ok (K(e := t)) q2" and "set (elems q2) = set (elems q)"
proof -
  obtain q1 where q1: "erase K q e = Some (0, q1)" "ok K q1"
    "set (elems q1) = set (elems q) - {e}" "room q1" "reserved q1"
    by (rule erase_set [OF assms])
  have "ok (K(e := t)) q1" using q1(3) by (intro ok_cong [OF q1(2)]) auto
  then obtain r q2 where "push alloc (K(e := t)) q1 e = Some (r, q2)" "ok (K(e := t)) q2"
    "r = 0 \<and> set (elems q2) = insert e (set (elems q1)) \<or> r = -1 \<and> q2 = q1" "r = 0"
    by (rule push_set [where alloc = alloc and e = e]) (use q1 in auto)
  then show thesis using that q1 assms(2) by (auto simp: insert_absorb)
qed

end

definition heap_room :: "min_heap \<Rightarrow> bool" where
  "heap_room s \<longleftrightarrow> hp_n s + 1 < 2 ^ 31"

definition heap_reserved :: "min_heap \<Rightarrow> bool" where
  "heap_reserved s \<longleftrightarrow> hp_n s < hp_a s"

text \<open>\<open>min_heap_reserve(heap, 1 + min_heap_size(heap))\<close>\<close>

definition min_heap_reserve_one :: "(nat \<Rightarrow> bool) \<Rightarrow> min_heap \<Rightarrow> int \<times> min_heap" where
  "min_heap_reserve_one alloc s = min_heap_reserve alloc s (u32 (1 + min_heap_size s))"

lemma min_heap_reserved: "heap_reserved s \<Longrightarrow> heap_room s \<Longrightarrow> min_heap_push alloc K s e = Some (r, s') \<Longrightarrow> r = 0"
  by (auto simp: min_heap_push_def min_heap_reserve_def heap_reserved_def heap_room_def u32_small
      bind_eq_Some_conv)

lemma min_heap_put_a: "min_heap_put s i e = Some s' \<Longrightarrow> hp_a s' = hp_a s \<and> hp_n s' = hp_n s"
  by (auto simp: min_heap_put_def bind_eq_Some_conv)

lemma min_heap_shift_up_a: "min_heap_shift_up K s i e = Some s' \<Longrightarrow> hp_a s' = hp_a s \<and> hp_n s' = hp_n s"
proof (induction K s i e rule: min_heap_shift_up.induct)
  case (1 K s i e)
  have "(if i \<noteq> 0 then
        do { q \<leftarrow> cell_get (hp_p s) (parent_of i);
             if min_heap_elem_greater K q e
             then do { s' \<leftarrow> min_heap_put s i q; min_heap_shift_up K s' (parent_of i) e }
             else min_heap_put s i e }
      else min_heap_put s i e) = Some s'"
    using "1.prems" by (simp only: min_heap_shift_up.simps [of K s i e])
  moreover have "hp_a s' = hp_a s2 \<and> hp_n s' = hp_n s2"
    if "i \<noteq> 0" "cell_get (hp_p s) (parent_of i) = Some q" "min_heap_elem_greater K q e"
      "min_heap_put s i q = Some s2" "min_heap_shift_up K s2 (parent_of i) e = Some s'" for q s2
    using "1.IH" [OF that(1-4)] that(5) by simp
  ultimately show ?case
    by (fastforce simp: bind_eq_Some_conv split: if_splits dest: min_heap_put_a)
qed

lemma min_heap_shift_down_a:
  assumes "min_heap_shift_down K s i e = Some s'"
  shows "hp_a s' = hp_a s \<and> hp_n s' = hp_n s"
proof (rule min_heap_shift_down.raw_induct [of "\<lambda>K s i e s'. hp_a s' = hp_a s \<and> hp_n s' = hp_n s", OF _ assms])
  fix f K s i e s'
  assume "\<And>K s i e s'. f K s i e = Some s' \<Longrightarrow> hp_a s' = hp_a s \<and> hp_n s' = hp_n (s :: min_heap)"
    and "(if min_child_of i \<le> hp_n s
      then do { c \<leftarrow> min_heap_pick_child K s (min_child_of i);
                x \<leftarrow> cell_get (hp_p s) c;
                if \<not> min_heap_elem_greater K e x then min_heap_shift_up K s i e
                else do { s' \<leftarrow> min_heap_put s i x; f K s' c e } }
      else min_heap_shift_up K s i e) = Some s'"
  then show "hp_a s' = hp_a s \<and> hp_n s' = hp_n s"
    by (auto simp: bind_eq_Some_conv split: if_splits dest!: min_heap_put_a min_heap_shift_up_a)
qed

lemma min_heap_erase_a:
  assumes "min_heap_erase K s e = Some (0, s')"
  shows "hp_a s' = hp_a s"
  using assms
  by (auto simp: min_heap_erase_def Let_def bind_eq_Some_conv split: if_splits
      dest!: min_heap_shift_up_a min_heap_shift_down_a)

interpretation heapq: timer_queue heap_ok helems heap_room heap_reserved min_heap_reserve_one
  min_heap_top min_heap_push min_heap_erase
proof
  fix K K' s e and alloc :: "nat \<Rightarrow> bool"
  assume ok: "heap_ok K s"
  show "distinct (helems s)" using ok by (rule heap_ok_distinct)
  show "helems s = [] \<Longrightarrow> min_heap_top s = Some None"
    using min_heap_top_correct [OF ok] by simp
  show "\<exists>e. min_heap_top s = Some (Some e) \<and> e \<in> set (helems s) \<and> (\<forall>x\<in>set (helems s). K e \<le> K x)"
    if "helems s \<noteq> []"
  proof -
    have "min_heap_top s = Some (Some (hd (helems s)))"
      using min_heap_top_correct [OF ok] that by (auto split: list.splits)
    with min_heap_top_min [OF ok] show ?thesis by blast
  qed
  show "e \<notin> set (helems s) \<Longrightarrow> heap_room s \<Longrightarrow>
      \<exists>r q'. min_heap_push alloc K s e = Some (r, q') \<and> heap_ok K q' \<and>
        (r = 0 \<and> mset (helems q') = add_mset e (mset (helems s)) \<or> r = -1 \<and> q' = s) \<and>
        (heap_reserved s \<or> (\<forall>b. alloc b) \<longrightarrow> r = 0)"
    using min_heap_push_correct [OF ok] min_heap_reserved unfolding heap_room_def
    by (metis (full_types))
  show "e \<in> set (helems s) \<Longrightarrow>
      \<exists>q'. min_heap_erase K s e = Some (0, q') \<and> heap_ok K q' \<and>
        mset (helems q') = mset (helems s) - {#e#} \<and> heap_room q' \<and> heap_reserved q'"
  proof (rule min_heap_erase_correct [OF ok])
    fix q' assume e: "e \<in> set (helems s)" and q': "min_heap_erase K s e = Some (0, q')"
      "heap_ok K q'" "mset (helems q') = mset (helems s) - {#e#}"
    have "length (helems q') + 1 = length (helems s)"
      using length_remove1_Suc [OF e] mset_eq_length [of "helems q'" "remove1 e (helems s)"] q'(3)
      by simp
    then have "heap_room q'" and "heap_reserved q'"
      using ok heap_ok_n [OF ok] heap_ok_n [OF q'(2)] min_heap_erase_a [OF q'(1)]
      by (simp_all add: heap_room_def heap_reserved_def heap_ok_def)
    with q' show ?thesis by blast
  qed
  show "heap_ok K q' \<and> helems q' = helems s \<and> heap_room q' \<and>
      (r = 0 \<and> heap_reserved q' \<or> r = -1 \<and> q' = s)"
    if "heap_room s" and res: "min_heap_reserve_one alloc s = (r, q')" for r q'
  proof -
    note c = min_heap_reserve_correct [OF ok res [unfolded min_heap_reserve_one_def]]
    have "heap_reserved q'" if "r = 0"
      using c(1,4) c(5) [OF that] \<open>heap_room s\<close>
      by (simp add: heap_reserved_def heap_room_def heap_ok_def min_heap_size_def u32_small)
    then show ?thesis using c \<open>heap_room s\<close> by (auto simp: heap_room_def)
  qed
  show "heap_ok K' s"
    if "\<And>a b. a \<in> set (helems s) \<Longrightarrow> b \<in> set (helems s) \<Longrightarrow> K a \<le> K b \<Longrightarrow> K' a \<le> K' b"
    using ok that by (rule heap_ok_rekey)
qed

subsection \<open>Filling and emptying a heap\<close>

fun min_heap_push_all ::
  "(nat \<Rightarrow> bool) \<Rightarrow> (eid \<Rightarrow> timeval) \<Rightarrow> min_heap \<Rightarrow> eid list \<Rightarrow> min_heap option" where
  "min_heap_push_all alloc K s [] = Some s"
| "min_heap_push_all alloc K s (e # es) =
     do { (r, s') \<leftarrow> min_heap_push alloc K s e; min_heap_push_all alloc K s' es }"

fun min_heap_drain :: "(eid \<Rightarrow> timeval) \<Rightarrow> nat \<Rightarrow> min_heap \<Rightarrow> (eid list \<times> min_heap) option" where
  "min_heap_drain K 0 s = Some ([], s)"
| "min_heap_drain K (Suc k) s =
     do { (e, s') \<leftarrow> min_heap_pop K s;
          (xs, s'') \<leftarrow> min_heap_drain K k s';
          Some (case e of None \<Rightarrow> xs | Some x \<Rightarrow> x # xs, s'') }"

lemma min_heap_pop_correct:
  assumes ok: "heap_ok K s" and ne: "helems s \<noteq> []"
  obtains s' where "min_heap_pop K s = Some (Some (hd (helems s)), s')" and "heap_ok K s'"
    and "mset (helems s) = add_mset (hd (helems s)) (mset (helems s'))"
    and "hp_idx s' (hd (helems s)) = UINT_MAX"
    and "\<And>x. x \<in> set (helems s) \<Longrightarrow> K (hd (helems s)) \<le> K x"
proof -
  have hd: "hd (helems s) \<in> set (helems s)" using ne by simp
  obtain s' where s': "min_heap_erase K s (hd (helems s)) = Some (0, s')" "heap_ok K s'"
    "mset (helems s') = mset (helems s) - {#hd (helems s)#}" "hp_idx s' (hd (helems s)) = UINT_MAX"
    by (rule min_heap_erase_correct [OF ok hd])
  have top: "min_heap_top s = Some (Some (hd (helems s)))"
    using min_heap_top_correct [OF ok] ne by (simp split: list.split)
  show thesis
    using that [of s'] s' min_heap_pop_erase [OF ok ne] heapq.top_Some(2) [OF ok top] hd
    by simp
qed

lemma min_heap_drain_correct:
  assumes "heap_ok K s" and "k = length (helems s)"
  shows "\<exists>xs s'. min_heap_drain K k s = Some (xs, s') \<and> mset xs = mset (helems s) \<and>
    sorted (map K xs) \<and> heap_ok K s' \<and> helems s' = []"
  using assms
proof (induction k arbitrary: s)
  case 0
  then show ?case by simp
next
  case (Suc k)
  then have ne: "helems s \<noteq> []" by auto
  let ?e = "hd (helems s)"
  obtain s1 where s1: "min_heap_pop K s = Some (Some ?e, s1)" "heap_ok K s1"
    "mset (helems s) = add_mset ?e (mset (helems s1))"
    "\<And>x. x \<in> set (helems s) \<Longrightarrow> K ?e \<le> K x"
    by (rule min_heap_pop_correct [OF Suc.prems(1) ne]) blast
  have "k = length (helems s1)" using Suc.prems(2) mset_eq_length [of "helems s" "?e # helems s1"] s1(3) by simp
  then obtain xs s' where xs: "min_heap_drain K k s1 = Some (xs, s')" "mset xs = mset (helems s1)"
    "sorted (map K xs)" "heap_ok K s'" "helems s' = []"
    using Suc.IH [OF s1(2)] by blast
  have "set xs \<subseteq> set (helems s)"
    using mset_eq_setD [OF xs(2)] mset_eq_setD [of "helems s" "?e # helems s1"] s1(3) by auto
  then have "\<forall>x\<in>set xs. K ?e \<le> K x" using s1(4) by blast
  then show ?case using s1(1,3) xs by simp
qed

lemma min_heap_push_all_correct:
  assumes "heap_ok K s" and "distinct es" and "set es \<inter> set (helems s) = {}"
    and "length es + hp_n s < 2 ^ 31" and alloc: "\<forall>b. alloc b"
  shows "\<exists>s'. min_heap_push_all alloc K s es = Some s' \<and> heap_ok K s' \<and>
    mset (helems s') = mset es + mset (helems s)"
  using assms(1-4)
proof (induction es arbitrary: s)
  case Nil
  then show ?case by simp
next
  case (Cons e es)
  have "\<exists>r s1. min_heap_push alloc K s e = Some (r, s1) \<and> heap_ok K s1 \<and>
      mset (helems s1) = add_mset e (mset (helems s))"
    using heapq.push_elems [OF Cons.prems(1), of e alloc] Cons.prems(3,4) alloc
    by (fastforce simp: heap_room_def)
  then obtain r s1 where s1: "min_heap_push alloc K s e = Some (r, s1)" "heap_ok K s1"
    "mset (helems s1) = add_mset e (mset (helems s))" by blast
  have set1: "set (helems s1) = insert e (set (helems s))"
    using mset_eq_setD [of "helems s1" "e # helems s"] s1(3) by simp
  have n1: "hp_n s1 = hp_n s + 1"
    using mset_eq_length [of "helems s1" "e # helems s"] s1(3) heap_ok_n [OF s1(2)]
      heap_ok_n [OF Cons.prems(1)] by simp
  have "set es \<inter> set (helems s1) = {}" using Cons.prems(2,3) set1 by auto
  then obtain s' where "min_heap_push_all alloc K s1 es = Some s'" "heap_ok K s'"
    "mset (helems s') = mset es + mset (helems s1)"
    using Cons.IH [OF s1(2)] Cons.prems(2,4) n1 by auto
  then show ?case using s1 by simp
qed

lemma heap_ok_ctor: "heap_ok K (min_heap_ctor s)"
  by (simp add: heap_ok_def min_heap_ctor_def heap_rep_def heap_list_def helems_def)

subsection \<open>Properties\<close>

text \<open>
  C21. \<open>min_heap_push\<close> of an event that is not queued never reads or writes outside the array;
  it keeps the heap order and the slot index of every event, and it either adds exactly the event
  (return value 0) or, when \<open>realloc\<close> fails, returns -1 and leaves the heap as it was.
\<close>

theorem min_heap_push_ok:
  assumes "heap_ok K s" and "e \<notin> set (helems s)" and "hp_n s + 1 < 2 ^ 31"
  shows "\<exists>r s'. min_heap_push alloc K s e = Some (r, s') \<and> heap_ok K s' \<and>
    (r = 0 \<and> mset (helems s') = add_mset e (mset (helems s)) \<or> r = -1 \<and> s' = s)"
  by (rule min_heap_push_correct [OF assms, of alloc]) blast

definition demo_heap :: min_heap where
  "demo_heap = \<lparr>hp_p = [Some 5, Some 7, None], hp_n = 2, hp_a = 3,
     hp_idx = (\<lambda>_. UINT_MAX)(5 := 0, 7 := 1)\<rparr>"

lemma demo_heap_elems: "helems demo_heap = [5, 7]"
  by (simp add: demo_heap_def helems_def)

lemma demo_heap_ok: "heap_ok (\<lambda>e. Timeval (int e) 0) demo_heap"
  using demo_heap_elems
  by (simp add: heap_ok_def heap_rep_def heap_list_def demo_heap_def All_less_Suc par_def
      less_eq_timeval_def timercmp_def)

theorem min_heap_push_ok_witness:
  "\<exists>r s'. min_heap_push (\<lambda>_. True) (\<lambda>e. Timeval (int e) 0) demo_heap 3 = Some (r, s') \<and>
     heap_ok (\<lambda>e. Timeval (int e) 0) s' \<and>
     (r = 0 \<and> mset (helems s') = {#3, 5, 7#} \<or> r = -1 \<and> s' = demo_heap)"
  using min_heap_push_ok [OF demo_heap_ok, of 3 "\<lambda>_. True"]
  by (simp add: demo_heap_elems) (simp add: demo_heap_def)

text \<open>
  C22. \<open>min_heap_erase\<close> removes exactly the given queued event from wherever it sits, restores the
  heap order in whichever direction is needed, keeps every other event's slot index right, and marks
  the event as not queued.
\<close>

theorem min_heap_erase_ok:
  assumes "heap_ok K s" and "e \<in> set (helems s)"
  shows "\<exists>s'. min_heap_erase K s e = Some (0, s') \<and> heap_ok K s' \<and>
    mset (helems s') = mset (helems s) - {#e#} \<and> hp_idx s' e = UINT_MAX"
  by (rule min_heap_erase_correct [OF assms]) blast

theorem min_heap_erase_ok_witness:
  "\<exists>s'. min_heap_erase (\<lambda>e. Timeval (int e) 0) demo_heap 5 = Some (0, s') \<and>
     heap_ok (\<lambda>e. Timeval (int e) 0) s' \<and> mset (helems s') = {#7#} \<and> hp_idx s' 5 = UINT_MAX"
  using min_heap_erase_ok [OF demo_heap_ok, of 5] by (simp add: demo_heap_elems)

text \<open>
  \<open>min_heap_pop\<close> of a non-empty heap returns an event that is due no later than any other
  and removes exactly that one.
\<close>

theorem min_heap_pop_ok:
  assumes "heap_ok K s" and "helems s \<noteq> []"
  shows "\<exists>e s'. min_heap_pop K s = Some (Some e, s') \<and> heap_ok K s' \<and>
    mset (helems s) = add_mset e (mset (helems s')) \<and> (\<forall>x\<in>set (helems s). K e \<le> K x)"
  by (rule min_heap_pop_correct [OF assms]) blast

theorem min_heap_pop_ok_witness:
  "\<exists>e s'. min_heap_pop (\<lambda>e. Timeval (int e) 0) demo_heap = Some (Some e, s') \<and>
     heap_ok (\<lambda>e. Timeval (int e) 0) s' \<and> {#5, 7#} = add_mset e (mset (helems s'))"
  using min_heap_pop_ok [OF demo_heap_ok] by (auto simp: demo_heap_elems)

text \<open>
  C23. Pushing any distinct events on a constructed heap and popping as many returns
  exactly these events, in the order of their deadlines, and leaves the heap empty.
\<close>

theorem min_heap_sorts:
  assumes "distinct es" and "length es < 2 ^ 31" and "\<forall>b. alloc b"
  shows "\<exists>s xs s'. min_heap_push_all alloc K (min_heap_ctor s0) es = Some s \<and>
    min_heap_drain K (length es) s = Some (xs, s') \<and>
    mset xs = mset es \<and> sorted (map K xs) \<and> helems s' = []"
proof -
  have empty: "helems (min_heap_ctor s0) = []" "hp_n (min_heap_ctor s0) = 0"
    by (simp_all add: helems_def min_heap_ctor_def)
  then obtain s where s: "min_heap_push_all alloc K (min_heap_ctor s0) es = Some s" "heap_ok K s"
    "mset (helems s) = mset es"
    using min_heap_push_all_correct [OF heap_ok_ctor, of es s0 alloc K] assms by auto
  have "length es = length (helems s)" using s(3) by (metis mset_eq_length)
  from min_heap_drain_correct [OF s(2) this] show ?thesis using s(1,3) by auto
qed

theorem min_heap_sorts_witness:
  "\<exists>s xs s'. min_heap_push_all (\<lambda>_. True) (\<lambda>e. Timeval (int e) 0) (min_heap_ctor demo_heap) [4, 2, 9]
      = Some s \<and> min_heap_drain (\<lambda>e. Timeval (int e) 0) 3 s = Some (xs, s') \<and> mset xs = {#4, 2, 9#} \<and>
     sorted (map (\<lambda>e. Timeval (int e) 0) xs) \<and> helems s' = []"
  using min_heap_sorts [of "[4, 2, 9]" "\<lambda>_. True" "\<lambda>e. Timeval (int e) 0" demo_heap]
  by (simp add: numeral_3_eq_3)

end
