(* ===== verification/Tailq.thy ===== *)
theory Tailq
  imports Prelude
begin

text \<open>
  The intrusive doubly linked tail queues in which \<open>event.cpp\<close> and \<open>signal.cpp\<close> keep events
  (\<open>ev_next\<close>, \<open>ev_active_next\<close> and \<open>ev_signal_next\<close> of \<open>struct event\<close>, and \<open>struct event_list\<close>),
  at the level of their pointers. Each \<open>tqe_prev\<close> and \<open>tqh_last\<close> points to a field that holds
  a pointer: the \<open>tqh_first\<close> of a list head or the \<open>tqe_next\<close> of an event; such an address is
  a \<open>slot\<close>. One \<open>tailqs\<close> is a family of queues, indexed by \<open>'q\<close>, that share one pair of link fields.

  The last part states what the event core uses of them as a locale about lists, and
  interprets it on the pointer operations.
\<close>

subsection \<open>Data and operations\<close>

datatype 'q slot = Head 'q | Field eid

record 'q tailqs =
  tqh_first :: "'q \<Rightarrow> eid option"
  tqh_last :: "'q \<Rightarrow> 'q slot"
  tqe_next :: "eid \<Rightarrow> eid option"
  tqe_prev :: "eid \<Rightarrow> 'q slot"

text \<open>\<open>*p = v\<close>\<close>

definition slot_write :: "'q slot \<Rightarrow> eid option \<Rightarrow> 'q tailqs \<Rightarrow> 'q tailqs" where
  "slot_write p v t =
     (case p of Head q \<Rightarrow> t\<lparr>tqh_first := (tqh_first t)(q := v)\<rparr>
      | Field e \<Rightarrow> t\<lparr>tqe_next := (tqe_next t)(e := v)\<rparr>)"

definition tailq_init :: "'q \<Rightarrow> 'q tailqs \<Rightarrow> 'q tailqs" where
  "tailq_init q t = t\<lparr>tqh_first := (tqh_first t)(q := None), tqh_last := (tqh_last t)(q := Head q)\<rparr>"

definition tailq_insert_tail :: "'q \<Rightarrow> eid \<Rightarrow> 'q tailqs \<Rightarrow> 'q tailqs" where
  "tailq_insert_tail q e t =
     (let t1 = t\<lparr>tqe_next := (tqe_next t)(e := None)\<rparr>;
          t2 = t1\<lparr>tqe_prev := (tqe_prev t1)(e := tqh_last t1 q)\<rparr>;
          t3 = slot_write (tqh_last t2 q) (Some e) t2
      in t3\<lparr>tqh_last := (tqh_last t3)(q := Field e)\<rparr>)"

definition tailq_remove :: "'q \<Rightarrow> eid \<Rightarrow> 'q tailqs \<Rightarrow> 'q tailqs" where
  "tailq_remove q e t =
     (let t1 = (case tqe_next t e of
                  Some n \<Rightarrow> t\<lparr>tqe_prev := (tqe_prev t)(n := tqe_prev t e)\<rparr>
                | None \<Rightarrow> t\<lparr>tqh_last := (tqh_last t)(q := tqe_prev t e)\<rparr>)
      in slot_write (tqe_prev t1 e) (tqe_next t1 e) t1)"

subsection \<open>The list a queue represents\<close>

partial_function (option) walk :: "(eid \<Rightarrow> eid option) \<Rightarrow> eid option \<Rightarrow> eid list option" where
  "walk nxt p = (case p of None \<Rightarrow> Some [] | Some e \<Rightarrow> do { xs \<leftarrow> walk nxt (nxt e); Some (e # xs) })"

definition tq_list :: "'q tailqs \<Rightarrow> 'q \<Rightarrow> eid list" where
  "tq_list t q = (case walk (tqe_next t) (tqh_first t q) of Some xs \<Rightarrow> xs | None \<Rightarrow> [])"

text \<open>
  \<open>seg t p c xs l d\<close>: the slot \<open>p\<close> holds \<open>c\<close>; from there the events \<open>xs\<close> follow, each pointing
  back to the slot that leads to it, up to the slot \<open>l\<close>, which holds \<open>d\<close>.
\<close>

fun seg :: "'q tailqs \<Rightarrow> 'q slot \<Rightarrow> eid option \<Rightarrow> eid list \<Rightarrow> 'q slot \<Rightarrow> eid option \<Rightarrow> bool" where
  "seg t p c [] l d \<longleftrightarrow> p = l \<and> c = d"
| "seg t p c (x # xs) l d \<longleftrightarrow>
     c = Some x \<and> tqe_prev t x = p \<and> seg t (Field x) (tqe_next t x) xs l d"

definition tq_rep :: "'q tailqs \<Rightarrow> 'q \<Rightarrow> eid list \<Rightarrow> bool" where
  "tq_rep t q xs \<longleftrightarrow> distinct xs \<and> seg t (Head q) (tqh_first t q) xs (tqh_last t q) None"

definition tailqs_ok :: "'q tailqs \<Rightarrow> bool" where
  "tailqs_ok t \<longleftrightarrow> (\<forall>q. tq_rep t q (tq_list t q)) \<and>
     (\<forall>q q'. q \<noteq> q' \<longrightarrow> set (tq_list t q) \<inter> set (tq_list t q') = {})"

lemma seg_append:
  "seg t p c (xs @ ys) l d \<longleftrightarrow> (\<exists>m e. seg t p c xs m e \<and> seg t m e ys l d)"
  by (induction xs arbitrary: p c) auto

lemma seg_frame:
  assumes "\<And>x. x \<in> set xs \<Longrightarrow> tqe_next t' x = tqe_next t x \<and> tqe_prev t' x = tqe_prev t x"
  shows "seg t' p c xs l d = seg t p c xs l d"
  using assms by (induction xs arbitrary: p c) auto

lemma seg_walk: "seg t p c xs l None \<Longrightarrow> walk (tqe_next t) c = Some xs"
  by (induction xs arbitrary: p c) (simp_all add: walk.simps [of _ None] walk.simps [of _ "Some _"])

lemma seg_last: "seg t p c xs l d \<Longrightarrow> l = (if xs = [] then p else Field (last xs))"
  by (induction xs arbitrary: p c) auto

lemma tq_list_rep: "tq_rep t q xs \<Longrightarrow> tq_list t q = xs"
  using seg_walk [of t "Head q" "tqh_first t q" xs "tqh_last t q"] by (simp add: tq_rep_def tq_list_def)

lemma tailqs_okI:
  assumes "\<And>q. tq_rep t q (f q)" and "\<And>q q'. q \<noteq> q' \<Longrightarrow> set (f q) \<inter> set (f q') = {}"
  shows "tailqs_ok t" and "tq_list t = f"
proof -
  show eq: "tq_list t = f" using tq_list_rep [OF assms(1)] by auto
  show "tailqs_ok t" unfolding tailqs_ok_def eq using assms by blast
qed

text \<open>Overwriting the slot at the end of a segment, which no other event of it reads.\<close>

lemma seg_write_end:
  assumes "seg t (Head q) (tqh_first t q) xs m c" and "distinct xs"
  shows "seg (slot_write m v t) (Head q) (tqh_first (slot_write m v t) q) xs m v"
proof (cases xs rule: rev_cases)
  case Nil
  then show ?thesis using assms by (auto simp: slot_write_def)
next
  case (snoc ys y)
  with assms(1) obtain n where n: "seg t (Head q) (tqh_first t q) ys n (Some y)"
    "tqe_prev t y = n" "m = Field y" by (auto simp: seg_append)
  let ?t = "slot_write m v t"
  have "seg ?t (Head q) (tqh_first ?t q) ys n (Some y) = seg t (Head q) (tqh_first t q) ys n (Some y)"
    using snoc assms(2) n(3)
    by (simp add: slot_write_def) (rule seg_frame, auto)
  then show ?thesis using n snoc by (auto simp: seg_append slot_write_def)
qed

lemma slot_write_prev [simp]: "tqe_prev (slot_write m v t) = tqe_prev t"
  and slot_write_last [simp]: "tqh_last (slot_write m v t) = tqh_last t"
  by (simp_all add: slot_write_def split: slot.split)

lemma slot_write_next: "m \<noteq> Field x \<Longrightarrow> tqe_next (slot_write m v t) x = tqe_next t x"
  by (auto simp: slot_write_def split: slot.split)

lemma slot_write_first: "m \<noteq> Head r \<Longrightarrow> tqh_first (slot_write m v t) r = tqh_first t r"
  by (auto simp: slot_write_def split: slot.split)

lemma seg_end_not_field: "seg t (Head q) c xs l d \<Longrightarrow> x \<notin> set xs \<Longrightarrow> l \<noteq> Field x"
  by (auto dest!: seg_last split: if_splits)

lemma seg_end_not_head: "seg t (Head q) c xs l d \<Longrightarrow> r \<noteq> q \<Longrightarrow> l \<noteq> Head r"
  by (auto dest!: seg_last split: if_splits)

text \<open>A queue none of whose events or head fields changed.\<close>

lemma tq_rep_frame:
  assumes "tq_rep t q xs"
    and "\<And>x. x \<in> set xs \<Longrightarrow> tqe_next t' x = tqe_next t x \<and> tqe_prev t' x = tqe_prev t x"
    and "tqh_first t' q = tqh_first t q" and "tqh_last t' q = tqh_last t q"
  shows "tq_rep t' q xs"
  using assms seg_frame [of xs t' t] by (simp add: tq_rep_def)

subsection \<open>The operations on lists\<close>

lemma tailq_insert_tail_rep:
  assumes "tq_rep t q xs" and "e \<notin> set xs"
  shows "tq_rep (tailq_insert_tail q e t) q (xs @ [e])"
proof -
  let ?l = "tqh_last t q"
  define t2 where "t2 = t\<lparr>tqe_next := (tqe_next t)(e := None), tqe_prev := (tqe_prev t)(e := ?l)\<rparr>"
  define t3 where "t3 = slot_write ?l (Some e) t2"
  have ins: "tailq_insert_tail q e t = t3\<lparr>tqh_last := (tqh_last t3)(q := Field e)\<rparr>"
    by (simp add: tailq_insert_tail_def Let_def t3_def t2_def)
  have sg: "seg t (Head q) (tqh_first t q) xs ?l None" and d: "distinct xs"
    using assms(1) by (simp_all add: tq_rep_def)
  have "seg t2 (Head q) (tqh_first t q) xs ?l None = seg t (Head q) (tqh_first t q) xs ?l None"
    using assms(2) by (intro seg_frame) (auto simp: t2_def)
  then have "seg t3 (Head q) (tqh_first t3 q) xs ?l (Some e)"
    using sg d unfolding t3_def by (intro seg_write_end) (simp_all add: t2_def)
  moreover have "seg (tailq_insert_tail q e t) (Head q) (tqh_first t3 q) xs ?l (Some e)
      = seg t3 (Head q) (tqh_first t3 q) xs ?l (Some e)"
    by (intro seg_frame) (simp add: ins)
  moreover have "tqe_prev t3 e = ?l" by (simp add: t3_def t2_def)
  moreover have "tqe_next t3 e = None"
    using seg_end_not_field [OF sg assms(2)] by (simp add: t3_def t2_def slot_write_next)
  ultimately show ?thesis
    using d assms(2) by (simp add: tq_rep_def seg_append ins)
qed

lemma tailq_insert_tail_other:
  assumes "tq_rep t q xs" and "tq_rep t r ys" and "r \<noteq> q" and "set xs \<inter> set ys = {}" and "e \<notin> set ys"
  shows "tq_rep (tailq_insert_tail q e t) r ys"
proof (rule tq_rep_frame [OF assms(2)])
  have sg: "seg t (Head q) (tqh_first t q) xs (tqh_last t q) None"
    using assms(1) by (simp add: tq_rep_def)
  show "tqe_next (tailq_insert_tail q e t) x = tqe_next t x \<and>
      tqe_prev (tailq_insert_tail q e t) x = tqe_prev t x" if "x \<in> set ys" for x
  proof -
    have "x \<notin> set xs" using assms(4) that by blast
    then show ?thesis using seg_end_not_field [OF sg, of x] assms(5) that
      by (auto simp: tailq_insert_tail_def Let_def slot_write_next)
  qed
  show "tqh_first (tailq_insert_tail q e t) r = tqh_first t r"
    using seg_end_not_head [OF sg assms(3)] by (simp add: tailq_insert_tail_def Let_def slot_write_first)
  show "tqh_last (tailq_insert_tail q e t) r = tqh_last t r"
    using assms(3) by (simp add: tailq_insert_tail_def Let_def)
qed

text \<open>The pointer that follows the removed event is made to point back past it.\<close>

definition unlink_back :: "'q \<Rightarrow> eid \<Rightarrow> 'q tailqs \<Rightarrow> 'q tailqs" where
  "unlink_back q e t =
     (case tqe_next t e of
        Some n \<Rightarrow> t\<lparr>tqe_prev := (tqe_prev t)(n := tqe_prev t e)\<rparr>
      | None \<Rightarrow> t\<lparr>tqh_last := (tqh_last t)(q := tqe_prev t e)\<rparr>)"

lemma unlink_back_same [simp]:
  "tqe_next (unlink_back q e t) = tqe_next t" "tqh_first (unlink_back q e t) = tqh_first t"
  by (simp_all add: unlink_back_def split: option.split)

lemma tailq_remove_unlink: "tqe_next t e \<noteq> Some e \<Longrightarrow>
    tailq_remove q e t = slot_write (tqe_prev t e) (tqe_next t e) (unlink_back q e t)"
  by (auto simp: tailq_remove_def Let_def unlink_back_def split: option.split)

lemma tq_rep_split:
  assumes "tq_rep t q (as @ e # bs)"
  obtains m where "seg t (Head q) (tqh_first t q) as m (Some e)" and "tqe_prev t e = m"
    and "seg t (Field e) (tqe_next t e) bs (tqh_last t q) None" and "distinct (as @ e # bs)"
    and "tqe_next t e = (case bs of [] \<Rightarrow> None | b # _ \<Rightarrow> Some b)" and "tqe_next t e \<noteq> Some e"
  using assms by (cases bs) (auto simp: tq_rep_def seg_append)

lemma tailq_remove_rep:
  assumes "tq_rep t q (as @ e # bs)"
  shows "tq_rep (tailq_remove q e t) q (as @ bs)"
proof -
  obtain m where as: "seg t (Head q) (tqh_first t q) as m (Some e)" and prev: "tqe_prev t e = m"
    and bs: "seg t (Field e) (tqe_next t e) bs (tqh_last t q) None" and d: "distinct (as @ e # bs)"
    and nxt: "tqe_next t e = (case bs of [] \<Rightarrow> None | b # _ \<Rightarrow> Some b)" "tqe_next t e \<noteq> Some e"
    by (rule tq_rep_split [OF assms])
  define t1 where "t1 = unlink_back q e t"
  define t2 where "t2 = tailq_remove q e t"
  have t2: "t2 = slot_write m (tqe_next t e) t1"
    using nxt(2) by (simp add: t2_def t1_def tailq_remove_unlink prev)
  have "seg t1 (Head q) (tqh_first t1 q) as m (Some e) = seg t (Head q) (tqh_first t q) as m (Some e)"
    unfolding t1_def unlink_back_same
    using nxt(1) d by (intro seg_frame) (auto simp: unlink_back_def split: list.splits)
  then have s1: "seg t2 (Head q) (tqh_first t2 q) as m (tqe_next t e)"
    using as d unfolding t2 by (intro seg_write_end) auto
  have "seg t1 m (tqe_next t e) bs (tqh_last t1 q) None"
  proof (cases bs)
    case Nil
    then show ?thesis using bs prev by (auto simp: t1_def unlink_back_def)
  next
    case (Cons b bs')
    have "seg t1 (Field b) (tqe_next t b) bs' (tqh_last t q) None
        = seg t (Field b) (tqe_next t b) bs' (tqh_last t q) None"
      using Cons d nxt(1) by (intro seg_frame) (auto simp: t1_def unlink_back_def)
    then show ?thesis using Cons bs prev nxt(1) by (simp add: t1_def unlink_back_def)
  qed
  moreover have "seg t2 m (tqe_next t e) bs (tqh_last t1 q) None
      = seg t1 m (tqe_next t e) bs (tqh_last t1 q) None"
    using seg_end_not_field [OF as] d
    by (intro seg_frame) (auto simp: t2 intro!: slot_write_next)
  ultimately have "seg t2 m (tqe_next t e) bs (tqh_last t2 q) None" by (simp add: t2)
  with s1 d show ?thesis by (auto simp: tq_rep_def seg_append simp flip: t2_def)
qed

lemma tailq_remove_other:
  assumes "tq_rep t q (as @ e # bs)" and "tq_rep t r ys" and "r \<noteq> q"
    and disj: "set (as @ e # bs) \<inter> set ys = {}"
  shows "tq_rep (tailq_remove q e t) r ys"
proof (rule tq_rep_frame [OF assms(2)])
  obtain m where as: "seg t (Head q) (tqh_first t q) as m (Some e)" and prev: "tqe_prev t e = m"
    and nxt: "tqe_next t e = (case bs of [] \<Rightarrow> None | b # _ \<Rightarrow> Some b)" "tqe_next t e \<noteq> Some e"
    by (rule tq_rep_split [OF assms(1)])
  note rem = tailq_remove_unlink [OF nxt(2), of q, unfolded prev]
  show "tqe_next (tailq_remove q e t) x = tqe_next t x \<and>
      tqe_prev (tailq_remove q e t) x = tqe_prev t x" if "x \<in> set ys" for x
  proof -
    have "x \<notin> set as" using disj that by auto
    then show ?thesis using seg_end_not_field [OF as, of x] disj that nxt(1)
      by (auto simp: rem slot_write_next unlink_back_def split: list.splits)
  qed
  show "tqh_first (tailq_remove q e t) r = tqh_first t r"
    using seg_end_not_head [OF as assms(3)] by (simp add: rem slot_write_first)
  show "tqh_last (tailq_remove q e t) r = tqh_last t r"
    using assms(3) by (simp add: rem unlink_back_def split: option.split)
qed

subsection \<open>The interface of the tail queues\<close>

text \<open>
  What the event core relies on: a family of lists, no event twice in one list or in two,
  and the two updates and two reads as list operations.
\<close>

locale tail_queue =
  fixes ok :: "'t \<Rightarrow> bool"
    and lists :: "'t \<Rightarrow> 'q \<Rightarrow> eid list"
    and first :: "'t \<Rightarrow> 'q \<Rightarrow> eid option"
    and nxt :: "'t \<Rightarrow> eid \<Rightarrow> eid option"
    and insert_tail :: "'q \<Rightarrow> eid \<Rightarrow> 't \<Rightarrow> 't"
    and remove :: "'q \<Rightarrow> eid \<Rightarrow> 't \<Rightarrow> 't"
  assumes lists_distinct: "ok t \<Longrightarrow> distinct (lists t q)"
    and lists_disjoint: "ok t \<Longrightarrow> q \<noteq> q' \<Longrightarrow> set (lists t q) \<inter> set (lists t q') = {}"
    and first_lists: "ok t \<Longrightarrow> first t q = (case lists t q of [] \<Rightarrow> None | e # _ \<Rightarrow> Some e)"
    and nxt_lists: "ok t \<Longrightarrow> lists t q = as @ e # bs \<Longrightarrow>
      nxt t e = (case bs of [] \<Rightarrow> None | b # _ \<Rightarrow> Some b)"
    and insert_tail: "ok t \<Longrightarrow> (\<And>q. e \<notin> set (lists t q)) \<Longrightarrow>
      ok (insert_tail q e t) \<and> lists (insert_tail q e t) = (lists t)(q := lists t q @ [e])"
    and remove: "ok t \<Longrightarrow> lists t q = as @ e # bs \<Longrightarrow>
      ok (remove q e t) \<and> lists (remove q e t) = (lists t)(q := as @ bs)"
begin

definition queued :: "'t \<Rightarrow> eid \<Rightarrow> bool" where
  "queued t e \<longleftrightarrow> (\<exists>q. e \<in> set (lists t q))"

lemma queued_unique: "ok t \<Longrightarrow> e \<in> set (lists t q) \<Longrightarrow> e \<in> set (lists t q') \<Longrightarrow> q = q'"
  using lists_disjoint [of t q q'] by auto

lemma remove_lists:
  assumes "ok t" and "e \<in> set (lists t q)"
  shows "ok (remove q e t)" and "lists (remove q e t) = (lists t)(q := remove1 e (lists t q))"
proof -
  obtain as bs where l: "lists t q = as @ e # bs" using split_list [OF assms(2)] by blast
  then have "e \<notin> set as" using lists_distinct [OF assms(1), of q] by auto
  then show "ok (remove q e t)" "lists (remove q e t) = (lists t)(q := remove1 e (lists t q))"
    using remove [OF assms(1) l] l by (simp_all add: remove1_append)
qed

lemma insert_tail_set:
  assumes "ok t" and "\<not> queued t e"
  shows "set (lists (insert_tail q e t) r) = (if r = q then insert e (set (lists t q)) else set (lists t r))"
  using insert_tail [OF assms(1), of e q] assms(2) by (simp add: queued_def)

lemma remove_set:
  assumes "ok t" and "e \<in> set (lists t q)"
  shows "set (lists (remove q e t) r) = (if r = q then set (lists t q) - {e} else set (lists t r))"
  using remove_lists [OF assms] lists_distinct [OF assms(1)] by simp

lemma queued_insert_tail:
  "ok t \<Longrightarrow> \<not> queued t e \<Longrightarrow> queued (insert_tail q e t) x \<longleftrightarrow> x = e \<or> queued t x"
  by (auto simp: queued_def insert_tail_set split: if_splits)

lemma queued_remove:
  "ok t \<Longrightarrow> e \<in> set (lists t q) \<Longrightarrow> queued (remove q e t) x \<longleftrightarrow> x \<noteq> e \<and> queued t x"
  by (auto simp: queued_def remove_set queued_unique split: if_splits)

text \<open>Taking an event off again undoes putting it on.\<close>

lemma remove_insert_tail:
  assumes "ok t" and "\<not> queued t e"
  shows "lists (remove q e (insert_tail q e t)) = lists t"
proof -
  have i: "ok (insert_tail q e t)" "lists (insert_tail q e t) = (lists t)(q := lists t q @ [e])"
    using insert_tail [OF assms(1)] assms(2) by (auto simp: queued_def)
  have "e \<notin> set (lists t q)" using assms(2) by (auto simp: queued_def)
  then show ?thesis
    using remove_lists(2) [OF i(1), of e q] i(2) by (simp add: remove1_append)
qed

end

interpretation tq: tail_queue tailqs_ok tq_list tqh_first tqe_next tailq_insert_tail tailq_remove
proof
  fix t :: "'q tailqs" and q q' :: 'q and e as bs
  assume ok: "tailqs_ok t"
  have rep: "tq_rep t r (tq_list t r)" for r using ok by (simp add: tailqs_ok_def)
  have disj: "r \<noteq> r' \<Longrightarrow> set (tq_list t r) \<inter> set (tq_list t r') = {}" for r r'
    using ok by (simp add: tailqs_ok_def)
  have uniq: "x \<in> set (tq_list t r) \<Longrightarrow> x \<in> set (tq_list t r') \<Longrightarrow> r = r'" for x r r'
    using disj [of r r'] by blast
  show "distinct (tq_list t q)" using rep by (simp add: tq_rep_def)
  show "q \<noteq> q' \<Longrightarrow> set (tq_list t q) \<inter> set (tq_list t q') = {}" by (rule disj)
  show "tqh_first t q = (case tq_list t q of [] \<Rightarrow> None | e # _ \<Rightarrow> Some e)"
    using rep [of q] by (cases "tq_list t q") (auto simp: tq_rep_def)
  show "tqe_next t e = (case bs of [] \<Rightarrow> None | b # _ \<Rightarrow> Some b)" if "tq_list t q = as @ e # bs"
    using rep [of q] that by (auto elim: tq_rep_split)
  show "tailqs_ok (tailq_insert_tail q e t) \<and>
      tq_list (tailq_insert_tail q e t) = (tq_list t)(q := tq_list t q @ [e])"
    if fresh: "\<And>q. e \<notin> set (tq_list t q)"
  proof -
    have "tq_rep (tailq_insert_tail q e t) r (((tq_list t)(q := tq_list t q @ [e])) r)" for r
      using tailq_insert_tail_rep [OF rep fresh] tailq_insert_tail_other [OF rep rep] disj fresh
      by simp
    then show ?thesis using fresh by (intro conjI tailqs_okI) (auto dest: uniq split: if_splits)
  qed
  show "tailqs_ok (tailq_remove q e t) \<and> tq_list (tailq_remove q e t) = (tq_list t)(q := as @ bs)"
    if l: "tq_list t q = as @ e # bs"
  proof -
    have "tq_rep (tailq_remove q e t) r (((tq_list t)(q := as @ bs)) r)" for r
    proof (cases "r = q")
      case False
      then show ?thesis
        using tailq_remove_other [of t q as e bs r] rep [of q] rep [of r] disj [of q r] l by simp
    qed (use tailq_remove_rep [of t q as e bs] rep [of q] l in simp)
    moreover have "set (((tq_list t)(q := as @ bs)) r) \<subseteq> set (tq_list t r)" for r
      using l by auto
    ultimately show ?thesis using disj by (intro conjI tailqs_okI) blast+
  qed
qed

lemma tq_list_init: "tqh_first t q = None \<Longrightarrow> tq_list t q = []"
  by (simp add: tq_list_def walk.simps)

lemma tailqs_ok_init:
  assumes "\<And>q. tqh_first t q = None" and "\<And>q. tqh_last t q = Head q"
  shows "tailqs_ok t" and "tq_list t q = []"
  using assms by (simp_all add: tailqs_ok_def tq_rep_def tq_list_init)

subsection \<open>Properties\<close>

text \<open>
  C24. Linking an event that is on no queue of the family in at the tail appends it to the list of
  that queue, leaves every other queue as it was, and keeps all back pointers right.
\<close>

theorem tailq_insert_tail_refines:
  assumes "tailqs_ok t" and "\<forall>q. e \<notin> set (tq_list t q)"
  shows "tailqs_ok (tailq_insert_tail q e t) \<and>
    tq_list (tailq_insert_tail q e t) = (tq_list t)(q := tq_list t q @ [e])"
  using tq.insert_tail [OF assms(1), of e q] assms(2) by blast

definition demo_tailqs :: "nat tailqs" where
  "demo_tailqs = \<lparr>tqh_first = (\<lambda>_. None), tqh_last = Head, tqe_next = (\<lambda>_. None), tqe_prev = (\<lambda>_. Head 0)\<rparr>"

lemma demo_tailqs_ok: "tailqs_ok demo_tailqs" and demo_tailqs_list: "tq_list demo_tailqs q = []"
  by (rule tailqs_ok_init; simp add: demo_tailqs_def)+

theorem tailq_insert_tail_refines_witness:
  "tq_list (tailq_insert_tail 3 7 demo_tailqs) = (tq_list demo_tailqs)(3 := [7])"
  using tailq_insert_tail_refines [OF demo_tailqs_ok, of 7 3] by (simp add: demo_tailqs_list)

text \<open>
  C25. Unlinking an event from the queue it is on takes it, and nothing else, out of the list,
  wherever it stands in it, leaves every other queue as it was, and keeps all back pointers right.
\<close>

theorem tailq_remove_refines:
  assumes "tailqs_ok t" and "e \<in> set (tq_list t q)"
  shows "tailqs_ok (tailq_remove q e t) \<and>
    tq_list (tailq_remove q e t) = (tq_list t)(q := remove1 e (tq_list t q))"
  using tq.remove_lists [OF assms] by blast

theorem tailq_remove_refines_witness:
  "tailqs_ok (tailq_remove 3 7 (tailq_insert_tail 3 7 demo_tailqs))"
  using tailq_remove_refines [of "tailq_insert_tail 3 7 demo_tailqs" 7 3]
    tq.insert_tail [OF demo_tailqs_ok, of 7 3]
  by (simp add: demo_tailqs_list)

end
