(* ===== verification/EventTypes.thy ===== *)
theory EventTypes
  imports MinHeap Tailq
begin

text \<open>
  The data of \<open>event.hpp\<close>, \<open>epoll.hpp\<close> (\<open>struct eventop\<close>) and \<open>signal.hpp\<close>: \<open>struct event\<close>, \<open>struct event_base\<close>, the
  flag bits, and the clock that \<open>event.cpp\<close> reads through \<open>gettime\<close>.

  The state of the library is one record \<open>event_core\<close>: the contents of every \<open>struct event\<close>
  (\<open>evs\<close>), the fields of one \<open>struct event_base\<close>, the global variables, the live local variables
  whose address escapes (\<open>frames\<close>), and the outcomes of the system calls (\<open>os\<close>, read at the
  position \<open>tick\<close>). The link fields and the heap index of \<open>struct event\<close> live in the
  components that own them (\<open>eventqueue\<close>, \<open>activequeues\<close>, \<open>evsigevents\<close>, \<open>timeheap\<close>). The
  memory behind \<open>void *evbase\<close> is the extension of the record, so the operations of
  \<open>event.cpp\<close> are polymorphic in it and reach it only through a \<open>struct eventop\<close>.
\<close>

subsection \<open>Flag bits\<close>

definition EVLIST_TIMEOUT :: "32 word" where "EVLIST_TIMEOUT = 0x01"
definition EVLIST_INSERTED :: "32 word" where "EVLIST_INSERTED = 0x02"
definition EVLIST_SIGNAL :: "32 word" where "EVLIST_SIGNAL = 0x04"
definition EVLIST_ACTIVE :: "32 word" where "EVLIST_ACTIVE = 0x08"
definition EVLIST_INTERNAL :: "32 word" where "EVLIST_INTERNAL = 0x10"
definition EVLIST_INIT :: "32 word" where "EVLIST_INIT = 0x80"
definition EVLIST_ALL :: "32 word" where "EVLIST_ALL = 0xf000 OR 0x9f"

definition EV_TIMEOUT :: "'a::len word" where "EV_TIMEOUT = 0x01"
definition EV_READ :: "'a::len word" where "EV_READ = 0x02"
definition EV_WRITE :: "'a::len word" where "EV_WRITE = 0x04"
definition EV_SIGNAL :: "'a::len word" where "EV_SIGNAL = 0x08"
definition EV_PERSIST :: "'a::len word" where "EV_PERSIST = 0x10"

definition EVLOOP_ONCE :: "32 word" where "EVLOOP_ONCE = 0x01"
definition EVLOOP_NONBLOCK :: "32 word" where "EVLOOP_NONBLOCK = 0x02"

lemma has_EVLIST [flag_simps]:
  "has f EVLIST_TIMEOUT \<longleftrightarrow> bit f 0" "has f EVLIST_INSERTED \<longleftrightarrow> bit f 1"
  "has f EVLIST_ACTIVE \<longleftrightarrow> bit f 3" "has f EVLIST_INTERNAL \<longleftrightarrow> bit f 4"
  "has f EVLIST_INIT \<longleftrightarrow> bit f 7"
  using has_exp [of f 0] has_exp [of f 1] has_exp [of f 3] has_exp [of f 4] has_exp [of f 7]
  by (simp_all add: EVLIST_TIMEOUT_def EVLIST_INSERTED_def EVLIST_ACTIVE_def EVLIST_INTERNAL_def
      EVLIST_INIT_def)

lemma has_EV [flag_simps]:
  "has w EV_TIMEOUT \<longleftrightarrow> bit w 0" "has w EV_READ \<longleftrightarrow> bit w 1" "has w EV_WRITE \<longleftrightarrow> bit w 2"
  "has w EV_SIGNAL \<longleftrightarrow> bit w 3" "has w EV_PERSIST \<longleftrightarrow> bit w 4"
  using has_exp [of w 0] has_exp [of w 1] has_exp [of w 2] has_exp [of w 3] has_exp [of w 4]
  by (simp_all add: EV_TIMEOUT_def EV_READ_def EV_WRITE_def EV_SIGNAL_def EV_PERSIST_def)

lemma bit_pow: "k < 32 \<Longrightarrow> bit (2 ^ k :: 32 word) n \<longleftrightarrow> n = k"
  by (simp only: bit_exp_iff possible_bit_word len_num1 len_bit0 mult_2) auto

lemma bit_EVLIST [flag_simps]:
  "bit EVLIST_TIMEOUT n \<longleftrightarrow> n = 0" "bit EVLIST_INSERTED n \<longleftrightarrow> n = 1"
  "bit EVLIST_ACTIVE n \<longleftrightarrow> n = 3" "bit EVLIST_INTERNAL n \<longleftrightarrow> n = 4" "bit EVLIST_INIT n \<longleftrightarrow> n = 7"
  using bit_pow [of 0 n] bit_pow [of 1 n] bit_pow [of 3 n] bit_pow [of 4 n] bit_pow [of 7 n]
  by (simp_all only: EVLIST_TIMEOUT_def EVLIST_INSERTED_def EVLIST_ACTIVE_def EVLIST_INTERNAL_def
      EVLIST_INIT_def) simp_all

lemma EVLIST_distinct [simp]:
  "EVLIST_TIMEOUT \<noteq> EVLIST_INSERTED" "EVLIST_TIMEOUT \<noteq> EVLIST_ACTIVE" "EVLIST_INSERTED \<noteq> EVLIST_ACTIVE"
  "EVLIST_INSERTED \<noteq> EVLIST_TIMEOUT" "EVLIST_ACTIVE \<noteq> EVLIST_TIMEOUT" "EVLIST_ACTIVE \<noteq> EVLIST_INSERTED"
  by (simp_all add: EVLIST_TIMEOUT_def EVLIST_INSERTED_def EVLIST_ACTIVE_def)

subsection \<open>Events, signal state and the base\<close>

text \<open>\<open>struct event_base*\<close>: the model has one base.\<close>

datatype base_ptr = NullBase | Base

text \<open>
  A function pointer of type \<open>void (*)(int, short, void*)\<close>: a function of the user, or one of the
  static callbacks of the library.
\<close>

datatype callback = User nat | OnceCb | LoopexitCb | EvsignalCb

record event =
  ev_base :: base_ptr
  ev_fd :: int
  ev_events :: "16 word"
  ev_ncalls :: "16 word"
  ev_pncalls :: "nat option"
  ev_timeout :: timeval
  ev_pri :: int
  ev_callback :: callback
  ev_arg :: nat
  ev_res :: "32 word"
  ev_flags :: "32 word"

text \<open>
  What \<open>sigaction\<close> stores: the disposition of a signal. \<open>evsig_lists\<close> says that the pointers \<open>evsigevents\<close> to the lists of the signals are not null.
\<close>

datatype sighandler = Default | Other nat | EvsignalHandler

record evsignal_info =
  ev_signal :: "eid option"
  ev_signal_added :: bool
  ev_signal_pair :: "int \<times> int"
  evsignal_caught :: bool
  evsigcaught :: "nat \<Rightarrow> 32 word"
  evsigevents :: "nat tailqs"
  evsig_lists :: bool
  sh_old :: "sighandler option list"
  sh_old_max :: int

text \<open>\<open>struct event_once\<close> behind its first member \<open>ev\<close>, which has the same address.\<close>

record event_once =
  eo_cb :: callback
  eo_arg :: nat

text \<open>
  The outcomes of the system calls, by the position \<open>tick\<close> of the call: the clocks
  (seconds and nanoseconds, or a \<open>timeval\<close>; \<open>None\<close> when the call fails), whether an allocation
  of so many bytes succeeds, and the address of a new \<open>struct event_once\<close>.
\<close>

record os_env =
  os_monotonic :: "nat \<Rightarrow> (int \<times> int) option"
  os_realtime :: "nat \<Rightarrow> timeval option"
  os_alloc :: "nat \<Rightarrow> nat \<Rightarrow> bool"
  os_calloc :: "nat \<Rightarrow> eid option"

record event_core =
  evs :: "eid \<Rightarrow> event"
  event_count :: int
  event_count_active :: int
  event_gotterm :: bool
  event_break :: bool
  activequeues :: "nat tailqs"
  nactivequeues :: int
  sig :: evsignal_info
  eventqueue :: "unit tailqs"
  event_tv :: timeval
  timeheap :: min_heap
  tv_cache :: timeval
  current_base :: base_ptr
  event_sigcb :: "nat option"
  event_gotsig :: bool
  evsignal_base :: base_ptr
  use_monotonic :: bool
  aq_gen :: nat
  frames :: "nat \<Rightarrow> 16 word option"
  next_frame :: nat
  onces :: "eid \<Rightarrow> event_once option"
  tick :: nat
  os :: os_env

text \<open>
  \<open>aq_gen\<close> numbers the allocations of \<open>activequeues\<close>: a pointer to one of its queues is dangling
  once \<open>event_base_priority_init\<close> has replaced them.

  \<open>struct eventop\<close>: the backend, on the whole state \<open>'w\<close>. \<open>None\<close> of an operation means undefined
  behaviour; \<open>op_init\<close> says whether the result is not null.
\<close>

record 'w eventop =
  op_init :: "'w \<Rightarrow> (bool \<times> 'w) option"
  op_add :: "eid \<Rightarrow> 'w \<Rightarrow> (int \<times> 'w) option"
  op_del :: "eid \<Rightarrow> 'w \<Rightarrow> (int \<times> 'w) option"
  op_dispatch :: "timeval option \<Rightarrow> 'w \<Rightarrow> (int \<times> 'w) option"
  op_dealloc :: "'w \<Rightarrow> 'w option"
  op_need_reinit :: bool

definition upd_ev :: "eid \<Rightarrow> (event \<Rightarrow> event) \<Rightarrow> 'a event_core_scheme \<Rightarrow> 'a event_core_scheme" where
  "upd_ev e f s = s\<lparr>evs := (evs s)(e := f (evs s e))\<rparr>"

text \<open>The deadlines, as the heap reads them.\<close>

definition deadline :: "'a event_core_scheme \<Rightarrow> eid \<Rightarrow> timeval" where
  "deadline s e = ev_timeout (evs s e)"

text \<open>\<open>*ev->ev_pncalls = v\<close>: a local variable of a live call of \<open>event_process_active\<close>, or undefined.\<close>

definition write_ncalls :: "nat \<Rightarrow> 16 word \<Rightarrow> 'a event_core_scheme \<Rightarrow> 'a event_core_scheme option" where
  "write_ncalls p v s =
     (case frames s p of None \<Rightarrow> None | Some _ \<Rightarrow> Some (s\<lparr>frames := (frames s)(p := Some v)\<rparr>))"

subsection \<open>Time\<close>

text \<open>
  The time \<open>gettime\<close> stores in \<open>*tp\<close>, or \<open>None\<close> when it fails and stores nothing. The cached
  time is used unless its seconds are 0.
\<close>

definition clock_now :: "'a event_core_scheme \<Rightarrow> timeval option" where
  "clock_now s =
     (if use_monotonic s then
        (case os_monotonic (os s) (tick s) of
           None \<Rightarrow> None | Some (sec, nsec) \<Rightarrow> Some (Timeval sec (nsec div 1000)))
      else os_realtime (os s) (tick s))"

definition gettime :: "'a event_core_scheme \<Rightarrow> timeval option \<times> 'a event_core_scheme" where
  "gettime s =
     (if tv_sec (tv_cache s) \<noteq> 0 then (Some (tv_cache s), s)
      else (clock_now s, s\<lparr>tick := tick s + 1\<rparr>))"

definition detect_monotonic :: "'a event_core_scheme \<Rightarrow> 'a event_core_scheme" where
  "detect_monotonic s =
     (case os_monotonic (os s) (tick s) of
        None \<Rightarrow> s\<lparr>tick := tick s + 1\<rparr>
      | Some _ \<Rightarrow> s\<lparr>tick := tick s + 1, use_monotonic := True\<rparr>)"

end
