(* ===== verification/EventQueues.thy ===== *)
theory EventQueues
  imports EventTypes
begin

text \<open>
  \<open>event_queue_insert\<close> and \<open>event_queue_remove\<close> of \<open>event.cpp\<close>, the only functions that put an event on
  one of the three queues of a base (the list of inserted events, the active queue of its
  priority, the timer heap) and take it off, and the invariant \<open>core_ok\<close> that ties the queues,
  the flag bits and the counters together.
\<close>

subsection \<open>Operations\<close>

definition event_queue_remove :: "'a event_core_scheme \<Rightarrow> eid \<Rightarrow> 32 word \<Rightarrow> 'a event_core_scheme option" where
  "event_queue_remove s e q =
     (let s1 = (if has (NOT (ev_flags (evs s e))) EVLIST_INTERNAL
                then s\<lparr>event_count := event_count s - 1\<rparr> else s);
          s2 = upd_ev e (\<lambda>v. v\<lparr>ev_flags := ev_flags v AND NOT q\<rparr>) s1
      in if q = EVLIST_INSERTED then
           Some (s2\<lparr>eventqueue := tailq_remove () e (eventqueue s2)\<rparr>)
         else if q = EVLIST_ACTIVE then
           let s3 = s2\<lparr>event_count_active := event_count_active s2 - 1\<rparr>; pri = ev_pri (evs s3 e)
           in if tqe_next (activequeues s3) e = None \<and> \<not> (0 \<le> pri \<and> pri < nactivequeues s3) then None
              else Some (s3\<lparr>activequeues := tailq_remove (nat pri) e (activequeues s3)\<rparr>)
         else if q = EVLIST_TIMEOUT then
           do { (r, h) \<leftarrow> min_heap_erase (deadline s2) (timeheap s2) e; Some (s2\<lparr>timeheap := h\<rparr>) }
         else Some s2)"

definition event_queue_insert :: "'a event_core_scheme \<Rightarrow> eid \<Rightarrow> 32 word \<Rightarrow> 'a event_core_scheme option" where
  "event_queue_insert s e q =
     (if has (ev_flags (evs s e)) q \<and> has q EVLIST_ACTIVE then Some s
      else
        let s1 = (if has (NOT (ev_flags (evs s e))) EVLIST_INTERNAL
                  then s\<lparr>event_count := event_count s + 1\<rparr> else s);
            s2 = upd_ev e (\<lambda>v. v\<lparr>ev_flags := ev_flags v OR q\<rparr>) s1
        in if q = EVLIST_INSERTED then
             Some (s2\<lparr>eventqueue := tailq_insert_tail () e (eventqueue s2)\<rparr>)
           else if q = EVLIST_ACTIVE then
             let s3 = s2\<lparr>event_count_active := event_count_active s2 + 1\<rparr>; pri = ev_pri (evs s3 e)
             in if \<not> (0 \<le> pri \<and> pri < nactivequeues s3) then None
                else Some (s3\<lparr>activequeues := tailq_insert_tail (nat pri) e (activequeues s3)\<rparr>)
           else if q = EVLIST_TIMEOUT then
             do { (r, h) \<leftarrow> min_heap_push (os_alloc (os s2) (tick s2)) (deadline s2) (timeheap s2) e;
                  Some (s2\<lparr>timeheap := h, tick := tick s2 + 1\<rparr>) }
           else Some s2)"

subsection \<open>The invariant\<close>

definition inserted :: "'a event_core_scheme \<Rightarrow> eid \<Rightarrow> bool" where
  "inserted s e \<longleftrightarrow> has (ev_flags (evs s e)) EVLIST_INSERTED"

definition active :: "'a event_core_scheme \<Rightarrow> eid \<Rightarrow> bool" where
  "active s e \<longleftrightarrow> has (ev_flags (evs s e)) EVLIST_ACTIVE"

definition timed :: "'a event_core_scheme \<Rightarrow> eid \<Rightarrow> bool" where
  "timed s e \<longleftrightarrow> has (ev_flags (evs s e)) EVLIST_TIMEOUT"

definition internal :: "'a event_core_scheme \<Rightarrow> eid \<Rightarrow> bool" where
  "internal s e \<longleftrightarrow> has (ev_flags (evs s e)) EVLIST_INTERNAL"

definition inq :: "'a event_core_scheme \<Rightarrow> eid list" where
  "inq s = tq_list (eventqueue s) ()"

definition actq :: "'a event_core_scheme \<Rightarrow> nat \<Rightarrow> eid list" where
  "actq s = tq_list (activequeues s)"

definition tmq :: "'a event_core_scheme \<Rightarrow> eid list" where
  "tmq s = helems (timeheap s)"

definition flags_ok :: "32 word \<Rightarrow> bool" where
  "flags_ok f \<longleftrightarrow> \<not> has f (NOT EVLIST_ALL)"

definition pri_ok :: "'a event_core_scheme \<Rightarrow> eid \<Rightarrow> bool" where
  "pri_ok s e \<longleftrightarrow> 0 \<le> ev_pri (evs s e) \<and> ev_pri (evs s e) < nactivequeues s"

text \<open>The number of set queue bits of events that are not internal.\<close>

definition counted :: "'a event_core_scheme \<Rightarrow> int" where
  "counted s = int (card {e. inserted s e \<and> \<not> internal s e}) + int (card {e. active s e \<and> \<not> internal s e}) +
     int (card {e. timed s e \<and> \<not> internal s e})"

definition core_ok :: "'a event_core_scheme \<Rightarrow> bool" where
  "core_ok s \<longleftrightarrow>
     (tailqs_ok (eventqueue s) \<and> tailqs_ok (activequeues s) \<and> heap_ok (deadline s) (timeheap s)) \<and>
     (\<forall>e. inserted s e \<longleftrightarrow> e \<in> set (inq s)) \<and>
     (\<forall>e. timed s e \<longleftrightarrow> e \<in> set (tmq s)) \<and>
     (\<forall>e p. e \<in> set (actq s p) \<longleftrightarrow> active s e \<and> ev_pri (evs s e) = int p) \<and>
     (\<forall>e. active s e \<longrightarrow> pri_ok s e) \<and>
     event_count s = counted s \<and> event_count_active s = int (card {e. active s e}) \<and>
     (\<forall>e. flags_ok (ev_flags (evs s e))) \<and>
     (\<forall>e. inserted s e \<or> active s e \<or> timed s e \<longrightarrow> ev_base (evs s e) = Base)"

lemma flags_ok_iff: "flags_ok f \<longleftrightarrow> f AND NOT EVLIST_ALL = 0"
  by (simp add: flags_ok_def has_def)

lemma flags_ok_or [simp]: "flags_ok (f OR q) \<longleftrightarrow> flags_ok f \<and> flags_ok q"
  by (simp add: flags_ok_iff bit.conj_disj_distrib2 or_eq_0_iff)

lemma flags_ok_andnot [simp]: "flags_ok f \<Longrightarrow> flags_ok (f AND NOT q)"
proof -
  assume "flags_ok f"
  moreover have "(f AND NOT q) AND NOT EVLIST_ALL = (f AND NOT EVLIST_ALL) AND NOT q"
    by (simp only: and.assoc and.commute [of "NOT q"])
  ultimately show ?thesis by (simp add: flags_ok_iff)
qed

lemma flags_ok_EVLIST [simp]:
  "flags_ok EVLIST_TIMEOUT" "flags_ok EVLIST_INSERTED" "flags_ok EVLIST_ACTIVE" "flags_ok EVLIST_INTERNAL"
  "flags_ok EVLIST_INIT" "flags_ok 0"
  by (simp_all add: flags_ok_iff EVLIST_ALL_def EVLIST_TIMEOUT_def EVLIST_INSERTED_def EVLIST_ACTIVE_def
      EVLIST_INTERNAL_def EVLIST_INIT_def)

lemma has_not_internal: "has (NOT f) EVLIST_INTERNAL \<longleftrightarrow> \<not> has f EVLIST_INTERNAL"
  by (simp add: flag_simps bit_not_iff)

lemma core_okD:
  assumes "core_ok s"
  shows "tailqs_ok (eventqueue s)" and "tailqs_ok (activequeues s)" and "heap_ok (deadline s) (timeheap s)"
    and "inserted s e \<longleftrightarrow> e \<in> set (inq s)" and "timed s e \<longleftrightarrow> e \<in> set (tmq s)"
    and "e \<in> set (actq s p) \<longleftrightarrow> active s e \<and> ev_pri (evs s e) = int p" and "active s e \<Longrightarrow> pri_ok s e"
    and "event_count s = counted s" and "event_count_active s = int (card {e. active s e})"
    and "flags_ok (ev_flags (evs s e))"
    and "inserted s e \<or> active s e \<or> timed s e \<Longrightarrow> ev_base (evs s e) = Base"
  using assms unfolding core_ok_def by blast+

lemma active_queue:
  assumes "core_ok s" and "active s e"
  shows "e \<in> set (actq s (nat (ev_pri (evs s e))))"
  using core_okD(6,7) [OF assms(1), of e] assms(2) by (simp add: pri_ok_def)

lemma core_ok_finite:
  assumes "core_ok s"
  shows "finite {e. inserted s e}" and "finite {e. active s e}" and "finite {e. timed s e}"
proof -
  show "finite {e. inserted s e}" by (simp add: core_okD(4) [OF assms])
  show "finite {e. timed s e}" by (simp add: core_okD(5) [OF assms])
  have "{e. active s e} \<subseteq> (\<Union>p\<in>{..<nat (nactivequeues s)}. set (actq s p))"
    using active_queue [OF assms] core_okD(7) [OF assms] by (fastforce simp: pri_ok_def)
  then show "finite {e. active s e}" by (rule finite_subset) simp
qed

subsection \<open>Changing one event\<close>

lemma flags_upd:
  assumes "evs s' = (evs s)(e := v)"
  shows "inserted s' x \<longleftrightarrow> (if x = e then bit (ev_flags v) 1 else inserted s x)"
    and "active s' x \<longleftrightarrow> (if x = e then bit (ev_flags v) 3 else active s x)"
    and "timed s' x \<longleftrightarrow> (if x = e then bit (ev_flags v) 0 else timed s x)"
    and "internal s' x \<longleftrightarrow> (if x = e then bit (ev_flags v) 4 else internal s x)"
  using assms by (simp_all add: inserted_def active_def timed_def internal_def flag_simps)

lemma flags_bit:
  "inserted s e \<longleftrightarrow> bit (ev_flags (evs s e)) 1" "active s e \<longleftrightarrow> bit (ev_flags (evs s e)) 3"
  "timed s e \<longleftrightarrow> bit (ev_flags (evs s e)) 0" "internal s e \<longleftrightarrow> bit (ev_flags (evs s e)) 4"
  by (simp_all add: inserted_def active_def timed_def internal_def flag_simps)

lemma card_point:
  assumes "finite {x. P x}"
  shows "int (card {x. if x = e then b else P x}) = int (card {x. P x}) - of_bool (P e) + of_bool b"
proof -
  have "{x. if x = e then b else P x} = (if b then insert e ({x. P x} - {e}) else {x. P x} - {e})"
    by auto
  moreover have "int (card ({x. P x} - {e})) = int (card {x. P x}) - of_bool (P e)"
    using card_Suc_Diff1 [OF assms, of e] by (cases "P e") (simp_all flip: of_nat_Suc)
  moreover have "int (card (insert e ({x. P x} - {e}))) = int (card ({x. P x} - {e})) + 1"
    using assms by (simp del: insert_Diff_single)
  ultimately show ?thesis by (cases b) (simp_all only: if_True if_False of_bool_eq)
qed

definition evcount :: "32 word \<Rightarrow> int" where
  "evcount f = (if bit f 4 then 0 else of_bool (bit f 1) + of_bool (bit f 3) + of_bool (bit f 0))"

definition visible :: "'a event_core_scheme \<Rightarrow> nat \<Rightarrow> eid \<Rightarrow> bool" where
  "visible s k e \<longleftrightarrow> bit (ev_flags (evs s e)) k \<and> \<not> bit (ev_flags (evs s e)) 4"

lemma counted_visible: "counted s =
    int (card {e. visible s 1 e}) + int (card {e. visible s 3 e}) + int (card {e. visible s 0 e})"
  unfolding counted_def flags_bit visible_def ..

lemma visible_upd:
  assumes "finite {x. visible s k x}" and "evs s' = (evs s)(e := v)"
  shows "int (card {x. visible s' k x}) =
    int (card {x. visible s k x}) - of_bool (visible s k e) + of_bool (bit (ev_flags v) k \<and> \<not> bit (ev_flags v) 4)"
proof -
  have "visible s' k x \<longleftrightarrow> (if x = e then bit (ev_flags v) k \<and> \<not> bit (ev_flags v) 4 else visible s k x)" for x
    by (simp add: visible_def assms(2))
  then show ?thesis by (simp only: card_point [OF assms(1)])
qed

lemma counted_upd:
  assumes fin: "finite {x. inserted s x}" "finite {x. active s x}" "finite {x. timed s x}"
    and evs: "evs s' = (evs s)(e := v)"
  shows "counted s' = counted s - evcount (ev_flags (evs s e)) + evcount (ev_flags v)"
proof -
  have "finite {x. visible s 1 x}" "finite {x. visible s 3 x}" "finite {x. visible s 0 x}"
    using fin by (simp_all add: flags_bit visible_def finite_subset)
  note upd = this [THEN visible_upd, OF evs]
  have "of_bool (visible s 1 e) + of_bool (visible s 3 e) + of_bool (visible s 0 e)
      = evcount (ev_flags (evs s e))"
    by (simp add: evcount_def visible_def)
  moreover have "of_bool (bit (ev_flags v) 1 \<and> \<not> bit (ev_flags v) 4) + of_bool (bit (ev_flags v) 3 \<and> \<not> bit (ev_flags v) 4)
      + of_bool (bit (ev_flags v) 0 \<and> \<not> bit (ev_flags v) 4) = evcount (ev_flags v)"
    by (simp add: evcount_def)
  ultimately show ?thesis unfolding counted_visible upd by linarith
qed

lemma active_count_upd:
  assumes "finite {x. active s x}" and "evs s' = (evs s)(e := v)"
  shows "int (card {x. active s' x}) =
    int (card {x. active s x}) - of_bool (active s e) + of_bool (bit (ev_flags v) 3)"
  using card_point [OF assms(1), of e "bit (ev_flags v) 3"] by (simp add: flags_upd [OF assms(2)])

text \<open>How to re-establish the invariant after one event, and the queues it is on, have changed.\<close>

lemma core_ok_change:
  assumes ok: "core_ok s" and evs: "evs s' = (evs s)(e := v)"
    and tq: "tailqs_ok (eventqueue s')" "tailqs_ok (activequeues s')" "heap_ok (deadline s') (timeheap s')"
    and inq: "\<And>x. x \<in> set (inq s') \<longleftrightarrow> (if x = e then bit (ev_flags v) 1 else x \<in> set (inq s))"
    and tmq: "\<And>x. x \<in> set (tmq s') \<longleftrightarrow> (if x = e then bit (ev_flags v) 0 else x \<in> set (tmq s))"
    and actq: "\<And>x p. x \<in> set (actq s' p) \<longleftrightarrow>
      (if x = e then bit (ev_flags v) 3 \<and> ev_pri v = int p else x \<in> set (actq s p))"
    and pri: "bit (ev_flags v) 3 \<Longrightarrow> 0 \<le> ev_pri v \<and> ev_pri v < nactivequeues s"
    and n: "nactivequeues s' = nactivequeues s"
    and cnt: "event_count s' = event_count s - evcount (ev_flags (evs s e)) + evcount (ev_flags v)"
    and act: "event_count_active s' =
      event_count_active s - of_bool (active s e) + of_bool (bit (ev_flags v) 3)"
    and flags: "flags_ok (ev_flags v)"
    and base: "bit (ev_flags v) 1 \<or> bit (ev_flags v) 3 \<or> bit (ev_flags v) 0 \<Longrightarrow> ev_base v = Base"
  shows "core_ok s'"
  unfolding core_ok_def
proof (intro conjI allI)
  note D = core_okD [OF ok] and F = flags_upd [OF evs]
  show "inserted s' x = (x \<in> set (inq s'))" for x using D(4) by (simp add: F inq)
  show "timed s' x = (x \<in> set (tmq s'))" for x using D(5) by (simp add: F tmq)
  show "(x \<in> set (actq s' p)) = (active s' x \<and> ev_pri (evs s' x) = int p)" for x p
    using D(6) by (simp add: F actq evs)
  show "active s' x \<longrightarrow> pri_ok s' x" for x
    using D(7) [of x] pri by (simp add: F pri_ok_def evs n)
  show "event_count s' = counted s'"
    using counted_upd [OF core_ok_finite [OF ok] evs] D(8) cnt by simp
  show "event_count_active s' = int (card {x. active s' x})"
    using active_count_upd [OF core_ok_finite(2) [OF ok] evs] D(9) act by simp
  show "flags_ok (ev_flags (evs s' x))" for x using D(10) flags by (simp add: evs)
  show "inserted s' x \<or> active s' x \<or> timed s' x \<longrightarrow> ev_base (evs s' x) = Base" for x
    using D(11) [of x] base by (auto simp: F evs split: if_splits)
qed (fact tq)+

text \<open>Changing fields of an event that the queues do not depend on.\<close>

lemma core_ok_upd_ev:
  assumes ok: "core_ok s" and f: "ev_flags (f (evs s e)) = ev_flags (evs s e)"
    and pri: "active s e \<Longrightarrow> ev_pri (f (evs s e)) = ev_pri (evs s e)"
    and tv: "timed s e \<Longrightarrow> ev_timeout (f (evs s e)) = ev_timeout (evs s e)"
    and base: "inserted s e \<or> active s e \<or> timed s e \<Longrightarrow> ev_base (f (evs s e)) = ev_base (evs s e)"
  shows "core_ok (upd_ev e f s)"
proof (rule core_ok_change [OF ok])
  note D = core_okD [OF ok]
  show "evs (upd_ev e f s) = (evs s)(e := f (evs s e))" by (simp add: upd_ev_def)
  show "heap_ok (deadline (upd_ev e f s)) (timeheap (upd_ev e f s))"
  proof -
    have "deadline (upd_ev e f s) x = deadline s x" if "x \<in> set (helems (timeheap s))" for x
      using tv D(5) [of x] that by (auto simp: deadline_def upd_ev_def tmq_def)
    then show ?thesis using heapq.ok_cong [OF D(3)] by (simp add: upd_ev_def)
  qed
  show "x \<in> set (inq (upd_ev e f s)) \<longleftrightarrow>
      (if x = e then bit (ev_flags (f (evs s e))) 1 else x \<in> set (inq s))" for x
    using D(4) [of x] by (auto simp: f inq_def upd_ev_def flags_bit)
  show "x \<in> set (tmq (upd_ev e f s)) \<longleftrightarrow>
      (if x = e then bit (ev_flags (f (evs s e))) 0 else x \<in> set (tmq s))" for x
    using D(5) [of x] by (auto simp: f tmq_def upd_ev_def flags_bit)
  show "x \<in> set (actq (upd_ev e f s) p) \<longleftrightarrow>
      (if x = e then bit (ev_flags (f (evs s e))) 3 \<and> ev_pri (f (evs s e)) = int p else x \<in> set (actq s p))" for x p
    using D(6) [of x p] pri by (auto simp: f actq_def upd_ev_def flags_bit)
  show "bit (ev_flags (f (evs s e))) 3 \<Longrightarrow> 0 \<le> ev_pri (f (evs s e)) \<and> ev_pri (f (evs s e)) < nactivequeues s"
    using D(7) [of e] pri by (simp add: f flags_bit pri_ok_def)
  show "bit (ev_flags (f (evs s e))) 1 \<or> bit (ev_flags (f (evs s e))) 3 \<or> bit (ev_flags (f (evs s e))) 0 \<Longrightarrow>
      ev_base (f (evs s e)) = Base"
    using D(11) [of e] base by (simp add: f flags_bit)
qed (use ok f in \<open>simp_all add: upd_ev_def core_okD flags_bit\<close>)

subsection \<open>What the two functions do\<close>

text \<open>\<open>queues_only s s'\<close>: only the events, the queues, their counters and the clock position differ.\<close>

definition rest :: "'a event_core_scheme \<Rightarrow> _" where
  "rest s = ((event_gotterm s, event_break s, nactivequeues s, sig s, event_tv s, tv_cache s, current_base s),
     (event_sigcb s, event_gotsig s, evsignal_base s, use_monotonic s, aq_gen s),
     (frames s, next_frame s, onces s, os s, event_core.more s))"

definition queues_only :: "'a event_core_scheme \<Rightarrow> 'a event_core_scheme \<Rightarrow> bool" where
  "queues_only s s' \<longleftrightarrow> rest s' = rest s"

lemma queues_only_refl [simp]: "queues_only s s"
  by (simp add: queues_only_def)

lemma queues_only_trans [trans]: "queues_only s t \<Longrightarrow> queues_only t u \<Longrightarrow> queues_only s u"
  by (simp add: queues_only_def)

lemma queues_onlyI: "queues_only s (s\<lparr>evs := a, event_count := b, event_count_active := c,
    eventqueue := d, activequeues := f, timeheap := g, tick := h\<rparr>)"
  by (simp add: queues_only_def rest_def)

lemma queues_onlyD:
  assumes "queues_only s s'"
  shows "event_gotterm s' = event_gotterm s" "event_break s' = event_break s"
    "nactivequeues s' = nactivequeues s" "sig s' = sig s" "event_tv s' = event_tv s"
    "tv_cache s' = tv_cache s" "current_base s' = current_base s" "event_sigcb s' = event_sigcb s"
    "event_gotsig s' = event_gotsig s" "evsignal_base s' = evsignal_base s"
    "use_monotonic s' = use_monotonic s" "aq_gen s' = aq_gen s" "frames s' = frames s"
    "next_frame s' = next_frame s" "onces s' = onces s" "os s' = os s"
    "event_core.more s' = event_core.more s"
  using assms by (simp_all add: queues_only_def rest_def)

definition with_flags :: "eid \<Rightarrow> 32 word \<Rightarrow> 'a event_core_scheme \<Rightarrow> eid \<Rightarrow> event" where
  "with_flags e f s = (evs s)(e := (evs s e)\<lparr>ev_flags := f\<rparr>)"

lemma evcount_simps [simp]:
  "evcount (f OR EVLIST_INSERTED) = (if bit f 4 \<or> bit f 1 then evcount f else evcount f + 1)"
  "evcount (f OR EVLIST_ACTIVE) = (if bit f 4 \<or> bit f 3 then evcount f else evcount f + 1)"
  "evcount (f OR EVLIST_TIMEOUT) = (if bit f 4 \<or> bit f 0 then evcount f else evcount f + 1)"
  "evcount (f AND NOT EVLIST_INSERTED) = (if bit f 4 \<or> \<not> bit f 1 then evcount f else evcount f - 1)"
  "evcount (f AND NOT EVLIST_ACTIVE) = (if bit f 4 \<or> \<not> bit f 3 then evcount f else evcount f - 1)"
  "evcount (f AND NOT EVLIST_TIMEOUT) = (if bit f 4 \<or> \<not> bit f 0 then evcount f else evcount f - 1)"
  by (simp_all add: evcount_def flag_simps bit_simps)

lemma bit_flags_simps [simp]:
  "bit (f OR EVLIST_INSERTED) n \<longleftrightarrow> bit f n \<or> n = 1" "bit (f OR EVLIST_ACTIVE) n \<longleftrightarrow> bit f n \<or> n = 3"
  "bit (f OR EVLIST_TIMEOUT) n \<longleftrightarrow> bit f n \<or> n = 0"
  "bit (f AND NOT EVLIST_INSERTED) n \<longleftrightarrow> bit f n \<and> n \<noteq> 1"
  "bit (f AND NOT EVLIST_ACTIVE) n \<longleftrightarrow> bit f n \<and> n \<noteq> 3"
  "bit (f AND NOT EVLIST_TIMEOUT) n \<longleftrightarrow> bit f n \<and> n \<noteq> 0"
  by (auto simp: flag_simps bit_simps dest: bit_imp_le_length)

text \<open>The deadlines only depend on \<open>ev_timeout\<close>, the queues on the flags.\<close>

lemma deadline_cong: "(\<And>x. ev_timeout (evs s' x) = ev_timeout (evs s x)) \<Longrightarrow> deadline s' = deadline s"
  by (simp add: deadline_def fun_eq_iff)

lemma with_flags_timeout [simp]: "ev_timeout (with_flags e f s x) = ev_timeout (evs s x)"
  by (simp add: with_flags_def)

lemma on_queue:
  assumes "core_ok s"
  shows "e \<in> set (inq s) \<longleftrightarrow> bit (ev_flags (evs s e)) 1" "e \<in> set (tmq s) \<longleftrightarrow> bit (ev_flags (evs s e)) 0"
    "e \<in> set (actq s p) \<longleftrightarrow> bit (ev_flags (evs s e)) 3 \<and> ev_pri (evs s e) = int p"
    "bit (ev_flags (evs s e)) 3 \<Longrightarrow> pri_ok s e"
  using core_okD(4-7) [OF assms, of e] by (simp_all add: flags_bit)

lemma core_ok_reflag:
  assumes ok: "core_ok s" and evs: "evs s' = with_flags e f s"
    and tq: "tailqs_ok (eventqueue s')" "tailqs_ok (activequeues s')" "heap_ok (deadline s) (timeheap s')"
    and inq: "\<And>x. x \<in> set (inq s') \<longleftrightarrow> (if x = e then bit f 1 else x \<in> set (inq s))"
    and tmq: "\<And>x. x \<in> set (tmq s') \<longleftrightarrow> (if x = e then bit f 0 else x \<in> set (tmq s))"
    and actq: "\<And>x p. x \<in> set (actq s' p) \<longleftrightarrow>
      (if x = e then bit f 3 \<and> ev_pri (evs s e) = int p else x \<in> set (actq s p))"
    and pri: "bit f 3 \<Longrightarrow> pri_ok s e" and rest: "queues_only s s'"
    and cnt: "event_count s' = event_count s - evcount (ev_flags (evs s e)) + evcount f"
    and act: "event_count_active s' = event_count_active s - of_bool (active s e) + of_bool (bit f 3)"
    and flags: "flags_ok f" and base: "bit f 1 \<or> bit f 3 \<or> bit f 0 \<Longrightarrow> ev_base (evs s e) = Base"
  shows "core_ok s'"
proof (rule core_ok_change [OF ok evs [unfolded with_flags_def]])
  have "deadline s' = deadline s" by (rule deadline_cong) (simp add: evs)
  then show "heap_ok (deadline s') (timeheap s')" using tq(3) by simp
qed (use assms queues_onlyD [OF rest] in \<open>simp_all add: pri_ok_def\<close>)

text \<open>The event record and the counter after setting or clearing a bit.\<close>

definition recount :: "eid \<Rightarrow> 32 word \<Rightarrow> 'a event_core_scheme \<Rightarrow> 'a event_core_scheme" where
  "recount e f s = s\<lparr>event_count := event_count s - evcount (ev_flags (evs s e)) + evcount f,
                     evs := with_flags e f s\<rparr>"

lemma recount_insert:
  assumes "q = EVLIST_INSERTED \<and> \<not> inserted s e \<or> q = EVLIST_ACTIVE \<and> \<not> active s e \<or> q = EVLIST_TIMEOUT \<and> \<not> timed s e"
  shows "upd_ev e (\<lambda>v. v\<lparr>ev_flags := ev_flags v OR q\<rparr>)
      (if has (NOT (ev_flags (evs s e))) EVLIST_INTERNAL then s\<lparr>event_count := event_count s + 1\<rparr> else s) =
    recount e (ev_flags (evs s e) OR q) s"
  using assms
  by (auto simp: recount_def upd_ev_def with_flags_def has_not_internal flags_bit)
    (simp_all add: flag_simps)

lemma recount_remove:
  assumes "q = EVLIST_INSERTED \<and> inserted s e \<or> q = EVLIST_ACTIVE \<and> active s e \<or> q = EVLIST_TIMEOUT \<and> timed s e"
  shows "upd_ev e (\<lambda>v. v\<lparr>ev_flags := ev_flags v AND NOT q\<rparr>)
      (if has (NOT (ev_flags (evs s e))) EVLIST_INTERNAL then s\<lparr>event_count := event_count s - 1\<rparr> else s) =
    recount e (ev_flags (evs s e) AND NOT q) s"
  using assms
  by (auto simp: recount_def upd_ev_def with_flags_def has_not_internal flags_bit)
    (simp_all add: flag_simps)

lemma with_flags_sel [simp]:
  "ev_flags (with_flags e f s x) = (if x = e then f else ev_flags (evs s x))"
  "ev_pri (with_flags e f s x) = ev_pri (evs s x)" "ev_base (with_flags e f s x) = ev_base (evs s x)"
  by (simp_all add: with_flags_def)

lemma recount_sel [simp]:
  "evs (recount e f s) = with_flags e f s" "eventqueue (recount e f s) = eventqueue s"
  "activequeues (recount e f s) = activequeues s" "timeheap (recount e f s) = timeheap s"
  "event_count_active (recount e f s) = event_count_active s" "nactivequeues (recount e f s) = nactivequeues s"
  "os (recount e f s) = os s" "tick (recount e f s) = tick s"
  "event_count (recount e f s) = event_count s - evcount (ev_flags (evs s e)) + evcount f"
  "rest (recount e f s) = rest s"
  by (simp_all add: recount_def rest_def)

lemma recount_deadline [simp]: "deadline (recount e f s) = deadline s"
  by (rule deadline_cong) simp

text \<open>What changes: the event's flags, one queue, the counters.\<close>

definition moves :: "'a event_core_scheme \<Rightarrow> eid \<Rightarrow> 32 word \<Rightarrow> 'a event_core_scheme \<Rightarrow> bool" where
  "moves s e f s' \<longleftrightarrow> core_ok s' \<and> queues_only s s' \<and> evs s' = with_flags e f s"

lemma queue_insert_inserted:
  assumes ok: "core_ok s" and e: "\<not> inserted s e" and base: "ev_base (evs s e) = Base"
  obtains s' where "event_queue_insert s e EVLIST_INSERTED = Some s'"
    and "moves s e (ev_flags (evs s e) OR EVLIST_INSERTED) s'"
    and "inq s' = inq s @ [e]" and "activequeues s' = activequeues s" and "timeheap s' = timeheap s"
    and "tick s' = tick s"
proof -
  note D = core_okD [OF ok] and Q = on_queue [OF ok]
  let ?s1 = "recount e (ev_flags (evs s e) OR EVLIST_INSERTED) s"
  define s' where "s' = ?s1\<lparr>eventqueue := tailq_insert_tail () e (eventqueue s)\<rparr>"
  have ins: "event_queue_insert s e EVLIST_INSERTED = Some s'"
    using recount_insert [of EVLIST_INSERTED s e] e
    by (simp add: event_queue_insert_def s'_def inserted_def)
  have "e \<notin> set (tq_list (eventqueue s) q)" for q using e D(4) [of e] by (simp add: inq_def)
  note tq = tq.insert_tail [OF D(1) this, of "()"]
  then have inq: "inq s' = inq s @ [e]" by (simp add: s'_def inq_def)
  have rest: "queues_only s s'"
    using recount_sel(10) [of e _ s] by (simp add: s'_def queues_only_def rest_def)
  have same: "tmq s' = tmq s" "actq s' = actq s" by (simp_all add: s'_def tmq_def actq_def)
  have "core_ok s'"
    by (rule core_ok_reflag [OF ok, of s' e "ev_flags (evs s e) OR EVLIST_INSERTED"])
      (use tq D(2,3,10) e base in \<open>auto simp: inq same rest Q flags_bit\<close>,
       use tq D(2,3) in \<open>simp_all add: s'_def flags_bit\<close>)
  with rest show thesis
    using that [of s'] ins inq by (simp add: moves_def) (simp add: s'_def)
qed

lemma queue_insert_active:
  assumes ok: "core_ok s" and e: "\<not> active s e" and base: "ev_base (evs s e) = Base" and pri: "pri_ok s e"
  obtains s' where "event_queue_insert s e EVLIST_ACTIVE = Some s'"
    and "moves s e (ev_flags (evs s e) OR EVLIST_ACTIVE) s'"
    and "actq s' = (actq s)(nat (ev_pri (evs s e)) := actq s (nat (ev_pri (evs s e))) @ [e])"
    and "eventqueue s' = eventqueue s" and "timeheap s' = timeheap s" and "tick s' = tick s"
proof -
  note D = core_okD [OF ok] and Q = on_queue [OF ok]
  let ?p = "nat (ev_pri (evs s e))"
  let ?s1 = "recount e (ev_flags (evs s e) OR EVLIST_ACTIVE) s"
  define s' where "s' = ?s1\<lparr>event_count_active := event_count_active s + 1,
    activequeues := tailq_insert_tail ?p e (activequeues s)\<rparr>"
  have ins: "event_queue_insert s e EVLIST_ACTIVE = Some s'"
    using recount_insert [of EVLIST_ACTIVE s e] e pri
    by (simp add: event_queue_insert_def s'_def active_def pri_ok_def)
  have "e \<notin> set (tq_list (activequeues s) q)" for q using e D(6) [of e] by (simp add: actq_def)
  note tq = tq.insert_tail [OF D(2) this, of ?p]
  then have actq: "actq s' = (actq s)(?p := actq s ?p @ [e])" by (simp add: s'_def actq_def)
  have rest: "queues_only s s'"
    using recount_sel(10) [of e _ s] by (simp add: s'_def queues_only_def rest_def)
  have same: "tmq s' = tmq s" "inq s' = inq s" by (simp_all add: s'_def tmq_def inq_def)
  have "core_ok s'"
    by (rule core_ok_reflag [OF ok, of s' e "ev_flags (evs s e) OR EVLIST_ACTIVE"])
      (use tq D(1,3,10) e base pri in \<open>auto simp: actq same rest Q flags_bit pri_ok_def\<close>,
       use tq D(1,3) e in \<open>simp_all add: s'_def flags_bit\<close>)
  with rest show thesis
    using that [of s'] ins actq by (simp add: moves_def) (simp add: s'_def)
qed

lemma queue_insert_timeout:
  assumes ok: "core_ok s" and e: "\<not> timed s e" and base: "ev_base (evs s e) = Base"
    and room: "heap_room (timeheap s)" "heap_reserved (timeheap s)"
  obtains s' where "event_queue_insert s e EVLIST_TIMEOUT = Some s'"
    and "moves s e (ev_flags (evs s e) OR EVLIST_TIMEOUT) s'" and "set (tmq s') = insert e (set (tmq s))"
    and "eventqueue s' = eventqueue s" and "activequeues s' = activequeues s"
proof -
  note D = core_okD [OF ok] and Q = on_queue [OF ok]
  let ?s1 = "recount e (ev_flags (evs s e) OR EVLIST_TIMEOUT) s"
  have ne: "e \<notin> set (helems (timeheap s))" using e D(5) [of e] by (simp add: tmq_def)
  obtain r h where h: "min_heap_push (os_alloc (os s) (tick s)) (deadline s) (timeheap s) e = Some (r, h)"
    "heap_ok (deadline s) h" "set (helems h) = insert e (set (helems (timeheap s)))"
    by (rule heapq.push_set [OF D(3) ne room(1), of "os_alloc (os s) (tick s)"]) (use room(2) in auto)
  define s' where "s' = ?s1\<lparr>timeheap := h, tick := tick s + 1\<rparr>"
  have ins: "event_queue_insert s e EVLIST_TIMEOUT = Some s'"
    using recount_insert [of EVLIST_TIMEOUT s e] e h(1)
    by (simp add: event_queue_insert_def s'_def timed_def)
  have tmq: "set (tmq s') = insert e (set (tmq s))" using h(3) by (simp add: s'_def tmq_def)
  have rest: "queues_only s s'"
    using recount_sel(10) [of e _ s] by (simp add: s'_def queues_only_def rest_def)
  have same: "actq s' = actq s" "inq s' = inq s" by (simp_all add: s'_def actq_def inq_def)
  have "core_ok s'"
    by (rule core_ok_reflag [OF ok, of s' e "ev_flags (evs s e) OR EVLIST_TIMEOUT"])
      (use D(1,2,10) e base h(2) in \<open>auto simp: tmq same rest Q flags_bit\<close>,
       use D(1,2) h(2) e in \<open>simp_all add: s'_def flags_bit\<close>)
  with rest show thesis
    using that [of s'] ins tmq by (simp add: moves_def) (simp add: s'_def)
qed

lemma queue_remove_inserted:
  assumes ok: "core_ok s" and e: "inserted s e"
  obtains s' where "event_queue_remove s e EVLIST_INSERTED = Some s'"
    and "moves s e (ev_flags (evs s e) AND NOT EVLIST_INSERTED) s'"
    and "inq s' = remove1 e (inq s)" and "activequeues s' = activequeues s" and "timeheap s' = timeheap s"
    and "tick s' = tick s"
proof -
  note D = core_okD [OF ok] and Q = on_queue [OF ok]
  let ?s1 = "recount e (ev_flags (evs s e) AND NOT EVLIST_INSERTED) s"
  define s' where "s' = ?s1\<lparr>eventqueue := tailq_remove () e (eventqueue s)\<rparr>"
  have rem: "event_queue_remove s e EVLIST_INSERTED = Some s'"
    using recount_remove [of EVLIST_INSERTED s e] e
    by (simp add: event_queue_remove_def s'_def)
  have m: "e \<in> set (tq_list (eventqueue s) ())" using e D(4) [of e] by (simp add: inq_def)
  note tq = tq.remove_lists [OF D(1) m] and tqs = tq.remove_set [OF D(1) m]
  have inq: "inq s' = remove1 e (inq s)" "set (inq s') = set (inq s) - {e}"
    using tq tqs by (simp_all add: s'_def inq_def)
  have rest: "queues_only s s'"
    using recount_sel(10) [of e _ s] by (simp add: s'_def queues_only_def rest_def)
  have same: "tmq s' = tmq s" "actq s' = actq s" by (simp_all add: s'_def tmq_def actq_def)
  have "core_ok s'"
    by (rule core_ok_reflag [OF ok, of s' e "ev_flags (evs s e) AND NOT EVLIST_INSERTED"])
      (use tq D(2,3,10,11) e in \<open>auto simp: inq(2) same rest Q flags_bit\<close>,
       use tq D(2,3) e in \<open>simp_all add: s'_def flags_bit\<close>)
  with rest show thesis
    using that [of s'] rem inq by (simp add: moves_def) (simp add: s'_def)
qed

lemma queue_remove_active:
  assumes ok: "core_ok s" and e: "active s e"
  obtains s' where "event_queue_remove s e EVLIST_ACTIVE = Some s'"
    and "moves s e (ev_flags (evs s e) AND NOT EVLIST_ACTIVE) s'"
    and "actq s' = (actq s)(nat (ev_pri (evs s e)) := remove1 e (actq s (nat (ev_pri (evs s e)))))"
    and "eventqueue s' = eventqueue s" and "timeheap s' = timeheap s" and "tick s' = tick s"
proof -
  note D = core_okD [OF ok] and Q = on_queue [OF ok]
  let ?p = "nat (ev_pri (evs s e))"
  let ?s1 = "recount e (ev_flags (evs s e) AND NOT EVLIST_ACTIVE) s"
  define s' where "s' = ?s1\<lparr>event_count_active := event_count_active s - 1,
    activequeues := tailq_remove ?p e (activequeues s)\<rparr>"
  have rem: "event_queue_remove s e EVLIST_ACTIVE = Some s'"
    using recount_remove [of EVLIST_ACTIVE s e] e D(7) [OF e]
    by (simp add: event_queue_remove_def s'_def pri_ok_def)
  have m: "e \<in> set (tq_list (activequeues s) ?p)" using active_queue [OF ok e] by (simp add: actq_def)
  note tq = tq.remove_lists [OF D(2) m] and tqs = tq.remove_set [OF D(2) m]
  have actq: "actq s' = (actq s)(?p := remove1 e (actq s ?p))"
    "set (actq s' r) = (if r = ?p then set (actq s ?p) - {e} else set (actq s r))" for r
    using tq tqs by (simp_all add: s'_def actq_def)
  have rest: "queues_only s s'"
    using recount_sel(10) [of e _ s] by (simp add: s'_def queues_only_def rest_def)
  have same: "tmq s' = tmq s" "inq s' = inq s" by (simp_all add: s'_def tmq_def inq_def)
  have "core_ok s'"
    by (rule core_ok_reflag [OF ok, of s' e "ev_flags (evs s e) AND NOT EVLIST_ACTIVE"])
      (use tq D(1,3,10,11) e in \<open>auto simp: actq(2) same rest Q flags_bit pri_ok_def split: if_splits\<close>,
       use tq D(1,3) e in \<open>simp_all add: s'_def flags_bit\<close>)
  with rest show thesis
    using that [of s'] rem actq(1) by (simp add: moves_def) (simp add: s'_def)
qed

lemma queue_remove_timeout:
  assumes ok: "core_ok s" and e: "timed s e"
  obtains s' where "event_queue_remove s e EVLIST_TIMEOUT = Some s'"
    and "moves s e (ev_flags (evs s e) AND NOT EVLIST_TIMEOUT) s'" and "set (tmq s') = set (tmq s) - {e}"
    and "length (tmq s') < length (tmq s)" and "heap_room (timeheap s')" and "heap_reserved (timeheap s')"
    and "eventqueue s' = eventqueue s" and "activequeues s' = activequeues s" and "tick s' = tick s"
proof -
  note D = core_okD [OF ok] and Q = on_queue [OF ok]
  let ?s1 = "recount e (ev_flags (evs s e) AND NOT EVLIST_TIMEOUT) s"
  have m: "e \<in> set (helems (timeheap s))" using e D(5) [of e] by (simp add: tmq_def)
  obtain h where h: "min_heap_erase (deadline s) (timeheap s) e = Some (0, h)" "heap_ok (deadline s) h"
    "set (helems h) = set (helems (timeheap s)) - {e}" "length (helems h) < length (helems (timeheap s))"
    "heap_room h" "heap_reserved h"
    by (rule heapq.erase_set [OF D(3) m])
  define s' where "s' = ?s1\<lparr>timeheap := h\<rparr>"
  have rem: "event_queue_remove s e EVLIST_TIMEOUT = Some s'"
    using recount_remove [of EVLIST_TIMEOUT s e] e h(1)
    by (simp add: event_queue_remove_def s'_def)
  have tmq: "set (tmq s') = set (tmq s) - {e}" using h(3) by (simp add: s'_def tmq_def)
  have rest: "queues_only s s'"
    using recount_sel(10) [of e _ s] by (simp add: s'_def queues_only_def rest_def)
  have same: "actq s' = actq s" "inq s' = inq s" by (simp_all add: s'_def actq_def inq_def)
  have "core_ok s'"
    by (rule core_ok_reflag [OF ok, of s' e "ev_flags (evs s e) AND NOT EVLIST_TIMEOUT"])
      (use D(1,2,10,11) e h(2) in \<open>auto simp: tmq same rest Q flags_bit\<close>,
       use D(1,2) h(2) e in \<open>simp_all add: s'_def flags_bit\<close>)
  with rest show thesis
    using that [of s'] rem tmq h(4-6) by (simp add: moves_def) (simp add: s'_def tmq_def)
qed

end
