(* ===== verification/EventOps.thy ===== *)
theory EventOps
  imports EventQueues
begin

text \<open>
  The operations on events that \<open>event.hpp\<close> exports: \<open>event_set\<close>, \<open>event_base_set\<close>, \<open>event_priority_set\<close>,
  \<open>event_pending\<close>, \<open>event_add\<close>, \<open>event_del\<close>, \<open>event_active\<close>, \<open>event_base_priority_init\<close> and \<open>event_base_once\<close>, over an arbitrary
  backend. What they need of the backend is the locale \<open>event_backend\<close>.

  The \<open>Debug\<close> and \<open>Error\<close> calls write to the log and change nothing here.
\<close>

subsection \<open>Operations\<close>

text \<open>A \<open>struct event\<close> in memory that \<open>calloc\<close> has cleared.\<close>

definition zero_event :: event where
  "zero_event = \<lparr>ev_base = NullBase, ev_fd = 0, ev_events = 0, ev_ncalls = 0, ev_pncalls = None,
     ev_timeout = Timeval 0 0, ev_pri = 0, ev_callback = User 0, ev_arg = 0, ev_res = 0, ev_flags = 0\<rparr>"

definition event_set ::
  "'a event_core_scheme \<Rightarrow> eid \<Rightarrow> int \<Rightarrow> 16 word \<Rightarrow> callback \<Rightarrow> nat \<Rightarrow> 'a event_core_scheme" where
  "event_set s e fd events cb arg =
     (let s1 = upd_ev e (\<lambda>v. v\<lparr>ev_base := current_base s, ev_callback := cb, ev_arg := arg, ev_fd := fd,
                 ev_events := events, ev_res := 0, ev_flags := EVLIST_INIT, ev_ncalls := 0,
                 ev_pncalls := None\<rparr>) s;
          s2 = s1\<lparr>timeheap := min_heap_elem_init (timeheap s1) e\<rparr>
      in if current_base s \<noteq> NullBase
         then upd_ev e (\<lambda>v. v\<lparr>ev_pri := nactivequeues s2 div 2\<rparr>) s2 else s2)"

text \<open>The macros \<open>evtimer_set\<close> and \<open>signal_set\<close> of \<open>event.hpp\<close>.\<close>

definition evtimer_set :: "'a event_core_scheme \<Rightarrow> eid \<Rightarrow> callback \<Rightarrow> nat \<Rightarrow> 'a event_core_scheme" where
  "evtimer_set s e cb arg = event_set s e (-1) 0 cb arg"

definition signal_set :: "'a event_core_scheme \<Rightarrow> eid \<Rightarrow> int \<Rightarrow> callback \<Rightarrow> nat \<Rightarrow> 'a event_core_scheme" where
  "signal_set s e x cb arg = event_set s e x (EV_SIGNAL OR EV_PERSIST) cb arg"

definition event_base_set :: "'a event_core_scheme \<Rightarrow> base_ptr \<Rightarrow> eid \<Rightarrow> (int \<times> 'a event_core_scheme) option" where
  "event_base_set s base e =
     (if ev_flags (evs s e) \<noteq> EVLIST_INIT then Some (-1, s)
      else if base = NullBase then None
      else Some (0, upd_ev e (\<lambda>v. v\<lparr>ev_base := base, ev_pri := nactivequeues s div 2\<rparr>) s))"

definition event_priority_set :: "'a event_core_scheme \<Rightarrow> eid \<Rightarrow> int \<Rightarrow> (int \<times> 'a event_core_scheme) option" where
  "event_priority_set s e pri =
     (if has (ev_flags (evs s e)) EVLIST_ACTIVE then Some (-1, s)
      else if pri < 0 then Some (-1, s)
      else if ev_base (evs s e) = NullBase then None
      else if pri \<ge> nactivequeues s then Some (-1, s)
      else Some (0, upd_ev e (\<lambda>v. v\<lparr>ev_pri := pri\<rparr>) s))"

text \<open>\<open>want_tv\<close> is \<open>tv != NULL\<close>; the result holds the value stored in \<open>*tv\<close>, if any.\<close>

definition event_pending ::
  "'a event_core_scheme \<Rightarrow> eid \<Rightarrow> 16 word \<Rightarrow> bool \<Rightarrow> (32 word \<times> timeval option \<times> 'a event_core_scheme) option" where
  "event_pending s e event0 want_tv =
     (let v = evs s e;
          flags = (if has (ev_flags v) EVLIST_INSERTED
                   then scast (ev_events v AND (EV_READ OR EV_WRITE OR EV_SIGNAL)) else 0);
          flags = (if has (ev_flags v) EVLIST_ACTIVE then flags OR ev_res v else flags);
          flags = (if has (ev_flags v) EVLIST_TIMEOUT then flags OR EV_TIMEOUT else flags);
          event = event0 AND (EV_TIMEOUT OR EV_READ OR EV_WRITE OR EV_SIGNAL)
      in if want_tv \<and> has (flags AND scast event) EV_TIMEOUT then
           if ev_base v = NullBase then None
           else do {
             let (now0, s1) = gettime s;
             now \<leftarrow> now0;
             let res = timersub (ev_timeout v) now;
             let wall = (case os_realtime (os s1) (tick s1) of None \<Rightarrow> now | Some w \<Rightarrow> w);
             Some (flags AND scast event, Some (timeradd wall res), s1\<lparr>tick := tick s1 + 1\<rparr>) }
         else Some (flags AND scast event, None, s))"

text \<open>\<open>if (ev->ev_ncalls && ev->ev_pncalls) *ev->ev_pncalls = 0\<close>\<close>

definition clear_ncalls :: "'a event_core_scheme \<Rightarrow> eid \<Rightarrow> 'a event_core_scheme option" where
  "clear_ncalls s e =
     (case ev_pncalls (evs s e) of
        Some p \<Rightarrow> if ev_ncalls (evs s e) \<noteq> 0 then write_ncalls p 0 s else Some s
      | None \<Rightarrow> Some s)"

text \<open>The three parts of \<open>event_add\<close>: room in the heap, the backend, the timeout.\<close>

definition event_add_reserve :: "'a event_core_scheme \<Rightarrow> eid \<Rightarrow> timeval option \<Rightarrow> int \<times> 'a event_core_scheme" where
  "event_add_reserve s e tv =
     (if tv \<noteq> None \<and> \<not> has (ev_flags (evs s e)) EVLIST_TIMEOUT
      then (case min_heap_reserve_one (os_alloc (os s) (tick s)) (timeheap s) of
              (r, h) \<Rightarrow> (r, s\<lparr>timeheap := h, tick := tick s + 1\<rparr>))
      else (0, s))"

definition event_add_insert ::
  "('a event_core_scheme) eventop \<Rightarrow> 'a event_core_scheme \<Rightarrow> eid \<Rightarrow> (int \<times> 'a event_core_scheme) option" where
  "event_add_insert evsel s e =
     (if has (ev_events (evs s e)) (EV_READ OR EV_WRITE OR EV_SIGNAL)
         \<and> \<not> has (ev_flags (evs s e)) (EVLIST_INSERTED OR EVLIST_ACTIVE)
      then do {
        (res, s1) \<leftarrow> op_add evsel e s;
        if res \<noteq> -1
        then do { s2 \<leftarrow> event_queue_insert s1 e EVLIST_INSERTED; Some (res, s2) }
        else Some (res, s1) }
      else Some (0, s))"

definition event_add_timeout :: "'a event_core_scheme \<Rightarrow> eid \<Rightarrow> timeval \<Rightarrow> 'a event_core_scheme option" where
  "event_add_timeout s e tv =
     do {
       s1 \<leftarrow> (if has (ev_flags (evs s e)) EVLIST_TIMEOUT then event_queue_remove s e EVLIST_TIMEOUT else Some s);
       s2 \<leftarrow> (if has (ev_flags (evs s1 e)) EVLIST_ACTIVE \<and> has (ev_res (evs s1 e)) EV_TIMEOUT
               then do { s' \<leftarrow> clear_ncalls s1 e; event_queue_remove s' e EVLIST_ACTIVE }
               else Some s1);
       let (now0, s3) = gettime s2;
       now \<leftarrow> now0;
       event_queue_insert (upd_ev e (\<lambda>v. v\<lparr>ev_timeout := timeradd now tv\<rparr>) s3) e EVLIST_TIMEOUT }"

definition event_add ::
  "('a event_core_scheme) eventop \<Rightarrow> 'a event_core_scheme \<Rightarrow> eid \<Rightarrow> timeval option \<Rightarrow>
     (int \<times> 'a event_core_scheme) option" where
  "event_add evsel s e tv =
     (if ev_base (evs s e) = NullBase then None
      else if has (ev_flags (evs s e)) (NOT EVLIST_ALL) then None
      else case event_add_reserve s e tv of (r, s1) \<Rightarrow>
        if r = -1 then Some (-1, s1)
        else do {
          (res, s2) \<leftarrow> event_add_insert evsel s1 e;
          case tv of
            None \<Rightarrow> Some (res, s2)
          | Some t \<Rightarrow>
              if res = -1 then Some (res, s2)
              else do { s3 \<leftarrow> event_add_timeout s2 e t; Some (res, s3) } })"

definition event_del ::
  "('a event_core_scheme) eventop \<Rightarrow> 'a event_core_scheme \<Rightarrow> eid \<Rightarrow> (int \<times> 'a event_core_scheme) option" where
  "event_del evsel s e =
     (if ev_base (evs s e) = NullBase then Some (-1, s)
      else if has (ev_flags (evs s e)) (NOT EVLIST_ALL) then None
      else do {
        s1 \<leftarrow> clear_ncalls s e;
        s2 \<leftarrow> (if has (ev_flags (evs s1 e)) EVLIST_TIMEOUT then event_queue_remove s1 e EVLIST_TIMEOUT else Some s1);
        s3 \<leftarrow> (if has (ev_flags (evs s2 e)) EVLIST_ACTIVE then event_queue_remove s2 e EVLIST_ACTIVE else Some s2);
        if has (ev_flags (evs s3 e)) EVLIST_INSERTED
        then do { s4 \<leftarrow> event_queue_remove s3 e EVLIST_INSERTED; op_del evsel e s4 }
        else Some (0, s3) })"

definition event_active :: "'a event_core_scheme \<Rightarrow> eid \<Rightarrow> 32 word \<Rightarrow> 16 word \<Rightarrow> 'a event_core_scheme option" where
  "event_active s e res ncalls =
     (if has (ev_flags (evs s e)) EVLIST_ACTIVE
      then Some (upd_ev e (\<lambda>v. v\<lparr>ev_res := ev_res v OR res\<rparr>) s)
      else let s1 = upd_ev e (\<lambda>v. v\<lparr>ev_res := res, ev_ncalls := ncalls, ev_pncalls := None\<rparr>) s
           in if ev_base (evs s1 e) = NullBase then None else event_queue_insert s1 e EVLIST_ACTIVE)"

text \<open>
  \<open>event_base_priority_init\<close>: the queues are freed and allocated anew. A failed allocation is
  only logged, and the next statement writes through the null pointer.
\<close>

definition event_base_priority_init :: "'a event_core_scheme \<Rightarrow> int \<Rightarrow> (int \<times> 'a event_core_scheme) option" where
  "event_base_priority_init s npri =
     (if event_count_active s \<noteq> 0 then Some (-1, s)
      else if npri = nactivequeues s then Some (0, s)
      else if 0 < npri \<and> (\<not> os_alloc (os s) (tick s) (nat npri * sizeof_ptr) \<or>
                list_ex (\<lambda>i. \<not> os_alloc (os s) (tick s + 1 + i) 16) [0..<nat npri]) then None
      else Some (0, s\<lparr>nactivequeues := npri, aq_gen := aq_gen s + 1, tick := tick s + 1 + nat npri,
                      activequeues := fold tailq_init [0..<nat npri] (activequeues s)\<rparr>))"

definition event_base_once ::
  "('a event_core_scheme) eventop \<Rightarrow> 'a event_core_scheme \<Rightarrow> base_ptr \<Rightarrow> int \<Rightarrow> 16 word \<Rightarrow> callback \<Rightarrow> nat \<Rightarrow>
     timeval option \<Rightarrow> (int \<times> 'a event_core_scheme) option" where
  "event_base_once evsel s base fd events cb arg tv =
     (if has events EV_SIGNAL then Some (-1, s)
      else let s0 = s\<lparr>tick := tick s + 1\<rparr>
        in case os_calloc (os s) (tick s) of
          None \<Rightarrow> Some (-1, s0)
        | Some eo \<Rightarrow>
            let s1 = s0\<lparr>evs := (evs s0)(eo := zero_event),
                        onces := (onces s0)(eo := Some \<lparr>eo_cb = cb, eo_arg = arg\<rparr>)\<rparr>;
                free = (\<lambda>s. s\<lparr>onces := (onces s)(eo := None)\<rparr>)
            in if events = EV_TIMEOUT \<or> has events (EV_READ OR EV_WRITE) then do {
                 let tv' = (if events = EV_TIMEOUT \<and> tv = None then Some timerclear else tv);
                 let s2 = (if events = EV_TIMEOUT then evtimer_set s1 eo OnceCb eo
                           else event_set s1 eo fd (events AND (EV_READ OR EV_WRITE)) OnceCb eo);
                 (res, s3) \<leftarrow> event_base_set s2 base eo;
                 (res, s4) \<leftarrow> (if res = 0 then event_add evsel s3 eo tv' else Some (res, s3));
                 if res \<noteq> 0 then Some (res, free s4) else Some (0, s4) }
               else Some (-1, free s1))"

subsection \<open>The invariant under updates of other fields\<close>

lemma core_ok_cong:
  assumes "evs s' = evs s" "eventqueue s' = eventqueue s" "activequeues s' = activequeues s"
    "timeheap s' = timeheap s" "nactivequeues s' = nactivequeues s" "event_count s' = event_count s"
    "event_count_active s' = event_count_active s"
  shows "core_ok s' = core_ok s"
proof -
  have "deadline s' = deadline s" by (rule deadline_cong) (simp add: assms)
  then show ?thesis
    by (simp add: core_ok_def inserted_def active_def timed_def internal_def inq_def tmq_def actq_def
        pri_ok_def counted_def assms)
qed

lemma core_ok_updates [simp]:
  "core_ok (s\<lparr>frames := a\<rparr>) = core_ok s" "core_ok (s\<lparr>next_frame := b\<rparr>) = core_ok s"
  "core_ok (s\<lparr>tick := c\<rparr>) = core_ok s" "core_ok (s\<lparr>sig := d\<rparr>) = core_ok s"
  "core_ok (s\<lparr>evsignal_base := f\<rparr>) = core_ok s" "core_ok (s\<lparr>tv_cache := g\<rparr>) = core_ok s"
  "core_ok (s\<lparr>event_tv := g\<rparr>) = core_ok s" "core_ok (s\<lparr>event_gotterm := h\<rparr>) = core_ok s"
  "core_ok (s\<lparr>event_break := h\<rparr>) = core_ok s" "core_ok (s\<lparr>event_gotsig := h\<rparr>) = core_ok s"
  "core_ok (s\<lparr>onces := i\<rparr>) = core_ok s" "core_ok (s\<lparr>current_base := f\<rparr>) = core_ok s"
  "core_ok (event_core.more_update m s) = core_ok s"
  by (rule core_ok_cong; simp)+

lemma sel_updates [simp]:
  "inq (s\<lparr>frames := a\<rparr>) = inq s" "actq (s\<lparr>frames := a\<rparr>) = actq s" "tmq (s\<lparr>frames := a\<rparr>) = tmq s"
  "inq (s\<lparr>tick := c\<rparr>) = inq s" "actq (s\<lparr>tick := c\<rparr>) = actq s" "tmq (s\<lparr>tick := c\<rparr>) = tmq s"
  "inserted (s\<lparr>frames := a\<rparr>) = inserted s" "active (s\<lparr>frames := a\<rparr>) = active s" "timed (s\<lparr>frames := a\<rparr>) = timed s"
  "inserted (s\<lparr>tick := c\<rparr>) = inserted s" "active (s\<lparr>tick := c\<rparr>) = active s" "timed (s\<lparr>tick := c\<rparr>) = timed s"
  by (simp_all add: inq_def actq_def tmq_def inserted_def active_def timed_def fun_eq_iff)

lemma gettime_state:
  "snd (gettime s) = (if tv_sec (tv_cache s) \<noteq> 0 then s else s\<lparr>tick := tick s + 1\<rparr>)"
  by (simp add: gettime_def)

text \<open>The clocks work and give normalised times; the cached time is normalised.\<close>

definition clock_ok :: "'a event_core_scheme \<Rightarrow> bool" where
  "clock_ok s \<longleftrightarrow>
     (\<forall>n. \<exists>sec nsec. os_monotonic (os s) n = Some (sec, nsec) \<and> 0 \<le> nsec \<and> nsec < 1000000000) \<and>
     (\<forall>n. \<exists>t. os_realtime (os s) n = Some t \<and> tv_ok t) \<and> tv_ok (tv_cache s)"

lemma gettime_ok:
  assumes "clock_ok s"
  obtains t n where "gettime s = (Some t, s\<lparr>tick := n\<rparr>)" and "tv_ok t"
proof (cases "tv_sec (tv_cache s) = 0")
  case False
  then have "gettime s = (Some (tv_cache s), s\<lparr>tick := tick s\<rparr>)" by (simp add: gettime_def)
  moreover have "tv_ok (tv_cache s)" using assms by (simp add: clock_ok_def)
  ultimately show thesis by (rule that)
next
  case True
  obtain sec nsec where m: "os_monotonic (os s) (tick s) = Some (sec, nsec)" "0 \<le> nsec" "nsec < 1000000000"
    using assms unfolding clock_ok_def by blast
  obtain r where r: "os_realtime (os s) (tick s) = Some r" "tv_ok r"
    using assms unfolding clock_ok_def by blast
  have "0 \<le> nsec div 1000" "nsec div 1000 < 1000000" using m(2,3) by linarith+
  then have "tv_ok (Timeval sec (nsec div 1000))" by (simp add: tv_ok_def)
  with m(1) r have "\<exists>t. clock_now s = Some t \<and> tv_ok t" by (simp add: clock_now_def)
  then obtain t where "clock_now s = Some t" "tv_ok t" by blast
  then show thesis using that [of t "tick s + 1"] True by (simp add: gettime_def)
qed

lemma clear_ncalls_state:
  assumes "clear_ncalls s e = Some s'"
  obtains f where "s' = s\<lparr>frames := f\<rparr>" and "\<And>p. f p = None \<longleftrightarrow> frames s p = None"
proof (cases "s' = s")
  case True
  then show thesis using that [of "frames s"] by simp
next
  case False
  then obtain p v where "frames s p = Some v" "s' = s\<lparr>frames := (frames s)(p := Some 0)\<rparr>"
    using assms by (auto simp: clear_ncalls_def write_ncalls_def split: option.splits if_splits)
  then show thesis using that [of "(frames s)(p := Some 0)"] by simp
qed

subsection \<open>Updating one event\<close>

lemma upd_ev_sel [simp]:
  "evs (upd_ev e f s) = (evs s)(e := f (evs s e))" "inq (upd_ev e f s) = inq s" "actq (upd_ev e f s) = actq s"
  "tmq (upd_ev e f s) = tmq s" "eventqueue (upd_ev e f s) = eventqueue s" "timeheap (upd_ev e f s) = timeheap s"
  "activequeues (upd_ev e f s) = activequeues s" "tick (upd_ev e f s) = tick s"
  "nactivequeues (upd_ev e f s) = nactivequeues s" "rest (upd_ev e f s) = rest s"
  by (simp_all add: upd_ev_def inq_def actq_def tmq_def rest_def)

lemma upd_ev_queues_only [simp]:
  "queues_only s (upd_ev e f s)" "queues_only (upd_ev e f s) s' \<longleftrightarrow> queues_only s s'"
  by (simp_all add: queues_only_def)

lemma movesD:
  assumes "moves s e f s'"
  shows "core_ok s'" and "queues_only s s'" and "evs s' = with_flags e f s"
  using assms by (simp_all add: moves_def)

lemma with_flags_other [simp]: "x \<noteq> e \<Longrightarrow> with_flags e f s x = evs s x"
  and with_flags_same: "with_flags e f s e = (evs s e)\<lparr>ev_flags := f\<rparr>"
  by (simp_all add: with_flags_def)

text \<open>\<open>event_active\<close>: an active event only collects the new reason; any other is queued behind the
  events of its priority.\<close>

lemma event_active_again:
  assumes ok: "core_ok s" and e: "active s e"
  shows "event_active s e res n = Some (upd_ev e (\<lambda>v. v\<lparr>ev_res := ev_res v OR res\<rparr>) s)"
    and "core_ok (upd_ev e (\<lambda>v. v\<lparr>ev_res := ev_res v OR res\<rparr>) s)"
  using e core_ok_upd_ev [OF ok, of "\<lambda>v. v\<lparr>ev_res := ev_res v OR res\<rparr>" e]
  by (simp_all add: event_active_def active_def)

lemma event_active_queues:
  assumes ok: "core_ok s" and e: "\<not> active s e" and base: "ev_base (evs s e) = Base" and pri: "pri_ok s e"
  obtains s' where "event_active s e res n = Some s'" and "core_ok s'" and "queues_only s s'"
    and "evs s' = (evs s)(e := (evs s e)\<lparr>ev_res := res, ev_ncalls := n, ev_pncalls := None,
           ev_flags := ev_flags (evs s e) OR EVLIST_ACTIVE\<rparr>)"
    and "actq s' = (actq s)(nat (ev_pri (evs s e)) := actq s (nat (ev_pri (evs s e))) @ [e])"
    and "eventqueue s' = eventqueue s" and "timeheap s' = timeheap s" and "tick s' = tick s"
proof -
  let ?f = "\<lambda>v. v\<lparr>ev_res := res, ev_ncalls := n, ev_pncalls := None\<rparr>"
  have ok1: "core_ok (upd_ev e ?f s)" by (rule core_ok_upd_ev [OF ok]) simp_all
  obtain s' where s': "event_queue_insert (upd_ev e ?f s) e EVLIST_ACTIVE = Some s'"
    "moves (upd_ev e ?f s) e (ev_flags (evs s e) OR EVLIST_ACTIVE) s'"
    "actq s' = (actq s)(nat (ev_pri (evs s e)) := actq s (nat (ev_pri (evs s e))) @ [e])"
    "eventqueue s' = eventqueue s" "timeheap s' = timeheap s" "tick s' = tick s"
    using queue_insert_active [OF ok1, of e] e base pri
    by (auto simp: active_def pri_ok_def)
  show thesis
  proof (rule that [of s'])
    show "event_active s e res n = Some s'"
      using e s'(1) base by (simp add: event_active_def active_def)
    show "evs s' = (evs s)(e := (evs s e)\<lparr>ev_res := res, ev_ncalls := n, ev_pncalls := None,
        ev_flags := ev_flags (evs s e) OR EVLIST_ACTIVE\<rparr>)"
      using movesD(3) [OF s'(2)] by (simp add: with_flags_def)
  qed (use s' movesD [OF s'(2)] in simp_all)
qed

subsection \<open>Taking an event off a queue if it is on it\<close>

lemma clear_absent:
  "\<not> bit f 0 \<Longrightarrow> f AND NOT EVLIST_TIMEOUT = f" "\<not> bit f 1 \<Longrightarrow> f AND NOT EVLIST_INSERTED = f"
  "\<not> bit f 3 \<Longrightarrow> f AND NOT EVLIST_ACTIVE = f"
  by (rule bit_eqI; metis bit_flags_simps)+

lemma moves_refl: "core_ok s \<Longrightarrow> moves s e (ev_flags (evs s e)) s"
  by (simp add: moves_def with_flags_def)

lemma drop_timeout:
  assumes ok: "core_ok s"
  obtains s' where "(if has (ev_flags (evs s e)) EVLIST_TIMEOUT then event_queue_remove s e EVLIST_TIMEOUT
      else Some s) = Some s'"
    and "moves s e (ev_flags (evs s e) AND NOT EVLIST_TIMEOUT) s'" and "set (tmq s') = set (tmq s) - {e}"
    and "length (tmq s') \<le> length (tmq s)" and "timed s e \<Longrightarrow> length (tmq s') < length (tmq s)"
    and "timed s e \<Longrightarrow> heap_room (timeheap s') \<and> heap_reserved (timeheap s')"
    and "\<not> timed s e \<Longrightarrow> timeheap s' = timeheap s"
    and "eventqueue s' = eventqueue s" and "activequeues s' = activequeues s" and "tick s' = tick s"
proof (cases "timed s e")
  case True
  then obtain s' where s': "event_queue_remove s e EVLIST_TIMEOUT = Some s'"
    "moves s e (ev_flags (evs s e) AND NOT EVLIST_TIMEOUT) s'" "set (tmq s') = set (tmq s) - {e}"
    "length (tmq s') < length (tmq s)" "heap_room (timeheap s')" "heap_reserved (timeheap s')"
    "eventqueue s' = eventqueue s" "activequeues s' = activequeues s" "tick s' = tick s"
    by (rule queue_remove_timeout [OF ok])
  show thesis
    by (rule that [of s']) (use s' True in \<open>simp_all add: timed_def\<close>)
next
  case False
  then show thesis
    using that [of s] core_okD(5) [OF ok, of e] moves_refl [OF ok, of e]
    by (simp add: timed_def [unfolded flag_simps] clear_absent flag_simps)
qed

lemma drop_active:
  assumes ok: "core_ok s"
  obtains s' where "(if has (ev_flags (evs s e)) EVLIST_ACTIVE then event_queue_remove s e EVLIST_ACTIVE
      else Some s) = Some s'"
    and "moves s e (ev_flags (evs s e) AND NOT EVLIST_ACTIVE) s'"
    and "actq s' = (\<lambda>p. remove1 e (actq s p))"
    and "eventqueue s' = eventqueue s" and "timeheap s' = timeheap s" and "tick s' = tick s"
proof (cases "active s e")
  case True
  have "e \<notin> set (actq s p)" if "p \<noteq> nat (ev_pri (evs s e))" for p
    using that core_okD(6) [OF ok, of e p] by auto
  then have "(actq s)(nat (ev_pri (evs s e)) := remove1 e (actq s (nat (ev_pri (evs s e))))) =
      (\<lambda>p. remove1 e (actq s p))"
    by (auto simp: fun_eq_iff remove1_absent)
  moreover obtain s' where s': "event_queue_remove s e EVLIST_ACTIVE = Some s'"
    "moves s e (ev_flags (evs s e) AND NOT EVLIST_ACTIVE) s'"
    "actq s' = (actq s)(nat (ev_pri (evs s e)) := remove1 e (actq s (nat (ev_pri (evs s e)))))"
    "eventqueue s' = eventqueue s" "timeheap s' = timeheap s" "tick s' = tick s"
    by (rule queue_remove_active [OF ok True])
  ultimately show thesis
    by (intro that [of s']) (use True in \<open>simp_all add: active_def\<close>)
next
  case False
  then have "e \<notin> set (actq s p)" for p using core_okD(6) [OF ok, of e p] by simp
  then show thesis
    using that [of s] moves_refl [OF ok, of e] False
    by (simp add: active_def [unfolded flag_simps] clear_absent flag_simps remove1_absent)
qed

text \<open>\<open>event_del\<close>, up to the call of the backend.\<close>

definition off_queues :: "32 word \<Rightarrow> 32 word" where
  "off_queues f = ((f AND NOT EVLIST_TIMEOUT) AND NOT EVLIST_ACTIVE) AND NOT EVLIST_INSERTED"

lemma off_queues_simps [simp]:
  "bit (off_queues f) n \<longleftrightarrow> bit f n \<and> n \<noteq> 0 \<and> n \<noteq> 3 \<and> n \<noteq> 1" "flags_ok f \<Longrightarrow> flags_ok (off_queues f)"
  by (auto simp: off_queues_def)

end
