(* ===== verification/Backend.thy ===== *)
theory Backend
  imports EventOps
begin

text \<open>
  The contract between \<open>event.cpp\<close> and the backend behind \<open>struct eventop\<close>, as the locale
  \<open>event_backend\<close>, and what \<open>event_add\<close> and \<open>event_del\<close> do on any backend that keeps it. The theory \<open>Epoll\<close>
  proves the contract for \<open>epollops\<close>.
\<close>

subsection \<open>What a backend may look at and change\<close>

text \<open>The fields of an event a backend relies on while the event is inserted.\<close>

definition ev_view :: "event \<Rightarrow> base_ptr \<times> int \<times> 16 word \<times> bool" where
  "ev_view v = (ev_base v, ev_fd v, ev_events v, bit (ev_flags v) 4)"

text \<open>\<open>lib_frame\<close>: the part of the base and of the globals that adding and deleting events never changes.\<close>

definition lib_rest :: "'a event_core_scheme \<Rightarrow> _" where
  "lib_rest s = ((event_gotterm s, event_break s, nactivequeues s, event_tv s, tv_cache s, current_base s),
     (event_sigcb s, event_gotsig s, use_monotonic s, aq_gen s),
     (next_frame s, onces s, os s, \<lambda>p. frames s p = None))"

definition lib_frame :: "'a event_core_scheme \<Rightarrow> 'a event_core_scheme \<Rightarrow> bool" where
  "lib_frame s s' \<longleftrightarrow> lib_rest s' = lib_rest s"

lemma lib_frame_refl [simp]: "lib_frame s s"
  by (simp add: lib_frame_def)

lemma lib_frame_trans [trans]: "lib_frame s t \<Longrightarrow> lib_frame t u \<Longrightarrow> lib_frame s u"
  by (simp add: lib_frame_def)

lemma lib_frameD:
  assumes "lib_frame s s'"
  shows "event_gotterm s' = event_gotterm s" "event_break s' = event_break s"
    "nactivequeues s' = nactivequeues s" "event_tv s' = event_tv s"
    "tv_cache s' = tv_cache s" "current_base s' = current_base s" "event_sigcb s' = event_sigcb s"
    "event_gotsig s' = event_gotsig s" "use_monotonic s' = use_monotonic s" "aq_gen s' = aq_gen s"
    "next_frame s' = next_frame s" "onces s' = onces s" "os s' = os s"
    "frames s' p = None \<longleftrightarrow> frames s p = None"
  using assms by (simp_all add: lib_frame_def lib_rest_def fun_eq_iff)

lemma queues_only_lib: "queues_only s s' \<Longrightarrow> lib_frame s s'"
  by (simp add: lib_frame_def lib_rest_def queues_onlyD)

text \<open>
  \<open>add_frame own s s'\<close>: besides its own data a backend may, while it takes an event, insert an
  event of its own (\<open>evsignal_add\<close> adds \<open>ev_signal\<close>).
\<close>

definition add_frame :: "eid set \<Rightarrow> 'a event_core_scheme \<Rightarrow> 'a event_core_scheme \<Rightarrow> bool" where
  "add_frame own s s' \<longleftrightarrow> lib_frame s s' \<and> frames s' = frames s \<and>
     timeheap s' = timeheap s \<and> activequeues s' = activequeues s \<and> event_count_active s' = event_count_active s \<and>
     (\<forall>x. x \<notin> own \<longrightarrow> evs s' x = evs s x) \<and>
     (\<forall>x. evs s' x = evs s x \<or> evs s' x = (evs s x)\<lparr>ev_flags := ev_flags (evs s x) OR EVLIST_INSERTED\<rparr>) \<and>
     filter (\<lambda>x. x \<notin> own) (inq s') = filter (\<lambda>x. x \<notin> own) (inq s)"

text \<open>A backend's own events are active only while they are inserted, and have no timeout.\<close>

definition own_ok :: "eid set \<Rightarrow> 'a event_core_scheme \<Rightarrow> bool" where
  "own_ok own s \<longleftrightarrow> (\<forall>x\<in>own. (active s x \<longrightarrow> inserted s x) \<and> \<not> timed s x)"

definition del_frame :: "'a event_core_scheme \<Rightarrow> 'a event_core_scheme \<Rightarrow> bool" where
  "del_frame s s' \<longleftrightarrow> s' = s\<lparr>sig := sig s', event_core.more := event_core.more s'\<rparr>"

text \<open>
  The state after \<open>event_del\<close>: the event is off every queue and nothing else has changed, apart
  from the backend's data and the local variable that \<open>ev_pncalls\<close> pointed to.
\<close>

definition deleted :: "'a event_core_scheme \<Rightarrow> eid \<Rightarrow> 'a event_core_scheme \<Rightarrow> bool" where
  "deleted s e s' \<longleftrightarrow> lib_frame s s' \<and> evs s' = with_flags e (off_queues (ev_flags (evs s e))) s \<and>
     inq s' = remove1 e (inq s) \<and> actq s' = (\<lambda>p. remove1 e (actq s p)) \<and> set (tmq s') = set (tmq s) - {e} \<and>
     length (tmq s') \<le> length (tmq s) \<and> (timed s e \<longrightarrow> length (tmq s') < length (tmq s)) \<and>
     tick s' = tick s \<and> evsignal_base s' = evsignal_base s \<and>
     (\<not> inserted s e \<longrightarrow> sig s' = sig s \<and> event_core.more s' = event_core.more s) \<and>
     (ev_pncalls (evs s e) = None \<or> ev_ncalls (evs s e) = 0 \<longrightarrow> frames s' = frames s)"

lemma frames_lib: "(\<And>p. f p = None \<longleftrightarrow> frames s p = None) \<Longrightarrow> lib_frame s (s\<lparr>frames := f\<rparr>)"
  by (simp add: lib_frame_def lib_rest_def)

text \<open>\<open>event_del\<close> up to the call of the backend.\<close>

lemma event_del_queues:
  assumes ok: "core_ok s" and base: "ev_base (evs s e) = Base" and safe: "clear_ncalls s e \<noteq> None"
  obtains s' where "core_ok s'" and "deleted s e s'" and "sig s' = sig s"
    and "event_core.more s' = event_core.more s"
    and "event_del ops s e = (if inserted s e then op_del ops e s' else Some (0, s'))"
proof -
  obtain s1 where c: "clear_ncalls s e = Some s1" using safe by blast
  then obtain f where s1: "s1 = s\<lparr>frames := f\<rparr>" "lib_frame s s1"
    by (rule clear_ncalls_state) (simp add: frames_lib)
  have fr1: "frames s1 = frames s" if "ev_pncalls (evs s e) = None \<or> ev_ncalls (evs s e) = 0"
    using c that by (auto simp: clear_ncalls_def split: option.splits)
  have ok1: "core_ok s1" using ok by (simp add: s1(1))
  obtain s2 where s2: "(if has (ev_flags (evs s1 e)) EVLIST_TIMEOUT then event_queue_remove s1 e EVLIST_TIMEOUT
      else Some s1) = Some s2" "moves s1 e (ev_flags (evs s1 e) AND NOT EVLIST_TIMEOUT) s2"
    "set (tmq s2) = set (tmq s1) - {e}" "length (tmq s2) \<le> length (tmq s1)"
    "timed s1 e \<Longrightarrow> length (tmq s2) < length (tmq s1)"
    "eventqueue s2 = eventqueue s1" "activequeues s2 = activequeues s1" "tick s2 = tick s1"
    by (rule drop_timeout [OF ok1, of e]) blast
  obtain s3 where s3: "(if has (ev_flags (evs s2 e)) EVLIST_ACTIVE then event_queue_remove s2 e EVLIST_ACTIVE
      else Some s2) = Some s3" "moves s2 e (ev_flags (evs s2 e) AND NOT EVLIST_ACTIVE) s3"
    "actq s3 = (\<lambda>p. remove1 e (actq s2 p))" "eventqueue s3 = eventqueue s2" "timeheap s3 = timeheap s2"
    "tick s3 = tick s2"
    by (rule drop_active [OF movesD(1) [OF s2(2)], of e])
  note M2 = movesD [OF s2(2)] and M3 = movesD [OF s3(2)]
  have flags3: "evs s3 = with_flags e ((ev_flags (evs s e) AND NOT EVLIST_TIMEOUT) AND NOT EVLIST_ACTIVE) s"
    using M2(3) M3(3) by (simp add: s1(1) with_flags_def)
  have ins3: "has (ev_flags (evs s3 e)) EVLIST_INSERTED \<longleftrightarrow> inserted s e"
    by (simp add: flags3 flag_simps flags_bit)
  have q3: "inq s3 = inq s" "actq s3 = (\<lambda>p. remove1 e (actq s p))" "set (tmq s3) = set (tmq s) - {e}"
    "length (tmq s3) \<le> length (tmq s)" "timed s e \<Longrightarrow> length (tmq s3) < length (tmq s)" "tick s3 = tick s"
    using s2 s3 by (simp_all add: inq_def actq_def tmq_def s1(1) timed_def)
  have lib3: "lib_frame s s3"
    using s1(2) queues_only_lib [OF M2(2)] queues_only_lib [OF M3(2)] lib_frame_trans by blast
  have rest3: "sig s3 = sig s" "event_core.more s3 = event_core.more s" "evsignal_base s3 = evsignal_base s"
    using queues_onlyD [OF M2(2)] queues_onlyD [OF M3(2)] by (simp_all add: s1(1))
  have fr3: "frames s3 = frames s" if "ev_pncalls (evs s e) = None \<or> ev_ncalls (evs s e) = 0"
    using queues_onlyD(13) [OF M2(2)] queues_onlyD(13) [OF M3(2)] fr1 [OF that] by simp
  have del: "event_del ops s e = (if inserted s e
      then do { s4 \<leftarrow> event_queue_remove s3 e EVLIST_INSERTED; op_del ops e s4 } else Some (0, s3))"
    using base core_okD(10) [OF ok, of e] c s2(1) s3(1) ins3
    by (simp add: event_del_def flags_ok_def)
  show thesis
  proof (cases "inserted s e")
    case False
    have "off_queues (ev_flags (evs s e)) = (ev_flags (evs s e) AND NOT EVLIST_TIMEOUT) AND NOT EVLIST_ACTIVE"
      unfolding off_queues_def using False by (intro clear_absent) (simp add: flags_bit)
    moreover have "e \<notin> set (inq s)" using core_okD(4) [OF ok] False by blast
    ultimately have "deleted s e s3"
      using q3 lib3 rest3 flags3 fr3 by (simp add: deleted_def remove1_absent)
    then show thesis using that [of s3] M3(1) rest3 del False by simp
  next
    case True
    then have "inserted s3 e" using ins3 by (simp add: inserted_def)
    then obtain s4 where s4: "event_queue_remove s3 e EVLIST_INSERTED = Some s4"
      "moves s3 e (ev_flags (evs s3 e) AND NOT EVLIST_INSERTED) s4" "inq s4 = remove1 e (inq s3)"
      "activequeues s4 = activequeues s3" "timeheap s4 = timeheap s3" "tick s4 = tick s3"
      by (rule queue_remove_inserted [OF M3(1)])
    note M4 = movesD [OF s4(2)]
    have "evs s4 = with_flags e (off_queues (ev_flags (evs s e))) s"
      using M4(3) flags3 by (simp add: with_flags_def off_queues_def)
    moreover have "actq s4 = actq s3" "tmq s4 = tmq s3" using s4 by (simp_all add: actq_def tmq_def)
    ultimately have "deleted s e s4"
      using q3 s4(3,6) True queues_onlyD [OF M4(2)] rest3 fr3 lib_frame_trans [OF lib3 queues_only_lib [OF M4(2)]]
      by (simp add: deleted_def)
    then show thesis
      using that [of s4] M4(1) queues_onlyD [OF M4(2)] rest3 del True s4(1) by simp
  qed
qed

subsection \<open>The parts of \<open>event_add\<close>\<close>

lemma event_add_reserve_ok:
  assumes ok: "core_ok s" and room: "tv \<noteq> None \<Longrightarrow> heap_room (timeheap s)"
  obtains r h n where "event_add_reserve s e tv = (r, s\<lparr>timeheap := h, tick := n\<rparr>)"
    and "core_ok (s\<lparr>timeheap := h, tick := n\<rparr>)" and "helems h = tmq s" and "r = 0 \<or> r = -1 \<and> h = timeheap s"
    and "r = 0 \<Longrightarrow> tv \<noteq> None \<Longrightarrow> \<not> timed s e \<Longrightarrow> heap_room h \<and> heap_reserved h"
proof (cases "tv \<noteq> None \<and> \<not> timed s e")
  case False
  then have "event_add_reserve s e tv = (0, s\<lparr>timeheap := timeheap s, tick := tick s\<rparr>)"
    by (auto simp: event_add_reserve_def timed_def)
  then show thesis
    by (rule that) (use ok False in \<open>simp_all add: tmq_def\<close>)
next
  case True
  obtain r h where rh: "min_heap_reserve_one (os_alloc (os s) (tick s)) (timeheap s) = (r, h)" by fastforce
  note h = heapq.reserve_one [OF core_okD(3) [OF ok] room rh]
  have "event_add_reserve s e tv = (r, s\<lparr>timeheap := h, tick := tick s + 1\<rparr>)"
    using True rh by (simp add: event_add_reserve_def timed_def)
  moreover have "core_ok (s\<lparr>timeheap := h, tick := tick s + 1\<rparr>)"
  proof -
    have "core_ok (s\<lparr>timeheap := h\<rparr>)"
      by (rule core_ok_change [OF ok, of _ 0 "evs s 0"])
        (use core_okD [OF ok] on_queue [OF ok] h True in
          \<open>auto simp: inq_def tmq_def actq_def flags_bit pri_ok_def deadline_def [abs_def] cong: deadline_cong\<close>)
    then show ?thesis by (simp add: core_ok_cong [of "s\<lparr>timeheap := h, tick := tick s + 1\<rparr>" "s\<lparr>timeheap := h\<rparr>"])
  qed
  ultimately show thesis
    by (rule that) (use h True in \<open>auto simp: tmq_def\<close>)
qed

lemma clear_set_timeout: "(f AND NOT EVLIST_TIMEOUT) OR EVLIST_TIMEOUT = f OR EVLIST_TIMEOUT"
  "((f AND NOT EVLIST_TIMEOUT) AND NOT EVLIST_ACTIVE) OR EVLIST_TIMEOUT =
    (f AND NOT EVLIST_ACTIVE) OR EVLIST_TIMEOUT"
  by (rule bit_eqI; auto)+

text \<open>Whether a new timeout cancels the pending activation of an event: it was active for a timeout.\<close>

definition timed_out :: "'a event_core_scheme \<Rightarrow> eid \<Rightarrow> bool" where
  "timed_out s e \<longleftrightarrow> active s e \<and> has (ev_res (evs s e)) EV_TIMEOUT"

text \<open>The state after the timeout part of \<open>event_add\<close>, with \<open>now\<close> the time read.\<close>

definition timeout_set :: "'a event_core_scheme \<Rightarrow> eid \<Rightarrow> timeval \<Rightarrow> timeval \<Rightarrow> 'a event_core_scheme \<Rightarrow> bool" where
  "timeout_set s e tv now s' \<longleftrightarrow> lib_frame s s' \<and> sig s' = sig s \<and> event_core.more s' = event_core.more s \<and>
     evsignal_base s' = evsignal_base s \<and>
     evs s' = (evs s)(e := (evs s e)\<lparr>ev_timeout := timeradd now tv,
       ev_flags := (if timed_out s e then ev_flags (evs s e) AND NOT EVLIST_ACTIVE else ev_flags (evs s e)) OR EVLIST_TIMEOUT\<rparr>) \<and>
     inq s' = inq s \<and> actq s' = (if timed_out s e then (\<lambda>p. remove1 e (actq s p)) else actq s) \<and>
     set (tmq s') = insert e (set (tmq s)) \<and> tv_ok now \<and> (\<exists>n. fst (gettime (s\<lparr>tick := n\<rparr>)) = Some now)"

lemma gettime_frames: "fst (gettime (s\<lparr>frames := f\<rparr>)) = fst (gettime s)"
  by (simp add: gettime_def clock_now_def)

lemma gettime_lib: "lib_frame s s' \<Longrightarrow> fst (gettime (s'\<lparr>tick := n\<rparr>)) = fst (gettime (s\<lparr>tick := n\<rparr>))"
  by (simp add: gettime_def clock_now_def lib_frameD)

lemma clock_ok_lib: "lib_frame s s' \<Longrightarrow> clock_ok s' = clock_ok s"
  by (simp add: clock_ok_def lib_frameD)

lemma event_add_timeout_ok:
  assumes ok: "core_ok s" and base: "ev_base (evs s e) = Base" and clock: "clock_ok s"
    and room: "\<not> timed s e \<Longrightarrow> heap_room (timeheap s) \<and> heap_reserved (timeheap s)"
    and safe: "timed_out s e \<Longrightarrow> clear_ncalls s e \<noteq> None"
  obtains s' now where "event_add_timeout s e tv = Some s'" and "core_ok s'" and "timeout_set s e tv now s'"
proof -
  obtain s1 where s1: "(if has (ev_flags (evs s e)) EVLIST_TIMEOUT then event_queue_remove s e EVLIST_TIMEOUT
      else Some s) = Some s1" "moves s e (ev_flags (evs s e) AND NOT EVLIST_TIMEOUT) s1"
    "set (tmq s1) = set (tmq s) - {e}" "timed s e \<Longrightarrow> heap_room (timeheap s1) \<and> heap_reserved (timeheap s1)"
    "\<not> timed s e \<Longrightarrow> timeheap s1 = timeheap s"
    "eventqueue s1 = eventqueue s" "activequeues s1 = activequeues s" "tick s1 = tick s"
    by (rule drop_timeout [OF ok, of e]) blast
  note M1 = movesD [OF s1(2)]
  have room1: "heap_room (timeheap s1) \<and> heap_reserved (timeheap s1)"
    using s1(4,5) room by (cases "timed s e") auto
  have cond: "has (ev_flags (evs s1 e)) EVLIST_ACTIVE \<and> has (ev_res (evs s1 e)) EV_TIMEOUT \<longleftrightarrow> timed_out s e"
    by (simp add: M1(3) timed_out_def active_def with_flags_def) (simp add: flag_simps)
  have "\<exists>s2. (if timed_out s e then do { s' \<leftarrow> clear_ncalls s1 e; event_queue_remove s' e EVLIST_ACTIVE } else Some s1)
        = Some s2 \<and> core_ok s2 \<and> lib_frame s1 s2 \<and> sig s2 = sig s1 \<and> event_core.more s2 = event_core.more s1 \<and>
      evsignal_base s2 = evsignal_base s1 \<and>
      evs s2 = with_flags e (if timed_out s e then ev_flags (evs s1 e) AND NOT EVLIST_ACTIVE else ev_flags (evs s1 e)) s1 \<and>
      actq s2 = (if timed_out s e then (\<lambda>p. remove1 e (actq s1 p)) else actq s1) \<and>
      eventqueue s2 = eventqueue s1 \<and> timeheap s2 = timeheap s1"
  proof (cases "timed_out s e")
    case False
    then show ?thesis using M1(1) moves_refl [OF M1(1), of e] by (simp add: moves_def)
  next
    case True
    have "clear_ncalls s1 e \<noteq> None"
      using safe [OF True] queues_onlyD [OF M1(2)] M1(3)
      by (auto simp: clear_ncalls_def write_ncalls_def with_flags_def split: option.splits if_splits)
    then obtain s' where c: "clear_ncalls s1 e = Some s'" by blast
    then obtain f where s': "s' = s1\<lparr>frames := f\<rparr>" "lib_frame s1 s'"
      by (rule clear_ncalls_state) (simp add: frames_lib)
    have ok': "core_ok s'" using M1(1) by (simp add: s'(1))
    have act': "active s' e" using cond True by (simp add: s'(1) active_def)
    obtain s2 where s2: "event_queue_remove s' e EVLIST_ACTIVE = Some s2"
      "moves s' e (ev_flags (evs s' e) AND NOT EVLIST_ACTIVE) s2" "actq s2 = (\<lambda>p. remove1 e (actq s' p))"
      "eventqueue s2 = eventqueue s'" "timeheap s2 = timeheap s'"
      using drop_active [OF ok', of e] act' by (auto simp: active_def)
    note M2 = movesD [OF s2(2)]
    have "lib_frame s1 s2" using s'(2) queues_only_lib [OF M2(2)] lib_frame_trans by blast
    then show ?thesis
      using True c s2(1,3-5) M2(1,3) queues_onlyD [OF M2(2)] by (simp add: s'(1) with_flags_def)
  qed
  then obtain s2 where s2: "(if timed_out s e then do { s' \<leftarrow> clear_ncalls s1 e; event_queue_remove s' e EVLIST_ACTIVE }
      else Some s1) = Some s2" "core_ok s2" "lib_frame s1 s2" "sig s2 = sig s1" "event_core.more s2 = event_core.more s1"
    "evsignal_base s2 = evsignal_base s1"
    "evs s2 = with_flags e (if timed_out s e then ev_flags (evs s1 e) AND NOT EVLIST_ACTIVE else ev_flags (evs s1 e)) s1"
    "actq s2 = (if timed_out s e then (\<lambda>p. remove1 e (actq s1 p)) else actq s1)"
    "eventqueue s2 = eventqueue s1" "timeheap s2 = timeheap s1"
    by blast
  have lib2: "lib_frame s s2" using queues_only_lib [OF M1(2)] s2(3) lib_frame_trans by blast
  have "clock_ok s2" using clock clock_ok_lib [OF lib2] by simp
  then obtain now n where now: "gettime s2 = (Some now, s2\<lparr>tick := n\<rparr>)" "tv_ok now" by (rule gettime_ok)
  let ?v = "\<lambda>v. v\<lparr>ev_timeout := timeradd now tv\<rparr>"
  let ?s3 = "upd_ev e ?v (s2\<lparr>tick := n\<rparr>)"
  have nt: "\<not> timed s2 e" by (simp add: s2(7) M1(3) flags_bit)
  have ok3: "core_ok ?s3"
    by (rule core_ok_upd_ev) (use s2(2) nt in simp_all)
  have "ev_base (evs ?s3 e) = Base" using base by (simp add: s2(7) M1(3))
  then obtain s4 where s4: "event_queue_insert ?s3 e EVLIST_TIMEOUT = Some s4"
    "moves ?s3 e (ev_flags (evs ?s3 e) OR EVLIST_TIMEOUT) s4" "set (tmq s4) = insert e (set (tmq ?s3))"
    "eventqueue s4 = eventqueue ?s3" "activequeues s4 = activequeues ?s3"
    using queue_insert_timeout [OF ok3, of e] nt room1 by (auto simp: timed_def s2(10))
  note M4 = movesD [OF s4(2)]
  have "event_add_timeout s e tv = Some s4"
    using s1(1) cond s2(1) now(1) s4(1) by (simp add: event_add_timeout_def)
  moreover have "timeout_set s e tv now s4"
    unfolding timeout_set_def
  proof (intro conjI)
    have "lib_frame s2 ?s3" by (simp add: lib_frame_def lib_rest_def upd_ev_def)
    then show "lib_frame s s4" using lib2 queues_only_lib [OF M4(2)] lib_frame_trans by blast
    show "sig s4 = sig s" "event_core.more s4 = event_core.more s" "evsignal_base s4 = evsignal_base s"
      using queues_onlyD [OF M4(2)] queues_onlyD [OF M1(2)] s2(4-6) by (simp_all add: upd_ev_def)
    show "evs s4 = (evs s)(e := (evs s e)\<lparr>ev_timeout := timeradd now tv,
       ev_flags := (if timed_out s e then ev_flags (evs s e) AND NOT EVLIST_ACTIVE else ev_flags (evs s e)) OR EVLIST_TIMEOUT\<rparr>)"
      using M4(3) by (simp add: s2(7) M1(3) with_flags_def clear_set_timeout)
    show "inq s4 = inq s" using s4(4) s2(9) s1(6) by (simp add: inq_def)
    show "actq s4 = (if timed_out s e then (\<lambda>p. remove1 e (actq s p)) else actq s)"
      using s4(5) s2(8) s1(7) by (auto simp: actq_def)
    show "set (tmq s4) = insert e (set (tmq s))" using s4(3) s2(10) s1(3) by (auto simp: tmq_def)
    show "tv_ok now" by (rule now(2))
    have "fst (gettime (s2\<lparr>tick := tick s2\<rparr>)) = Some now" using now(1) by simp
    then show "\<exists>n. fst (gettime (s\<lparr>tick := n\<rparr>)) = Some now" using gettime_lib [OF lib2] by metis
  qed
  ultimately show thesis using that M4(1) by blast
qed

text \<open>Whether \<open>event_add\<close> hands the event to the backend.\<close>

definition wants_io :: "event \<Rightarrow> bool" where
  "wants_io v \<longleftrightarrow> has (ev_events v) (EV_READ OR EV_WRITE OR EV_SIGNAL)"

text \<open>
  The state after a successful \<open>event_add\<close>: the event is inserted if it waits for a descriptor or
  a signal and is not active; with a timeout it is in the heap under the new deadline, and no
  longer active if it was active for its previous timeout. No other event has changed.
\<close>

definition added :: "eid set \<Rightarrow> 'a event_core_scheme \<Rightarrow> eid \<Rightarrow> timeval option \<Rightarrow> 'a event_core_scheme \<Rightarrow> bool" where
  "added own s e tv s' \<longleftrightarrow>
     (let f = ev_flags (evs s e);
          f1 = (if wants_io (evs s e) \<and> \<not> active s e then f OR EVLIST_INSERTED else f)
      in (case tv of
            None \<Rightarrow> evs s' e = (evs s e)\<lparr>ev_flags := f1\<rparr> \<and> actq s' = actq s \<and> set (tmq s') = set (tmq s)
          | Some t \<Rightarrow> (\<exists>now n. tv_ok now \<and> fst (gettime (s\<lparr>tick := n\<rparr>)) = Some now \<and>
              evs s' e = (evs s e)\<lparr>ev_timeout := timeradd now t,
                ev_flags := (if timed_out s e then f1 AND NOT EVLIST_ACTIVE else f1) OR EVLIST_TIMEOUT\<rparr>) \<and>
              actq s' = (if timed_out s e then (\<lambda>p. remove1 e (actq s p)) else actq s) \<and>
              set (tmq s') = insert e (set (tmq s)))) \<and>
     (\<forall>x. x \<noteq> e \<and> x \<notin> own \<longrightarrow> evs s' x = evs s x) \<and>
     filter (\<lambda>x. x \<notin> own) (inq s') = filter (\<lambda>x. x \<notin> own) (inq s) @
       (if wants_io (evs s e) \<and> \<not> inserted s e \<and> \<not> active s e then [e] else [])"

lemma set_absent: "bit f 1 \<Longrightarrow> f OR EVLIST_INSERTED = f"
  by (rule bit_eqI) auto

text \<open>
  \<open>binv s I\<close> is the backend's invariant when it has been given exactly the events \<open>I\<close>; \<open>own s\<close> are
  its own events; \<open>fit\<close> says which events it accepts.
\<close>

locale event_backend =
  fixes ops :: "('a event_core_scheme) eventop"
    and binv :: "'a event_core_scheme \<Rightarrow> eid set \<Rightarrow> bool"
    and own :: "'a event_core_scheme \<Rightarrow> eid set"
    and fit :: "event \<Rightarrow> bool"
  assumes stable: "binv s I \<Longrightarrow> sig s' = sig s \<Longrightarrow> event_core.more s' = event_core.more s \<Longrightarrow>
      (\<And>x. x \<in> I \<union> own s \<Longrightarrow> ev_view (evs s' x) = ev_view (evs s x)) \<Longrightarrow> binv s' I \<and> own s' = own s"
    and fit_view: "ev_view v = ev_view w \<Longrightarrow> fit v = fit w"
    and add_ok: "core_ok s \<Longrightarrow> binv s {x. inserted s x} \<Longrightarrow> ev_base (evs s e) = Base \<Longrightarrow>
      \<not> inserted s e \<Longrightarrow> \<not> active s e \<Longrightarrow> e \<notin> own s \<Longrightarrow> fit (evs s e) \<Longrightarrow>
      has (ev_events (evs s e)) (EV_READ OR EV_WRITE OR EV_SIGNAL) \<Longrightarrow> own_ok (own s) s \<Longrightarrow>
      \<exists>r s'. op_add ops e s = Some (r, s') \<and> core_ok s' \<and> add_frame (own s) s s' \<and> own s' = own s \<and>
        binv s' ({x. inserted s' x} \<union> (if r = -1 then {} else {e}))"
    and del_ok: "core_ok s \<Longrightarrow> \<not> inserted s e \<Longrightarrow> binv s (insert e {x. inserted s x}) \<Longrightarrow>
      \<exists>r s'. op_del ops e s = Some (r, s') \<and> del_frame s s' \<and> own s' = own s \<and> binv s' {x. inserted s x}"
begin

lemma stable_moves:
  assumes "binv s I" and "moves s e f s'" and "bit f 4 \<longleftrightarrow> bit (ev_flags (evs s e)) 4"
  shows "binv s' I" and "own s' = own s"
proof -
  have "ev_view (evs s' x) = ev_view (evs s x)" for x
    using movesD(3) [OF assms(2)] assms(3) by (simp add: ev_view_def with_flags_def)
  then show "binv s' I" "own s' = own s"
    using stable [OF assms(1), of s'] queues_onlyD [OF movesD(2) [OF assms(2)]] by auto
qed

text \<open>\<open>event_del\<close> never fails to return and takes the event off everything.\<close>

lemma event_del_backend:
  assumes ok: "core_ok s" and binv: "binv s {x. inserted s x}" and base: "ev_base (evs s e) = Base"
    and safe: "clear_ncalls s e \<noteq> None"
  obtains r s' where "event_del ops s e = Some (r, s')" and "core_ok s'" and "binv s' {x. inserted s' x}"
    and "own s' = own s" and "deleted s e s'"
proof -
  obtain s1 where s1: "core_ok s1" "deleted s e s1" "sig s1 = sig s" "event_core.more s1 = event_core.more s"
    "event_del ops s e = (if inserted s e then op_del ops e s1 else Some (0, s1))"
    by (rule event_del_queues [OF ok base safe])
  have evs1: "evs s1 = with_flags e (off_queues (ev_flags (evs s e))) s"
    using s1(2) by (simp add: deleted_def)
  have "ev_view (evs s1 x) = ev_view (evs s x)" for x by (simp add: evs1 ev_view_def with_flags_def)
  then have b1: "binv s1 {x. inserted s x}" "own s1 = own s"
    using stable [OF binv s1(3,4)] by auto
  have ins1: "inserted s1 x \<longleftrightarrow> inserted s x \<and> x \<noteq> e" for x
    by (simp add: evs1 flags_bit)
  show thesis
  proof (cases "inserted s e")
    case False
    then have "{x. inserted s1 x} = {x. inserted s x}" using ins1 by auto
    then show thesis using that [of 0 s1] s1 b1 False by simp
  next
    case True
    then have "insert e {x. inserted s1 x} = {x. inserted s x}" using ins1 by auto
    then obtain r s2 where s2: "op_del ops e s1 = Some (r, s2)" "del_frame s1 s2" "own s2 = own s1"
      "binv s2 {x. inserted s1 x}"
      using del_ok [OF s1(1), of e] ins1 b1(1) by auto
    obtain g m where s2': "s2 = s1\<lparr>sig := g, event_core.more := m\<rparr>"
      using s2(2) unfolding del_frame_def by blast
    have "core_ok s2 = core_ok s1" by (rule core_ok_cong) (simp_all add: s2')
    moreover have "inserted s2 = inserted s1" by (simp add: s2' inserted_def fun_eq_iff)
    moreover have "deleted s e s2"
      using s1(2) True
      by (simp add: deleted_def s2' lib_frame_def lib_rest_def inq_def actq_def tmq_def)
    ultimately show thesis using that [of r s2] s1 s2 b1 True by simp
  qed
qed

lemma own_ok_add_frame:
  assumes "own_ok X s" and "add_frame Y s s'"
  shows "own_ok X s'"
proof -
  have "evs s' x = evs s x \<or> evs s' x = (evs s x)\<lparr>ev_flags := ev_flags (evs s x) OR EVLIST_INSERTED\<rparr>" for x
    using assms(2) by (simp add: add_frame_def)
  note keep = this
  have "bit (ev_flags (evs s' x)) 3 = bit (ev_flags (evs s x)) 3 \<and>
      bit (ev_flags (evs s' x)) 0 = bit (ev_flags (evs s x)) 0 \<and>
      (bit (ev_flags (evs s x)) 1 \<longrightarrow> bit (ev_flags (evs s' x)) 1)" for x
    using keep [of x] by (elim disjE) simp_all
  then show ?thesis using assms(1) by (simp add: own_ok_def flags_bit)
qed

lemma own_ok_cong: "(\<And>x. x \<in> X \<Longrightarrow> evs s' x = evs s x) \<Longrightarrow> own_ok X s' = own_ok X s"
  by (simp add: own_ok_def flags_bit)

lemma own_ok_update: "e \<notin> X \<Longrightarrow> evs s' = (evs s)(e := v) \<Longrightarrow> own_ok X s' = own_ok X s"
  by (rule own_ok_cong) auto

lemma event_add_insert_ok:
  assumes ok: "core_ok s" and binv: "binv s {x. inserted s x}" and base: "ev_base (evs s e) = Base"
    and own: "e \<notin> own s" and fit: "wants_io (evs s e) \<Longrightarrow> fit (evs s e)" and own_ok: "own_ok (own s) s"
  obtains r s' where "event_add_insert ops s e = Some (r, s')" and "core_ok s'" and "binv s' {x. inserted s' x}"
    and "own s' = own s" and "lib_frame s s'" and "frames s' = frames s" and "timeheap s' = timeheap s"
    and "activequeues s' = activequeues s" and "\<And>x. x \<noteq> e \<Longrightarrow> x \<notin> own s \<Longrightarrow> evs s' x = evs s x"
    and "evs s' e = (if r \<noteq> -1 \<and> wants_io (evs s e) \<and> \<not> active s e
          then (evs s e)\<lparr>ev_flags := ev_flags (evs s e) OR EVLIST_INSERTED\<rparr> else evs s e)"
    and "filter (\<lambda>x. x \<notin> own s) (inq s') = filter (\<lambda>x. x \<notin> own s) (inq s) @
          (if r \<noteq> -1 \<and> wants_io (evs s e) \<and> \<not> inserted s e \<and> \<not> active s e then [e] else [])"
    and "own_ok (own s) s'"
proof (cases "wants_io (evs s e) \<and> \<not> inserted s e \<and> \<not> active s e")
  case False
  then have "event_add_insert ops s e = Some (0, s)"
    by (auto simp: event_add_insert_def has_or [of _ EVLIST_INSERTED] wants_io_def inserted_def active_def)
  then show thesis
    by (rule that) (use assms False in \<open>auto simp: set_absent flags_bit\<close>)
next
  case True
  then obtain r s1 where s1: "op_add ops e s = Some (r, s1)" "core_ok s1" "add_frame (own s) s s1" "own s1 = own s"
    "binv s1 ({x. inserted s1 x} \<union> (if r = -1 then {} else {e}))"
    using add_ok [OF ok binv base _ _ own _ _ own_ok] fit by (auto simp: wants_io_def)
  have own1: "own_ok (own s) s1" using own_ok_add_frame [OF own_ok s1(3)] .
  have e1: "evs s1 e = evs s e" and f1: "filter (\<lambda>x. x \<notin> own s) (inq s1) = filter (\<lambda>x. x \<notin> own s) (inq s)"
    and o1: "\<And>x. x \<notin> own s \<Longrightarrow> evs s1 x = evs s x"
    using s1(3) own by (simp_all add: add_frame_def)
  have same: "lib_frame s s1" "frames s1 = frames s" "timeheap s1 = timeheap s" "activequeues s1 = activequeues s"
    using s1(3) by (simp_all add: add_frame_def)
  have add: "event_add_insert ops s e = (if r \<noteq> -1
      then do { s2 \<leftarrow> event_queue_insert s1 e EVLIST_INSERTED; Some (r, s2) } else Some (r, s1))"
    using True s1(1)
    by (simp add: event_add_insert_def has_or [of _ EVLIST_INSERTED] wants_io_def inserted_def active_def)
  show thesis
  proof (cases "r = -1")
    case r: True
    then show thesis
      by (intro that [of r s1]) (use True add s1 e1 f1 o1 same own1 in \<open>simp_all\<close>)
  next
    case r: False
    have "\<not> inserted s1 e" using True e1 by (simp add: inserted_def)
    then obtain s2 where s2: "event_queue_insert s1 e EVLIST_INSERTED = Some s2"
      "moves s1 e (ev_flags (evs s1 e) OR EVLIST_INSERTED) s2" "inq s2 = inq s1 @ [e]"
      "activequeues s2 = activequeues s1" "timeheap s2 = timeheap s1"
      using base e1 by (elim queue_insert_inserted [OF s1(2), of e]) auto
    note M2 = movesD [OF s2(2)]
    have b2: "binv s2 ({x. inserted s1 x} \<union> {e})" "own s2 = own s1"
      using stable_moves [OF _ s2(2)] s1(5) r by auto
    have "{x. inserted s2 x} = {x. inserted s1 x} \<union> {e}" by (auto simp: M2(3) flags_bit)
    then have b2': "binv s2 {x. inserted s2 x}" using b2(1) by simp
    have own2: "own_ok (own s) s2"
      using own_ok_cong [of "own s" s2 s1] own own1 M2(3) by (metis with_flags_other)
    show thesis
      by (rule that [of r s2])
        (use True add r s1 s2 b2 b2' e1 f1 o1 same M2 own queues_onlyD [OF M2(2)] queues_only_lib [OF M2(2)]
          lib_frame_trans [OF same(1)] own2 in \<open>simp_all add: with_flags_same\<close>)
  qed
qed

text \<open>\<open>event_add\<close> never fails to return; if it fails, no event but the backend's own has changed.\<close>

lemma event_add_backend:
  assumes ok: "core_ok s" and binv: "binv s {x. inserted s x}" and base: "ev_base (evs s e) = Base"
    and own: "e \<notin> own s" and fit: "wants_io (evs s e) \<Longrightarrow> fit (evs s e)" and own_ok: "own_ok (own s) s" and clock: "clock_ok s"
    and room: "tv \<noteq> None \<Longrightarrow> heap_room (timeheap s)"
    and safe: "tv \<noteq> None \<Longrightarrow> timed_out s e \<Longrightarrow> clear_ncalls s e \<noteq> None"
  obtains r s' where "event_add ops s e tv = Some (r, s')" and "core_ok s'" and "binv s' {x. inserted s' x}"
    and "own s' = own s" and "lib_frame s s'" and "own_ok (own s) s'"
    and "r = -1 \<Longrightarrow> (\<forall>x. x \<notin> own s \<longrightarrow> evs s' x = evs s x) \<and> actq s' = actq s \<and> set (tmq s') = set (tmq s) \<and>
          filter (\<lambda>x. x \<notin> own s) (inq s') = filter (\<lambda>x. x \<notin> own s) (inq s)"
    and "r \<noteq> -1 \<Longrightarrow> added (own s) s e tv s'"
proof -
  obtain r0 h n where s1: "event_add_reserve s e tv = (r0, s\<lparr>timeheap := h, tick := n\<rparr>)"
    "core_ok (s\<lparr>timeheap := h, tick := n\<rparr>)" "helems h = tmq s" "r0 = 0 \<or> r0 = -1 \<and> h = timeheap s"
    "r0 = 0 \<Longrightarrow> tv \<noteq> None \<Longrightarrow> \<not> timed s e \<Longrightarrow> heap_room h \<and> heap_reserved h"
    by (rule event_add_reserve_ok [OF ok room, where e = e]) blast+
  let ?s1 = "s\<lparr>timeheap := h, tick := n\<rparr>"
  have b1: "binv ?s1 {x. inserted ?s1 x}" "own ?s1 = own s"
    using stable [OF binv, of ?s1] by (simp_all add: inserted_def)
  have lib1: "lib_frame s ?s1" by (simp add: lib_frame_def lib_rest_def)
  have own1: "own_ok (own s) ?s1" using own_ok own_ok_cong [of "own s" ?s1 s] by simp
  have pre: "event_add ops s e tv = (if r0 = -1 then Some (-1, ?s1)
      else do {
        (res, s2) \<leftarrow> event_add_insert ops ?s1 e;
        case tv of None \<Rightarrow> Some (res, s2)
        | Some t \<Rightarrow> if res = -1 then Some (res, s2) else do { s3 \<leftarrow> event_add_timeout s2 e t; Some (res, s3) } })"
    using base core_okD(10) [OF ok, of e] s1(1) by (simp add: event_add_def flags_ok_def)
  show thesis
  proof (cases "r0 = -1")
    case True
    then show thesis
      by (intro that [of "-1" ?s1]) (use pre s1 b1 lib1 own1 in \<open>simp_all add: actq_def inq_def tmq_def\<close>)
  next
    case False
    then have r0: "r0 = 0" using s1(4) by simp
    obtain r s2 where s2: "event_add_insert ops ?s1 e = Some (r, s2)" "core_ok s2" "binv s2 {x. inserted s2 x}"
      "own s2 = own ?s1" "lib_frame ?s1 s2" "frames s2 = frames ?s1" "timeheap s2 = timeheap ?s1"
      "activequeues s2 = activequeues ?s1"
      "\<And>x. x \<noteq> e \<Longrightarrow> x \<notin> own ?s1 \<Longrightarrow> evs s2 x = evs ?s1 x"
      "evs s2 e = (if r \<noteq> -1 \<and> wants_io (evs ?s1 e) \<and> \<not> active ?s1 e
          then (evs ?s1 e)\<lparr>ev_flags := ev_flags (evs ?s1 e) OR EVLIST_INSERTED\<rparr> else evs ?s1 e)"
      "filter (\<lambda>x. x \<notin> own ?s1) (inq s2) = filter (\<lambda>x. x \<notin> own ?s1) (inq ?s1) @
          (if r \<noteq> -1 \<and> wants_io (evs ?s1 e) \<and> \<not> inserted ?s1 e \<and> \<not> active ?s1 e then [e] else [])"
      "own_ok (own ?s1) s2"
      by (rule event_add_insert_ok [OF s1(2) b1(1), of e]) (use base own fit b1(2) own1 in auto)
    have lib2: "lib_frame s s2" using lib1 s2(5) lib_frame_trans by blast
    have act1: "active ?s1 = active s" "inserted ?s1 = inserted s" "inq ?s1 = inq s" "actq ?s1 = actq s"
      by (simp_all add: active_def inserted_def inq_def actq_def fun_eq_iff)
    have q2: "actq s2 = actq s" "tmq s2 = tmq s"
      using s2(7,8) s1(3) by (simp_all add: actq_def tmq_def)
    have own2: "own s2 = own s" using s2(4) b1(2) by simp
    have keep2: "r = -1 \<Longrightarrow> x \<notin> own s \<Longrightarrow> evs s2 x = evs s x" for x
      using s2(9,10) b1(2) by (cases "x = e") simp_all
    show thesis
    proof (cases "tv = None \<or> r = -1")
      case True
      then have "event_add ops s e tv = Some (r, s2)" using pre r0 s2(1) by (auto split: option.split)
      moreover have "added (own s) s e tv s2" if "r \<noteq> -1"
        using that True s2(9-11) q2 b1(2) act1 by (simp add: added_def)
      ultimately show thesis
        by (intro that [of r s2]) (use s2(2,3,11,12) own2 lib2 q2 b1(2) act1 keep2 in simp_all)
    next
      case False
      then obtain t where t: "tv = Some t" and r: "r \<noteq> -1" by auto
      have e2: "active s2 e = active s e" "timed s2 e = timed s e" "timed_out s2 e = timed_out s e"
        "ev_ncalls (evs s2 e) = ev_ncalls (evs s e)" "ev_pncalls (evs s2 e) = ev_pncalls (evs s e)"
        "ev_base (evs s2 e) = Base"
        using s2(10) base by (simp_all add: timed_out_def flags_bit)
      have safe2: "clear_ncalls s2 e \<noteq> None" if "timed_out s2 e"
        using safe that t e2 s2(6) by (auto simp: clear_ncalls_def write_ncalls_def split: option.splits if_splits)
      obtain s3 now where s3: "event_add_timeout s2 e t = Some s3" "core_ok s3" "timeout_set s2 e t now s3"
        using event_add_timeout_ok [OF s2(2) e2(6), of t] clock clock_ok_lib [OF lib2] safe2 s1(5) [OF r0] s2(7) t e2(2)
        by auto
      have T: "lib_frame s2 s3" "sig s3 = sig s2" "event_core.more s3 = event_core.more s2" "inq s3 = inq s2"
        "evs s3 = (evs s2)(e := (evs s2 e)\<lparr>ev_timeout := timeradd now t,
          ev_flags := (if timed_out s2 e then ev_flags (evs s2 e) AND NOT EVLIST_ACTIVE else ev_flags (evs s2 e)) OR EVLIST_TIMEOUT\<rparr>)"
        "actq s3 = (if timed_out s2 e then (\<lambda>p. remove1 e (actq s2 p)) else actq s2)"
        "set (tmq s3) = insert e (set (tmq s2))" "tv_ok now" "\<exists>n. fst (gettime (s2\<lparr>tick := n\<rparr>)) = Some now"
        using s3(3) by (simp_all add: timeout_set_def)
      have "ev_view (evs s3 x) = ev_view (evs s2 x)" for x by (simp add: T(5) ev_view_def)
      moreover have "inserted s3 x = inserted s2 x" for x by (simp add: T(5) flags_bit)
      ultimately have b3: "binv s3 {x. inserted s3 x}" "own s3 = own s"
        using stable [OF s2(3), of s3] T(2,3) own2 by auto
      have "own_ok (own s) s3"
        using own_ok_update [OF _ T(5), of "own s"] s2(12) own b1(2) by simp
      moreover have clk: "\<exists>n. fst (gettime (s\<lparr>tick := n\<rparr>)) = Some now" using T(9) gettime_lib [OF lib2] by simp
      moreover have "added (own s) s e tv s3"
        using T s2(9-11) clk q2 own b1(2) act1 e2 t r by (auto simp: added_def Let_def)
      ultimately show thesis
        by (intro that [of r s3])
          (use pre r0 s2(1) t r s3(1,2) b3 lib_frame_trans [OF lib2 T(1)] in simp_all)
    qed
  qed
qed

end

end
