(* ===== verification/World.thy ===== *)
theory World
  imports Backend
begin

text \<open>
  The state behind \<open>void *evbase\<close>: \<open>struct epollop\<close> of \<open>epoll.hpp\<close>, as an extension of the state of
  the core, with the part of the kernel that \<open>epoll.cpp\<close> and \<open>signal.cpp\<close> call: the interest list of the
  epoll descriptor and the dispositions of the signals.

  What the manual pages say of the calls is modelled; whether a call fails for a reason of its own
  is read from \<open>k_refuse\<close>, \<open>k_sigfail\<close> and the other outcomes, by the position \<open>k_tick\<close> of the call.
\<close>

definition EPOLLIN :: "32 word" where "EPOLLIN = 0x001"
definition EPOLLOUT :: "32 word" where "EPOLLOUT = 0x004"
definition EPOLLERR :: "32 word" where "EPOLLERR = 0x008"
definition EPOLLHUP :: "32 word" where "EPOLLHUP = 0x010"

datatype ctl_op = CTL_ADD | CTL_MOD | CTL_DEL

text \<open>
  What \<open>epoll_wait\<close> returns: an \<open>errno\<close> (\<open>WaitFail True\<close> for \<open>EINTR\<close>) or the ready descriptors with
  their events; and the signals that were delivered to the process while it waited.
\<close>

datatype wait_result = WaitFail bool | WaitReady "(int \<times> 32 word) list"

record evepoll =
  evread :: "eid option"
  evwrite :: "eid option"

record kernel =
  k_interest :: "int \<Rightarrow> 32 word option"
  k_handler :: "nat \<Rightarrow> sighandler"
  k_tick :: nat
  k_refuse :: "nat \<Rightarrow> int \<Rightarrow> bool"
  k_sigfail :: "nat \<Rightarrow> nat \<Rightarrow> bool"
  k_wait :: "nat \<Rightarrow> int \<Rightarrow> nat list \<times> wait_result"
  k_create :: "nat \<Rightarrow> int option"
  k_pair :: "nat \<Rightarrow> (int \<times> int) option"

text \<open>The outcomes of calls to come, which no call changes.\<close>

definition k_env :: "kernel \<Rightarrow> _" where
  "k_env k = (k_refuse k, k_sigfail k, k_wait k, k_create k, k_pair k)"

lemma k_env_upd [simp]:
  "k_env (k\<lparr>k_tick := t\<rparr>) = k_env k" "k_env (k\<lparr>k_interest := i\<rparr>) = k_env k" "k_env (k\<lparr>k_handler := h\<rparr>) = k_env k"
  by (simp_all add: k_env_def)

text \<open>The kernel delivers signals of the system only.\<close>

definition signals_valid :: "kernel \<Rightarrow> bool" where
  "signals_valid k \<longleftrightarrow> (\<forall>t tm. \<forall>n\<in>set (fst (k_wait k t tm)). n < 65)"

lemma k_envD:
  assumes "k_env k' = k_env k"
  shows "k_refuse k' = k_refuse k" "signals_valid k' = signals_valid k"
  using assms by (simp_all add: k_env_def signals_valid_def)

record epoll_world = event_core +
  ep_fds :: "evepoll list"
  ep_nfds :: int
  ep_nevents :: int
  ep_epfd :: int
  ker :: kernel

text \<open>
  \<open>epoll_ctl\<close>: adding a registered descriptor fails with \<open>EEXIST\<close>, changing or deleting one that is
  not registered with \<open>ENOENT\<close>. The entry that the kernel drops when a descriptor is closed is kept here: the code modelled closes
  a descriptor after its events have been deleted.
\<close>

definition epoll_ctl ::
  "ctl_op \<Rightarrow> int \<Rightarrow> 32 word \<Rightarrow> 'b epoll_world_scheme \<Rightarrow> int \<times> 'b epoll_world_scheme" where
  "epoll_ctl c fd events s =
     (let k = ker s; k1 = k\<lparr>k_tick := k_tick k + 1\<rparr>;
          fails = k_refuse k (k_tick k) fd \<or> (c = CTL_ADD) = (k_interest k fd \<noteq> None)
      in if fails then (-1, s\<lparr>ker := k1\<rparr>)
         else (0, s\<lparr>ker := k1\<lparr>k_interest := (k_interest k)(fd := if c = CTL_DEL then None else Some events)\<rparr>\<rparr>))"

text \<open>\<open>sigaction(sig, &new, &old)\<close>: the old disposition, if the call succeeds.\<close>

definition sigaction_set ::
  "nat \<Rightarrow> sighandler \<Rightarrow> 'b epoll_world_scheme \<Rightarrow> sighandler option \<times> 'b epoll_world_scheme" where
  "sigaction_set n h s =
     (let k = ker s; k1 = k\<lparr>k_tick := k_tick k + 1\<rparr>
      in if k_sigfail k (k_tick k) n then (None, s\<lparr>ker := k1\<rparr>)
         else (Some (k_handler k n), s\<lparr>ker := k1\<lparr>k_handler := (k_handler k)(n := h)\<rparr>\<rparr>))"

lemma more_sel:
  assumes "event_core.more (s' :: 'b epoll_world_scheme) = event_core.more s"
  shows "ep_fds s' = ep_fds s" "ep_nfds s' = ep_nfds s" "ep_nevents s' = ep_nevents s"
    "ep_epfd s' = ep_epfd s" "ker s' = ker s"
  using assms by (cases s; cases s'; simp)+

end
