(* ===== verification/Signal.thy ===== *)
theory Signal
  imports World
begin

text \<open>
  \<open>signal.cpp\<close>: events that wait for a signal. Per signal there is a list of events and, while it is
  not empty, the disposition that was in force before; the handler counts deliveries and
  wakes the loop through a socket pair, whose reading end is the library's own event \<open>ev_signal\<close>.
  \<open>self\<close> is the backend of the base, through which \<open>evsignal_add\<close> adds that event.
\<close>

definition NSIG :: nat where
  "NSIG = 65"

definition upd_sig :: "(evsignal_info \<Rightarrow> evsignal_info) \<Rightarrow> 'a event_core_scheme \<Rightarrow> 'a event_core_scheme" where
  "upd_sig f s = s\<lparr>sig := f (sig s)\<rparr>"

text \<open>\<open>sig->sh_old[n] = p\<close>\<close>

definition set_sh_old :: "nat \<Rightarrow> sighandler option \<Rightarrow> 'a event_core_scheme \<Rightarrow> 'a event_core_scheme option" where
  "set_sh_old n h s =
     (if n < length (sh_old (sig s)) then Some (upd_sig (\<lambda>g. g\<lparr>sh_old := (sh_old g)[n := h]\<rparr>) s) else None)"

text \<open>
  The handler counts the delivery and installs itself again. The byte that it sends makes the socket pair readable; whether
  \<open>epoll_wait\<close> reports that is one of the choices of the kernel.
\<close>

definition evsignal_handler :: "'b epoll_world_scheme \<Rightarrow> nat \<Rightarrow> 'b epoll_world_scheme option" where
  "evsignal_handler s n =
     (if evsignal_base s = NullBase then Some s
      else if n < NSIG
      then let s1 = upd_sig (\<lambda>g. g\<lparr>evsigcaught := (evsigcaught g)(n := evsigcaught g n + 1), evsignal_caught := True\<rparr>) s
           in Some (s1\<lparr>ker := (ker s1)\<lparr>k_handler := (k_handler (ker s1))(n := EvsignalHandler)\<rparr>\<rparr>)
      else None)"

definition evsignal_set_handler :: "'b epoll_world_scheme \<Rightarrow> nat \<Rightarrow> (int \<times> 'b epoll_world_scheme) option" where
  "evsignal_set_handler s n =
     (let grow = int n \<ge> sh_old_max (sig s);
          s0 = s\<lparr>tick := tick s + 1\<rparr>
      in if grow \<and> \<not> os_alloc (os s) (tick s) ((n + 1) * sizeof_ptr) then Some (-1, s0)
         else
           let s1 = (if grow
                     then upd_sig (\<lambda>g. g\<lparr>sh_old := take (nat (sh_old_max g)) (sh_old g) @
                                              replicate (n + 1 - nat (sh_old_max g)) None,
                                        sh_old_max := int n + 1\<rparr>) s0
                     else s0)
           in if \<not> os_alloc (os s1) (tick s1) 152
              then do { s2 \<leftarrow> set_sh_old n None (s1\<lparr>tick := tick s1 + 1\<rparr>); Some (-1, s2) }
              else case sigaction_set n EvsignalHandler (s1\<lparr>tick := tick s1 + 1\<rparr>) of
                     (None, s2) \<Rightarrow> do { s3 \<leftarrow> set_sh_old n None s2; Some (-1, s3) }
                   | (Some old, s2) \<Rightarrow> do { s3 \<leftarrow> set_sh_old n (Some old) s2; Some (0, s3) })"

text \<open>With a null \<open>sh\<close>, \<open>sigaction\<close> changes nothing.\<close>

definition evsignal_restore_handler :: "'b epoll_world_scheme \<Rightarrow> nat \<Rightarrow> (int \<times> 'b epoll_world_scheme) option" where
  "evsignal_restore_handler s n =
     (if n < length (sh_old (sig s)) then
        do { let sh = sh_old (sig s) ! n;
             s1 \<leftarrow> set_sh_old n None s;
             case sh of
               None \<Rightarrow> Some (0, s1)
             | Some h \<Rightarrow> (case sigaction_set n h s1 of (None, s2) \<Rightarrow> Some (-1, s2) | (Some _, s2) \<Rightarrow> Some (0, s2)) }
      else None)"

text \<open>The part of \<open>evsignal_add\<close> for the first event of a signal.\<close>

definition evsignal_install ::
  "('b epoll_world_scheme) eventop \<Rightarrow> 'b epoll_world_scheme \<Rightarrow> nat \<Rightarrow> (int \<times> 'b epoll_world_scheme) option" where
  "evsignal_install self s n =
     do { (r, s1) \<leftarrow> evsignal_set_handler s n;
          if r = -1 then Some (-1, s1)
          else
            let s2 = s1\<lparr>evsignal_base := Base\<rparr>
            in if \<not> ev_signal_added (sig s2) then do {
                 es \<leftarrow> ev_signal (sig s2);
                 (r, s3) \<leftarrow> event_add self s2 es None;
                 if r \<noteq> 0 then Some (-1, s3) else Some (0, upd_sig (\<lambda>g. g\<lparr>ev_signal_added := True\<rparr>) s3) }
               else Some (0, s2) }"

definition evsignal_add ::
  "('b epoll_world_scheme) eventop \<Rightarrow> 'b epoll_world_scheme \<Rightarrow> eid \<Rightarrow> (int \<times> 'b epoll_world_scheme) option" where
  "evsignal_add self s e =
     (if ev_base (evs s e) = NullBase then None
      else if ev_fd (evs s e) < 0 \<or> ev_fd (evs s e) \<ge> int NSIG then None
      else if \<not> evsig_lists (sig s) then None
      else
        let n = nat (ev_fd (evs s e))
        in do {
          (r, s1) \<leftarrow> (if tqh_first (evsigevents (sig s)) n = None then evsignal_install self s n else Some (0, s));
          if r = -1 then Some (-1, s1)
          else Some (0, upd_sig (\<lambda>g. g\<lparr>evsigevents := tailq_insert_tail n e (evsigevents g)\<rparr>) s1) })"

definition evsignal_del :: "'b epoll_world_scheme \<Rightarrow> eid \<Rightarrow> (int \<times> 'b epoll_world_scheme) option" where
  "evsignal_del s e =
     (if ev_base (evs s e) = NullBase then None
      else if ev_fd (evs s e) < 0 \<or> ev_fd (evs s e) \<ge> int NSIG then None
      else if \<not> evsig_lists (sig s) then None
      else
        let n = nat (ev_fd (evs s e));
            s1 = upd_sig (\<lambda>g. g\<lparr>evsigevents := tailq_remove n e (evsigevents g)\<rparr>) s
        in if tqh_first (evsigevents (sig s1)) n \<noteq> None then Some (0, s1)
           else evsignal_restore_handler s1 n)"

text \<open>The inner loop of \<open>evsignal_process\<close> over the events of a signal; \<open>ncalls\<close> is truncated to \<open>short\<close>.\<close>

partial_function (option) evsignal_activate ::
  "('b epoll_world_scheme) eventop \<Rightarrow> 32 word \<Rightarrow> eid option \<Rightarrow> 'b epoll_world_scheme \<Rightarrow>
     'b epoll_world_scheme option" where
  "evsignal_activate self ncalls ev s =
     (case ev of
        None \<Rightarrow> Some s
      | Some e \<Rightarrow>
          do { let next = tqe_next (evsigevents (sig s)) e;
               s1 \<leftarrow> (if has (ev_events (evs s e)) EV_PERSIST then Some s
                       else do { (r, s') \<leftarrow> event_del self s e; Some s' });
               s2 \<leftarrow> event_active s1 e EV_SIGNAL (ucast ncalls);
               evsignal_activate self ncalls next s2 })"

fun evsignal_process_from ::
  "('b epoll_world_scheme) eventop \<Rightarrow> nat list \<Rightarrow> 'b epoll_world_scheme \<Rightarrow> 'b epoll_world_scheme option" where
  "evsignal_process_from self [] s = Some s"
| "evsignal_process_from self (i # is) s =
     (let ncalls = evsigcaught (sig s) i
      in if ncalls = 0 then evsignal_process_from self is s
         else if \<not> evsig_lists (sig s) then None
         else do {
           let s1 = upd_sig (\<lambda>g. g\<lparr>evsigcaught := (evsigcaught g)(i := evsigcaught g i - ncalls)\<rparr>) s;
           s2 \<leftarrow> evsignal_activate self ncalls (tqh_first (evsigevents (sig s1)) i) s1;
           evsignal_process_from self is s2 })"

definition evsignal_process ::
  "('b epoll_world_scheme) eventop \<Rightarrow> 'b epoll_world_scheme \<Rightarrow> 'b epoll_world_scheme option" where
  "evsignal_process self s =
     evsignal_process_from self [1..<NSIG] (upd_sig (\<lambda>g. g\<lparr>evsignal_caught := False\<rparr>) s)"

subsection \<open>Setting up and tearing down\<close>

text \<open>The flags of the sockets (close-on-exec, non-blocking) are the kernel's and not modelled.\<close>

definition evsignal_init :: "'b epoll_world_scheme \<Rightarrow> (int \<times> 'b epoll_world_scheme) option" where
  "evsignal_init s =
     (let es0 = os_calloc (os s) (tick s);
          s1 = (upd_sig (\<lambda>g. g\<lparr>ev_signal := es0\<rparr>) s)\<lparr>tick := tick s + 1\<rparr>;
          s2 = s1\<lparr>ker := (ker s1)\<lparr>k_tick := k_tick (ker s1) + 1\<rparr>\<rparr>
      in case k_pair (ker s1) (k_tick (ker s1)) of
           None \<Rightarrow> Some (-1, s2)
         | Some pr \<Rightarrow>
             if list_ex (\<lambda>i. \<not> os_alloc (os s2) (tick s2 + i) 16) [0..<NSIG] then None
             else do {
               es \<leftarrow> es0;
               let s3 = (upd_sig (\<lambda>g. g\<lparr>ev_signal_pair := pr, sh_old := [], sh_old_max := 0,
                                         evsignal_caught := False, evsigcaught := (\<lambda>_. 0),
                                         evsigevents := fold tailq_init [0..<NSIG] (evsigevents g), evsig_lists := True\<rparr>) s2)
                          \<lparr>tick := tick s2 + NSIG, evs := (evs s2)(es := zero_event)\<rparr>;
               let s4 = event_set s3 es (snd pr) (EV_READ OR EV_PERSIST) EvsignalCb es;
               Some (0, upd_ev es (\<lambda>v. v\<lparr>ev_base := Base, ev_flags := ev_flags v OR EVLIST_INTERNAL\<rparr>) s4) })"

fun evsignal_restore_all :: "nat list \<Rightarrow> 'b epoll_world_scheme \<Rightarrow> 'b epoll_world_scheme option" where
  "evsignal_restore_all [] s = Some s"
| "evsignal_restore_all (i # is) s =
     (if int i < sh_old_max (sig s) then
        do { h \<leftarrow> (if i < length (sh_old (sig s)) then Some (sh_old (sig s) ! i) else None);
             if h \<noteq> None
             then do { (r, s1) \<leftarrow> evsignal_restore_handler s i; evsignal_restore_all is s1 }
             else evsignal_restore_all is s }
      else evsignal_restore_all is s)"

definition evsignal_dealloc ::
  "('b epoll_world_scheme) eventop \<Rightarrow> 'b epoll_world_scheme \<Rightarrow> 'b epoll_world_scheme option" where
  "evsignal_dealloc self s =
     do { s1 \<leftarrow> (if ev_signal_added (sig s)
                  then do { es \<leftarrow> ev_signal (sig s);
                            (r, s') \<leftarrow> event_del self s es;
                            Some (upd_sig (\<lambda>g. g\<lparr>ev_signal_added := False\<rparr>) s') }
                  else Some s);
          s2 \<leftarrow> evsignal_restore_all [0..<NSIG] s1;
          Some (upd_sig (\<lambda>g. g\<lparr>ev_signal_pair := (-1, -1), sh_old_max := 0, sh_old := []\<rparr>) s2) }"

end
