(* ===== verification/Epoll.thy ===== *)
theory Epoll
  imports Signal
begin

text \<open>
  \<open>epoll.cpp\<close>: the backend. Per descriptor the table \<open>fds\<close> holds the event that waits for reading and
  the one that waits for writing; the kernel's interest in the descriptor follows the table.

  \<open>epollops n\<close> is the \<open>struct eventop\<close> whose functions may call back into the core through
  \<open>base->evsel\<close> up to \<open>n - 1\<close> levels deep. The code needs two: \<open>epoll_add\<close> of a signal event calls
  \<open>event_add\<close> of \<open>ev_signal\<close>, whose \<open>epoll_add\<close> is of a descriptor and calls nothing.
\<close>

subsection \<open>Operations\<close>

definition INITIAL_NFILES :: int where "INITIAL_NFILES = 32"
definition INITIAL_NEVENTS :: int where "INITIAL_NEVENTS = 32"
definition MAX_NEVENTS :: int where "MAX_NEVENTS = 4096"
definition MAX_EPOLL_TIMEOUT_MSEC :: int where "MAX_EPOLL_TIMEOUT_MSEC = 35 * 60 * 1000"

definition no_events :: evepoll where
  "no_events = \<lparr>evread = None, evwrite = None\<rparr>"

definition epoll_init :: "'b epoll_world_scheme \<Rightarrow> (bool \<times> 'b epoll_world_scheme) option" where
  "epoll_init s =
     (let s1 = s\<lparr>ker := (ker s)\<lparr>k_tick := k_tick (ker s) + 1\<rparr>\<rparr>
      in case k_create (ker s) (k_tick (ker s)) of
           None \<Rightarrow> Some (False, s1)
         | Some epfd \<Rightarrow>
             let s2 = s1\<lparr>ker := (ker s1)\<lparr>k_interest := (\<lambda>_. None)\<rparr>\<rparr>
             in if \<not> os_alloc (os s2) (tick s2) 40 then Some (False, s2\<lparr>tick := tick s2 + 1\<rparr>)
             else if \<not> os_alloc (os s2) (tick s2 + 1) 384 then Some (False, s2\<lparr>tick := tick s2 + 2\<rparr>)
             else if \<not> os_alloc (os s2) (tick s2 + 2) 512 then Some (False, s2\<lparr>tick := tick s2 + 3\<rparr>)
             else do {
               let s3 = s2\<lparr>tick := tick s2 + 3, ep_epfd := epfd, ep_nevents := INITIAL_NEVENTS,
                           ep_fds := replicate (nat INITIAL_NFILES) no_events, ep_nfds := INITIAL_NFILES\<rparr>;
               (r, s4) \<leftarrow> evsignal_init s3;
               Some (True, s4) })"

text \<open>\<open>while (nfds <= max) nfds <<= 1\<close> on \<open>int\<close>, where overflow is undefined.\<close>

partial_function (option) grow_nfds :: "int \<Rightarrow> int \<Rightarrow> int option" where
  "grow_nfds nfds mx =
     (if nfds \<le> mx then if 2 * nfds \<ge> 2 ^ 31 then None else grow_nfds (2 * nfds) mx else Some nfds)"

definition epoll_recalc :: "'b epoll_world_scheme \<Rightarrow> int \<Rightarrow> (int \<times> 'b epoll_world_scheme) option" where
  "epoll_recalc s mx =
     (if mx \<ge> ep_nfds s then do {
        nfds \<leftarrow> grow_nfds (ep_nfds s) mx;
        let s1 = s\<lparr>tick := tick s + 1\<rparr>;
        if \<not> os_alloc (os s) (tick s) (nat nfds * 16) then Some (-1, s1)
        else Some (0, s1\<lparr>ep_fds := take (nat (ep_nfds s)) (ep_fds s) @ replicate (nat (nfds - ep_nfds s)) no_events,
                         ep_nfds := nfds\<rparr>) }
      else Some (0, s))"

text \<open>The events to ask the kernel for, and whether the descriptor is registered already.\<close>

definition table_events :: "evepoll \<Rightarrow> 32 word" where
  "table_events p =
     (if evread p \<noteq> None then EPOLLIN else 0) OR (if evwrite p \<noteq> None then EPOLLOUT else 0)"

definition wanted_events :: "16 word \<Rightarrow> 32 word" where
  "wanted_events w = (if has w EV_READ then EPOLLIN else 0) OR (if has w EV_WRITE then EPOLLOUT else 0)"

definition epoll_add_fd :: "'b epoll_world_scheme \<Rightarrow> eid \<Rightarrow> (int \<times> 'b epoll_world_scheme) option" where
  "epoll_add_fd s e =
     (let fd = ev_fd (evs s e)
      in do {
        (r, s1) \<leftarrow> (if fd \<ge> ep_nfds s then epoll_recalc s fd else Some (0, s));
        if r = -1 then Some (-1, s1)
        else if fd < 0 \<or> nat fd \<ge> length (ep_fds s1) then None
        else
          let evep = ep_fds s1 ! nat fd;
              c = (if evread evep \<noteq> None \<or> evwrite evep \<noteq> None then CTL_MOD else CTL_ADD);
              events = table_events evep OR wanted_events (ev_events (evs s1 e))
          in case epoll_ctl c fd events s1 of (r, s2) \<Rightarrow>
               if r = -1 then Some (-1, s2)
               else
                 let p1 = (if has (ev_events (evs s2 e)) EV_READ then evep\<lparr>evread := Some e\<rparr> else evep);
                     p2 = (if has (ev_events (evs s2 e)) EV_WRITE then p1\<lparr>evwrite := Some e\<rparr> else p1)
                 in Some (0, s2\<lparr>ep_fds := (ep_fds s2)[nat fd := p2]\<rparr>) })"

definition epoll_add ::
  "('b epoll_world_scheme) eventop \<Rightarrow> 'b epoll_world_scheme \<Rightarrow> eid \<Rightarrow> (int \<times> 'b epoll_world_scheme) option" where
  "epoll_add self s e =
     (if has (ev_events (evs s e)) EV_SIGNAL then evsignal_add self s e else epoll_add_fd s e)"

text \<open>
  What \<open>epoll_del\<close> asks for: if the event waits for one direction only and the other one is in
  use, the descriptor stays registered for the other and that table entry stays.
\<close>

definition epoll_del_plan :: "evepoll \<Rightarrow> 16 word \<Rightarrow> ctl_op \<times> 32 word \<times> bool \<times> bool" where
  "epoll_del_plan evep w =
     (let events = wanted_events w
      in if events AND (EPOLLIN OR EPOLLOUT) \<noteq> EPOLLIN OR EPOLLOUT then
           if has events EPOLLIN \<and> evwrite evep \<noteq> None then (CTL_MOD, EPOLLOUT, True, False)
           else if has events EPOLLOUT \<and> evread evep \<noteq> None then (CTL_MOD, EPOLLIN, False, True)
           else (CTL_DEL, events, True, True)
         else (CTL_DEL, events, True, True))"

definition epoll_del :: "'b epoll_world_scheme \<Rightarrow> eid \<Rightarrow> (int \<times> 'b epoll_world_scheme) option" where
  "epoll_del s e =
     (if has (ev_events (evs s e)) EV_SIGNAL then evsignal_del s e
      else
        let fd = ev_fd (evs s e)
        in if fd \<ge> ep_nfds s then Some (0, s)
           else if fd < 0 \<or> nat fd \<ge> length (ep_fds s) then None
           else
             let evep = ep_fds s ! nat fd
             in case epoll_del_plan evep (ev_events (evs s e)) of (c, events, needreaddelete, needwritedelete) \<Rightarrow>
                  let p1 = (if needreaddelete then evep\<lparr>evread := None\<rparr> else evep);
                      p2 = (if needwritedelete then p1\<lparr>evwrite := None\<rparr> else p1)
                  in case epoll_ctl c fd events (s\<lparr>ep_fds := (ep_fds s)[nat fd := p2]\<rparr>) of (r, s2) \<Rightarrow>
                       if r = -1 then Some (-1, s2) else Some (0, s2))"

text \<open>The timeout in milliseconds, rounded up; the conversion of \<open>long\<close> to \<open>int\<close> comes before the cap.\<close>

definition epoll_timeout :: "timeval option \<Rightarrow> int" where
  "epoll_timeout tv =
     (let timeout = (case tv of
                       None \<Rightarrow> -1
                     | Some t \<Rightarrow> sint (word_of_int (tv_sec t * 1000 + (tv_usec t + 999) div 1000) :: 32 word))
      in if timeout > MAX_EPOLL_TIMEOUT_MSEC then MAX_EPOLL_TIMEOUT_MSEC else timeout)"

text \<open>One entry of the array that \<open>epoll_wait\<close> filled.\<close>

definition epoll_activate :: "'b epoll_world_scheme \<Rightarrow> int \<times> 32 word \<Rightarrow> 'b epoll_world_scheme option" where
  "epoll_activate s ready =
     (case ready of (fd, what) \<Rightarrow>
        if fd < 0 \<or> fd \<ge> ep_nfds s then Some s
        else if nat fd \<ge> length (ep_fds s) then None
        else
          let evep = ep_fds s ! nat fd;
              r = (if has what (EPOLLHUP OR EPOLLERR) \<or> has what EPOLLIN then evread evep else None);
              w = (if has what (EPOLLHUP OR EPOLLERR) \<or> has what EPOLLOUT then evwrite evep else None)
          in do {
            s1 \<leftarrow> (case r of None \<Rightarrow> Some s | Some e \<Rightarrow> event_active s e EV_READ 1);
            (case w of None \<Rightarrow> Some s1 | Some e \<Rightarrow> event_active s1 e EV_WRITE 1) })"

fun epoll_activate_all :: "'b epoll_world_scheme \<Rightarrow> (int \<times> 32 word) list \<Rightarrow> 'b epoll_world_scheme option" where
  "epoll_activate_all s [] = Some s"
| "epoll_activate_all s (x # xs) = do { s1 \<leftarrow> epoll_activate s x; epoll_activate_all s1 xs }"

text \<open>Signals that arrive during \<open>epoll_wait\<close>: the handler runs for each that has it installed.\<close>

fun deliver_signals :: "'b epoll_world_scheme \<Rightarrow> nat list \<Rightarrow> 'b epoll_world_scheme option" where
  "deliver_signals s [] = Some s"
| "deliver_signals s (n # ns) =
     do { s1 \<leftarrow> (if k_handler (ker s) n = EvsignalHandler then evsignal_handler s n else Some s);
          deliver_signals s1 ns }"

definition epoll_dispatch ::
  "('b epoll_world_scheme) eventop \<Rightarrow> 'b epoll_world_scheme \<Rightarrow> timeval option \<Rightarrow>
     (int \<times> 'b epoll_world_scheme) option" where
  "epoll_dispatch self s tv =
     (case k_wait (ker s) (k_tick (ker s)) (epoll_timeout tv) of (sigs, res) \<Rightarrow> do {
        s1 \<leftarrow> deliver_signals (s\<lparr>ker := (ker s)\<lparr>k_tick := k_tick (ker s) + 1\<rparr>\<rparr>) sigs;
        (case res of
           WaitFail eintr \<Rightarrow>
             if \<not> eintr then Some (-1, s1)
             else do { s2 \<leftarrow> evsignal_process self s1; Some (0, s2) }
         | WaitReady rs \<Rightarrow> do {
             let rs = take (nat (ep_nevents s1)) rs;
             s2 \<leftarrow> (if evsignal_caught (sig s1) then evsignal_process self s1 else Some s1);
             s3 \<leftarrow> epoll_activate_all s2 rs;
             if int (length rs) = ep_nevents s3 \<and> ep_nevents s3 < MAX_NEVENTS then
               let s4 = s3\<lparr>tick := tick s3 + 1\<rparr>
               in if os_alloc (os s3) (tick s3) (nat (ep_nevents s3 * 2) * 12)
                  then Some (0, s4\<lparr>ep_nevents := ep_nevents s3 * 2\<rparr>) else Some (0, s4)
             else Some (0, s3) }) })"

definition epoll_dealloc ::
  "('b epoll_world_scheme) eventop \<Rightarrow> 'b epoll_world_scheme \<Rightarrow> 'b epoll_world_scheme option" where
  "epoll_dealloc self s =
     do { s1 \<leftarrow> evsignal_dealloc self s;
          let s2 = (if ep_epfd s1 \<ge> 0 then s1\<lparr>ker := (ker s1)\<lparr>k_interest := (\<lambda>_. None)\<rparr>\<rparr> else s1);
          Some (s2\<lparr>ep_fds := [], ep_nfds := 0, ep_nevents := 0, ep_epfd := 0\<rparr>) }"

primrec epollops :: "nat \<Rightarrow> ('b epoll_world_scheme) eventop" where
  "epollops 0 = \<lparr>op_init = (\<lambda>_. None), op_add = (\<lambda>_ _. None), op_del = (\<lambda>_ _. None),
     op_dispatch = (\<lambda>_ _. None), op_dealloc = (\<lambda>_. None), op_need_reinit = True\<rparr>"
| "epollops (Suc n) = \<lparr>op_init = epoll_init, op_add = (\<lambda>e s. epoll_add (epollops n) s e),
     op_del = (\<lambda>e s. epoll_del s e), op_dispatch = (\<lambda>tv s. epoll_dispatch (epollops n) s tv),
     op_dealloc = epoll_dealloc (epollops n), op_need_reinit = True\<rparr>"

declare epollops.simps [simp del]

lemma epollops_sel [simp]:
  "op_init (epollops (Suc n)) = epoll_init" "op_add (epollops (Suc n)) e s = epoll_add (epollops n) s e"
  "op_del (epollops (Suc n)) e s = epoll_del s e" "op_dispatch (epollops (Suc n)) tv s = epoll_dispatch (epollops n) s tv"
  "op_dealloc (epollops (Suc n)) = epoll_dealloc (epollops n)" "op_need_reinit (epollops n)"
  by (cases n; simp add: epollops.simps)+

subsection \<open>The invariant of the table\<close>

text \<open>
  The backend's invariant when the core has inserted the events \<open>I\<close>: the table has \<open>nfds\<close>
  entries, and an event stands in it only under its own descriptor, for a direction it waits for,
  and only while it is in \<open>I\<close>.
\<close>

definition tab :: "'b epoll_world_scheme \<Rightarrow> nat \<Rightarrow> evepoll" where
  "tab s i = (if i < length (ep_fds s) then ep_fds s ! i else no_events)"

definition waits :: "'b epoll_world_scheme \<Rightarrow> eid set \<Rightarrow> nat \<Rightarrow> 16 word \<Rightarrow> eid \<Rightarrow> bool" where
  "waits s I i w e \<longleftrightarrow>
     e \<in> I \<and> ev_fd (evs s e) = int i \<and> has (ev_events (evs s e)) w \<and> \<not> has (ev_events (evs s e)) EV_SIGNAL"

definition entry_ok :: "'b epoll_world_scheme \<Rightarrow> eid set \<Rightarrow> nat \<Rightarrow> evepoll \<Rightarrow> bool" where
  "entry_ok s I i p \<longleftrightarrow>
     (\<forall>e. evread p = Some e \<longrightarrow> waits s I i EV_READ e) \<and> (\<forall>e. evwrite p = Some e \<longrightarrow> waits s I i EV_WRITE e)"

definition table_ok :: "'b epoll_world_scheme \<Rightarrow> eid set \<Rightarrow> bool" where
  "table_ok s I \<longleftrightarrow> ep_nfds s = int (length (ep_fds s)) \<and> 32 \<le> ep_nfds s \<and> ep_nfds s < 2 ^ 31 \<and>
     (\<forall>i. entry_ok s I i (tab s i))"

lemma tab_ker [simp]: "tab (s\<lparr>ker := k\<rparr>) = tab s" "tab (s\<lparr>tick := n\<rparr>) = tab s"
  by (simp_all add: tab_def fun_eq_iff cong: if_cong)

lemma table_ok_ker [simp]: "table_ok (s\<lparr>ker := k\<rparr>) I = table_ok s I"
  by (simp add: table_ok_def entry_ok_def waits_def)

text \<open>\<open>table_only s s'\<close>: only the table, the kernel's list and the call positions differ.\<close>

definition off_table :: "'b epoll_world_scheme \<Rightarrow> _" where
  "off_table s =
     ((evs s, event_count s, event_count_active s, event_gotterm s, event_break s, activequeues s, nactivequeues s),
      (sig s, eventqueue s, event_tv s, timeheap s, tv_cache s, current_base s, event_sigcb s),
      (event_gotsig s, evsignal_base s, use_monotonic s, aq_gen s, frames s, next_frame s, onces s),
      (os s, ep_nevents s, ep_epfd s, k_handler (ker s), k_env (ker s), epoll_world.more s))"

definition table_only :: "'b epoll_world_scheme \<Rightarrow> 'b epoll_world_scheme \<Rightarrow> bool" where
  "table_only s s' \<longleftrightarrow> off_table s' = off_table s"

lemma table_only_refl [simp]: "table_only s s"
  by (simp add: table_only_def)

lemma table_only_trans [trans]: "table_only s t \<Longrightarrow> table_only t u \<Longrightarrow> table_only s u"
  by (simp add: table_only_def)

lemma table_onlyI [simp]:
  "table_only s (s\<lparr>tick := t\<rparr>)" "table_only s (s\<lparr>ep_fds := f\<rparr>)" "table_only s (s\<lparr>ep_nfds := n\<rparr>)"
  "table_only s (s\<lparr>tick := t, ep_fds := f, ep_nfds := n\<rparr>)"
  "k_handler k = k_handler (ker s) \<Longrightarrow> k_env k = k_env (ker s) \<Longrightarrow> table_only s (s\<lparr>ker := k\<rparr>)"
  by (simp_all add: table_only_def off_table_def)

lemma table_onlyD:
  assumes "table_only s s'"
  shows "evs s' = evs s" "event_count s' = event_count s" "event_count_active s' = event_count_active s"
    "activequeues s' = activequeues s" "nactivequeues s' = nactivequeues s" "sig s' = sig s"
    "eventqueue s' = eventqueue s" "timeheap s' = timeheap s" "frames s' = frames s" "os s' = os s"
    "evsignal_base s' = evsignal_base s" "k_handler (ker s') = k_handler (ker s)"
    "ep_nevents s' = ep_nevents s" "lib_frame s s'" "k_env (ker s') = k_env (ker s)"
  using assms by (simp_all add: table_only_def off_table_def lib_frame_def lib_rest_def)

lemma table_only_core_ok: "table_only s s' \<Longrightarrow> core_ok s' = core_ok s"
  by (rule core_ok_cong) (simp_all add: table_onlyD)

lemma grow_nfds_ok:
  assumes "32 \<le> n" and "n < 2 ^ 31" and "mx < 2 ^ 30"
  shows "\<exists>m. grow_nfds n mx = Some m \<and> mx < m \<and> n \<le> m \<and> m < 2 ^ 31"
  using assms
proof (induction "nat (mx + 1 - n)" arbitrary: n rule: less_induct)
  case (less n)
  show ?case
  proof (cases "n \<le> mx")
    case True
    then have "\<exists>m. grow_nfds (2 * n) mx = Some m \<and> mx < m \<and> 2 * n \<le> m \<and> m < 2 ^ 31"
      using less.prems by (intro less.hyps) auto
    then show ?thesis using True less.prems by (subst grow_nfds.simps) auto
  next
    case False
    then show ?thesis using less.prems by (subst grow_nfds.simps) auto
  qed
qed

lemma epoll_ctl_cases:
  "epoll_ctl c fd ev s = (r, s') \<Longrightarrow> (r = 0 \<or> r = -1) \<and> (\<exists>k. s' = s\<lparr>ker := k\<rparr>) \<and> table_only s s'"
  by (auto simp: epoll_ctl_def Let_def split: if_splits)

lemma epoll_recalc_ok:
  assumes t: "table_ok s I" and mx: "mx < 2 ^ 30"
  obtains r s' where "epoll_recalc s mx = Some (r, s')" and "r = 0 \<or> r = -1" and "table_ok s' I"
    and "table_only s s'" and "ker s' = ker s" and "r = 0 \<Longrightarrow> mx < ep_nfds s'" and "tab s' = tab s"
proof (cases "mx \<ge> ep_nfds s")
  case False
  then show thesis using that [of 0 s] t by (simp add: epoll_recalc_def)
next
  case True
  have n: "ep_nfds s = int (length (ep_fds s))" "32 \<le> ep_nfds s" "ep_nfds s < 2 ^ 31"
    using t by (simp_all add: table_ok_def)
  then obtain m where m: "grow_nfds (ep_nfds s) mx = Some m" "mx < m" "ep_nfds s \<le> m" "m < 2 ^ 31"
    using grow_nfds_ok [of "ep_nfds s" mx] mx by auto
  define fds where "fds = ep_fds s @ replicate (nat (m - ep_nfds s)) no_events"
  define s1 where "s1 = s\<lparr>tick := tick s + 1\<rparr>"
  define s2 where "s2 = s1\<lparr>ep_fds := fds, ep_nfds := m\<rparr>"
  have sel: "ker s1 = ker s" "ker s2 = ker s" "ep_nfds s2 = m" "ep_fds s2 = fds" "evs s2 = evs s"
    "table_only s s1" "table_only s s2" "tab s1 = tab s"
    by (simp_all add: s1_def s2_def tab_def fun_eq_iff cong: if_cong)
  have t1: "table_ok s1 I" using t by (simp add: table_ok_def sel(8) entry_ok_def waits_def) (simp add: s1_def)
  have len: "m = int (length fds)" using n(1) m(3) by (simp add: fds_def)
  have tab: "tab s2 = tab s" by (auto simp: tab_def fds_def sel(4) nth_append fun_eq_iff)
  have "table_ok s2 I"
    using t n m(3,4) len by (simp add: table_ok_def sel(3-5) tab entry_ok_def waits_def)
  moreover have "epoll_recalc s mx = (if \<not> os_alloc (os s) (tick s) (nat m * 16) then Some (-1, s1) else Some (0, s2))"
    using True m(1) n by (simp add: epoll_recalc_def s1_def s2_def fds_def)
  ultimately show thesis
    using that [of "-1" s1] that [of 0 s2] sel t1 m(2) tab
    by (cases "os_alloc (os s) (tick s) (nat m * 16)") simp_all
qed

lemma table_ok_mono: "table_ok s I \<Longrightarrow> I \<subseteq> J \<Longrightarrow> table_ok s J"
  unfolding table_ok_def entry_ok_def waits_def by blast

lemma tab_update: "i < length (ep_fds s) \<Longrightarrow> ep_fds s' = (ep_fds s)[i := p] \<Longrightarrow> tab s' = (tab s)(i := p)"
  by (auto simp: tab_def fun_eq_iff nth_list_update)

lemma table_ok_update:
  assumes t: "table_ok s I" "I \<subseteq> J" and p: "entry_ok s J i p" and i: "i < length (ep_fds s)"
    and s': "evs s' = evs s" "ep_fds s' = (ep_fds s)[i := p]" "ep_nfds s' = ep_nfds s"
  shows "table_ok s' J"
  using table_ok_mono [OF t] p by (simp add: table_ok_def tab_update [OF i s'(2)] entry_ok_def waits_def s')

text \<open>The kernel watches each descriptor for exactly the directions the table has an event for.\<close>

definition kernel_agrees :: "'b epoll_world_scheme \<Rightarrow> bool" where
  "kernel_agrees s \<longleftrightarrow> (\<forall>fd. k_interest (ker s) fd =
     (if 0 \<le> fd \<and> table_events (tab s (nat fd)) \<noteq> 0 then Some (table_events (tab s (nat fd))) else None))"

lemma table_events_simps [simp]:
  "table_events p = 0 \<longleftrightarrow> evread p = None \<and> evwrite p = None"
  "table_events no_events = 0"
  by (auto simp: table_events_def EPOLLIN_def EPOLLOUT_def no_events_def)

lemma kernel_agrees_update:
  assumes "kernel_agrees s" and "0 \<le> fd" and "tab s' = (tab s)(nat fd := p)"
    and "k_interest (ker s') = (k_interest (ker s))(fd := if table_events p = 0 then None else Some (table_events p))"
  shows "kernel_agrees s'"
  using assms by (auto simp: kernel_agrees_def simp del: table_events_simps)

text \<open>The entry of a descriptor after an event has been added to it.\<close>

definition with_event :: "eid \<Rightarrow> 16 word \<Rightarrow> evepoll \<Rightarrow> evepoll" where
  "with_event e w p =
     \<lparr>evread = (if has w EV_READ then Some e else evread p), evwrite = (if has w EV_WRITE then Some e else evwrite p)\<rparr>"

lemma entry_ok_with_event:
  assumes p: "entry_ok s I i p" and fd: "ev_fd (evs s e) = int i" and sg: "\<not> has (ev_events (evs s e)) EV_SIGNAL"
  shows "entry_ok s (insert e I) i (with_event e (ev_events (evs s e)) p)"
  using p fd sg by (auto simp: entry_ok_def with_event_def waits_def)

lemma table_events_with_event: "table_events (with_event e w p) = table_events p OR wanted_events w"
  by (cases "evread p"; cases "evwrite p")
    (simp_all add: table_events_def with_event_def wanted_events_def or.assoc or.left_commute or.commute)

lemma epoll_add_fd_ok:
  assumes t: "table_ok s I" and fd: "0 \<le> ev_fd (evs s e)" "ev_fd (evs s e) < 2 ^ 30"
    and sg: "\<not> has (ev_events (evs s e)) EV_SIGNAL"
    and io: "has (ev_events (evs s e)) EV_READ \<or> has (ev_events (evs s e)) EV_WRITE"
  obtains r s' where "epoll_add_fd s e = Some (r, s')" and "r = 0 \<or> r = -1" and "table_only s s'"
    and "table_ok s' (if r = -1 then I else insert e I)" and "kernel_agrees s \<Longrightarrow> kernel_agrees s'"
    and "tab s' = (if r = -1 then tab s
                   else (tab s)(nat (ev_fd (evs s e)) := with_event e (ev_events (evs s e)) (tab s (nat (ev_fd (evs s e))))))"
proof -
  let ?v = "evs s e" and ?fd = "ev_fd (evs s e)"
  obtain r1 s1 where s1: "(if ?fd \<ge> ep_nfds s then epoll_recalc s ?fd else Some (0, s)) = Some (r1, s1)"
    "r1 = 0 \<or> r1 = -1" "table_ok s1 I" "table_only s s1" "ker s1 = ker s" "r1 = 0 \<Longrightarrow> ?fd < ep_nfds s1"
    "tab s1 = tab s"
  proof (cases "?fd \<ge> ep_nfds s")
    case True
    with that show thesis by (auto intro: epoll_recalc_ok [OF t fd(2)])
  qed (use that [of 0 s] t in simp)
  have agrees1: "kernel_agrees s1 = kernel_agrees s" by (simp add: kernel_agrees_def s1(5,7))
  have ev1: "evs s1 = evs s" by (rule table_onlyD(1) [OF s1(4)])
  show thesis
  proof (cases "r1 = -1")
    case True
    then show thesis using that [of "-1" s1] s1 agrees1 by (simp add: epoll_add_fd_def)
  next
    case False
    then have i: "nat ?fd < length (ep_fds s1)" using s1(2,3,6) fd(1) by (simp add: table_ok_def nat_less_iff)
    let ?p = "tab s (nat ?fd)" and ?w = "ev_events ?v"
    let ?c = "if evread ?p \<noteq> None \<or> evwrite ?p \<noteq> None then CTL_MOD else CTL_ADD"
    have p: "ep_fds s1 ! nat ?fd = ?p" using i s1(7) by (auto simp: tab_def dest: fun_cong [of _ _ "nat ?fd"])
    obtain r2 s2 where ctl: "epoll_ctl ?c ?fd (table_events ?p OR wanted_events ?w) s1 = (r2, s2)" by fastforce
    obtain k where s2: "r2 = 0 \<or> r2 = -1" "s2 = s1\<lparr>ker := k\<rparr>" "table_only s1 s2"
      using epoll_ctl_cases [OF ctl] by blast
    have tab2: "tab s2 = tab s" by (simp add: s2(2) s1(7))
    define s3 where "s3 = s2\<lparr>ep_fds := (ep_fds s2)[nat ?fd := with_event e ?w ?p]\<rparr>"
    have add: "epoll_add_fd s e = (if r2 = -1 then Some (-1, s2) else Some (0, s3))"
    proof -
      have "(let p1 = (if has ?w EV_READ then ?p\<lparr>evread := Some e\<rparr> else ?p)
          in if has ?w EV_WRITE then p1\<lparr>evwrite := Some e\<rparr> else p1) = with_event e ?w ?p"
        by (cases ?p) (simp add: with_event_def Let_def)
      moreover have "\<not> ?fd < 0" using fd(1) by simp
      ultimately show ?thesis
        using s1(1) False i ctl
        by (simp add: epoll_add_fd_def p ev1 Let_def s3_def s2(2) cong: if_cong)
    qed
    have t2: "table_ok s2 I" using s1(3) by (simp add: s2(2))
    have only2: "table_only s s2" using table_only_trans [OF s1(4) s2(3)] .
    show thesis
    proof (cases "r2 = -1")
      case True
      have "k_interest (ker s2) = k_interest (ker s1)"
        using ctl True by (auto simp: epoll_ctl_def Let_def split: if_splits)
      then have "kernel_agrees s \<Longrightarrow> kernel_agrees s2" by (simp add: kernel_agrees_def tab2 s1(5))
      then show thesis using that [of "-1" s2] add True t2 only2 tab2 by simp
    next
      case r2: False
      have i2: "nat ?fd < length (ep_fds s2)" using i by (simp add: s2(2))
      have "entry_ok s2 I (nat ?fd) ?p" using t2 tab2 by (metis table_ok_def)
      then have "entry_ok s2 (insert e I) (nat ?fd) (with_event e ?w ?p)"
        using entry_ok_with_event [of s2 I "nat ?fd" ?p e] fd(1) sg ev1 by (simp add: s2(2))
      then have t3: "table_ok s3 (insert e I)"
        using table_ok_update [OF t2 _ _ i2, of "insert e I" "with_event e ?w ?p" s3]
        by (auto simp: s3_def)
      have tab3: "tab s3 = (tab s)(nat ?fd := with_event e ?w ?p)"
        using tab_update [OF i2, of s3] tab2 by (simp add: s3_def)
      have "k_interest (ker s3) = (k_interest (ker s))(?fd := Some (table_events (with_event e ?w ?p)))"
        using ctl r2 s1(5) by (auto simp: epoll_ctl_def Let_def table_events_with_event s3_def split: if_splits)
      moreover have "table_events (with_event e ?w ?p) \<noteq> 0"
        using io by (auto simp: with_event_def)
      ultimately have "kernel_agrees s \<Longrightarrow> kernel_agrees s3"
        using kernel_agrees_update [OF _ fd(1) tab3] by (simp del: table_events_simps)
      moreover have "table_only s s3" using table_only_trans [OF only2, of s3] by (simp add: s3_def)
      ultimately show thesis using that [of 0 s3] add r2 t3 tab3 by simp
    qed
  qed
qed

end
