(* ===== verification/Loop.thy ===== *)
theory Loop
  imports Backend
begin

text \<open>
  The event loop of \<open>event.cpp\<close>: timeouts, the dispatch of active events to their callbacks,
  \<open>event_base_loop\<close> and the functions that start and stop it.

  The client is a record of functions on the whole state: what its callbacks do, and what the
  hook \<open>event_sigcb\<close> does. Loops that need not end are partial functions; their value is \<open>None\<close> then.
\<close>

subsection \<open>Timeouts\<close>

definition event_haveevents :: "'a event_core_scheme \<Rightarrow> bool" where
  "event_haveevents s \<longleftrightarrow> event_count s > 0"

text \<open>
  \<open>timeout_next\<close>: the argument is what \<open>**tv_p\<close> holds (\<open>None\<close>: nothing was ever stored), the result has
  the return value and what \<open>*tv_p\<close> is afterwards: the null pointer, or a pointer to the content given.
\<close>

definition timeout_next ::
  "'a event_core_scheme \<Rightarrow> timeval option \<Rightarrow> (int \<times> timeval option option \<times> 'a event_core_scheme) option" where
  "timeout_next s tv =
     do { top \<leftarrow> min_heap_top (timeheap s);
          case top of
            None \<Rightarrow> Some (0, None, s)
          | Some e \<Rightarrow>
              (case gettime s of
                 (None, s1) \<Rightarrow> Some (-1, Some tv, s1)
               | (Some now, s1) \<Rightarrow>
                   if timercmp (ev_timeout (evs s1 e)) now (\<le>) then Some (0, Some (Some timerclear), s1)
                   else let t = timersub (ev_timeout (evs s1 e)) now
                        in if 0 \<le> tv_sec t \<and> 0 \<le> tv_usec t then Some (0, Some (Some t), s1) else None) }"

fun shift_deadlines :: "timeval \<Rightarrow> eid list \<Rightarrow> 'a event_core_scheme \<Rightarrow> 'a event_core_scheme" where
  "shift_deadlines off [] s = s"
| "shift_deadlines off (e # es) s =
     shift_deadlines off es (upd_ev e (\<lambda>v. v\<lparr>ev_timeout := timersub (ev_timeout v) off\<rparr>) s)"

definition timeout_correct ::
  "'a event_core_scheme \<Rightarrow> timeval option \<Rightarrow> (timeval option \<times> 'a event_core_scheme) option" where
  "timeout_correct s tv =
     (if use_monotonic s then Some (tv, s)
      else case gettime s of (t, s1) \<Rightarrow>
        do { tv' \<leftarrow> (case t of Some x \<Rightarrow> Some x | None \<Rightarrow> tv);
             if timercmp tv' (event_tv s1) (\<ge>) then Some (Some tv', s1\<lparr>event_tv := tv'\<rparr>)
             else let off = timersub (event_tv s1) tv'
                  in do { es \<leftarrow> cells_read (hp_p (timeheap s1)) 0 (hp_n (timeheap s1));
                          Some (Some tv', (shift_deadlines off es s1)\<lparr>event_tv := tv'\<rparr>) } })"

partial_function (option) timeout_loop ::
  "('a event_core_scheme) eventop \<Rightarrow> timeval \<Rightarrow> 'a event_core_scheme \<Rightarrow> 'a event_core_scheme option" where
  "timeout_loop evsel now s =
     do { top \<leftarrow> min_heap_top (timeheap s);
          case top of
            None \<Rightarrow> Some s
          | Some e \<Rightarrow>
              if timercmp (ev_timeout (evs s e)) now (>) then Some s
              else do { (r, s1) \<leftarrow> event_del evsel s e;
                        s2 \<leftarrow> event_active s1 e EV_TIMEOUT 1;
                        timeout_loop evsel now s2 } }"

definition timeout_process ::
  "('a event_core_scheme) eventop \<Rightarrow> 'a event_core_scheme \<Rightarrow> 'a event_core_scheme option" where
  "timeout_process evsel s =
     (if min_heap_empty (timeheap s) then Some s
      else case gettime s of (t, s1) \<Rightarrow> do { now \<leftarrow> t; timeout_loop evsel now s1 })"

subsection \<open>Running the callbacks of active events\<close>

record 'w client =
  cl_call :: "nat \<Rightarrow> int \<Rightarrow> 16 word \<Rightarrow> nat \<Rightarrow> 'w \<Rightarrow> 'w option"
  cl_sigcb :: "nat \<Rightarrow> 'w \<Rightarrow> (int \<times> 'w) option"

definition event_loopexit_cb :: "'a event_core_scheme \<Rightarrow> 'a event_core_scheme" where
  "event_loopexit_cb s = s\<lparr>event_gotterm := True\<rparr>"

text \<open>
  A call through a function pointer. \<open>evsignal_cb\<close> reads one byte from the socket pair, which is the
  kernel's; \<open>event_once_cb\<close> calls the client's function and frees the \<open>struct event_once\<close>.
\<close>

definition run_plain ::
  "('a event_core_scheme) client \<Rightarrow> callback \<Rightarrow> int \<Rightarrow> 16 word \<Rightarrow> nat \<Rightarrow> 'a event_core_scheme \<Rightarrow>
     'a event_core_scheme option" where
  "run_plain cl cb fd what arg s =
     (case cb of User n \<Rightarrow> cl_call cl n fd what arg s | LoopexitCb \<Rightarrow> Some (event_loopexit_cb s)
      | EvsignalCb \<Rightarrow> Some s | OnceCb \<Rightarrow> None)"

definition event_once_cb ::
  "('a event_core_scheme) client \<Rightarrow> int \<Rightarrow> 16 word \<Rightarrow> nat \<Rightarrow> 'a event_core_scheme \<Rightarrow> 'a event_core_scheme option" where
  "event_once_cb cl fd events arg s =
     do { eo \<leftarrow> onces s arg;
          s1 \<leftarrow> run_plain cl (eo_cb eo) fd events (eo_arg eo) s;
          if onces s1 arg = None then None else Some (s1\<lparr>onces := (onces s1)(arg := None)\<rparr>) }"

definition run_callback ::
  "('a event_core_scheme) client \<Rightarrow> callback \<Rightarrow> int \<Rightarrow> 16 word \<Rightarrow> nat \<Rightarrow> 'a event_core_scheme \<Rightarrow>
     'a event_core_scheme option" where
  "run_callback cl cb fd what arg s =
     (if cb = OnceCb then event_once_cb cl fd what arg s else run_plain cl cb fd what arg s)"

text \<open>
  The inner loop of \<open>event_process_active\<close>; \<open>fr\<close> is the address of its local variable \<open>ncalls\<close>. The
  flag of the result says that the function must return at once.
\<close>

partial_function (option) run_calls ::
  "('a event_core_scheme) client \<Rightarrow> nat \<Rightarrow> eid \<Rightarrow> 'a event_core_scheme \<Rightarrow> (bool \<times> 'a event_core_scheme) option" where
  "run_calls cl fr e s =
     do { n \<leftarrow> frames s fr;
          if n = 0 then Some (False, s)
          else do {
            let s1 = upd_ev e (\<lambda>v. v\<lparr>ev_ncalls := n - 1\<rparr>) (s\<lparr>frames := (frames s)(fr := Some (n - 1))\<rparr>);
            let v = evs s1 e;
            s2 \<leftarrow> run_callback cl (ev_callback v) (ev_fd v) (ucast (ev_res v)) (ev_arg v) s1;
            if event_gotsig s2 \<or> event_break s2 then Some (True, s2) else run_calls cl fr e s2 } }"

text \<open>One event: off the queue, \<open>ncalls\<close> loaded from it, its address left in \<open>ev_pncalls\<close>.\<close>

definition take_active ::
  "('a event_core_scheme) eventop \<Rightarrow> nat \<Rightarrow> 'a event_core_scheme \<Rightarrow> eid \<Rightarrow> 'a event_core_scheme option" where
  "take_active evsel fr s e =
     do { s1 \<leftarrow> (if has (ev_events (evs s e)) EV_PERSIST then event_queue_remove s e EVLIST_ACTIVE
                  else do { (r, s') \<leftarrow> event_del evsel s e; Some s' });
          Some (upd_ev e (\<lambda>v. v\<lparr>ev_pncalls := Some fr\<rparr>)
                 (s1\<lparr>frames := (frames s1)(fr := Some (ev_ncalls (evs s1 e)))\<rparr>)) }"

partial_function (option) process_queue ::
  "('a event_core_scheme) eventop \<Rightarrow> ('a event_core_scheme) client \<Rightarrow> nat \<Rightarrow> nat \<Rightarrow> nat \<Rightarrow>
     'a event_core_scheme \<Rightarrow> 'a event_core_scheme option" where
  "process_queue evsel cl fr gen q s =
     (if aq_gen s \<noteq> gen then None
      else case tqh_first (activequeues s) q of
        None \<Rightarrow> Some s
      | Some e \<Rightarrow>
          do { s1 \<leftarrow> take_active evsel fr s e;
               (stop, s2) \<leftarrow> run_calls cl fr e s1;
               if stop then Some s2 else process_queue evsel cl fr gen q s2 })"

definition event_process_active ::
  "('a event_core_scheme) eventop \<Rightarrow> ('a event_core_scheme) client \<Rightarrow> 'a event_core_scheme \<Rightarrow>
     'a event_core_scheme option" where
  "event_process_active evsel cl s =
     (case find (\<lambda>i. tqh_first (activequeues s) i \<noteq> None) [0..<nat (nactivequeues s)] of
        None \<Rightarrow> None
      | Some q \<Rightarrow>
          let fr = next_frame s
          in do { s1 \<leftarrow> process_queue evsel cl fr (aq_gen s) q
                          (s\<lparr>next_frame := fr + 1, frames := (frames s)(fr := Some 0)\<rparr>);
                  Some (s1\<lparr>frames := (frames s1)(fr := None)\<rparr>) })"

subsection \<open>The loop\<close>

text \<open>\<open>while (event_gotsig) ...\<close>; the flag of the result says that the hook returned -1.\<close>

partial_function (option) loop_signals ::
  "('a event_core_scheme) client \<Rightarrow> 'a event_core_scheme \<Rightarrow> (bool \<times> 'a event_core_scheme) option" where
  "loop_signals cl s =
     (if event_gotsig s then
        let s1 = s\<lparr>event_gotsig := False\<rparr>
        in case event_sigcb s1 of
             None \<Rightarrow> loop_signals cl s1
           | Some f \<Rightarrow> do { (res, s2) \<leftarrow> cl_sigcb cl f s1;
                            if res = -1 then Some (True, s2) else loop_signals cl s2 }
      else Some (False, s))"

text \<open>What one round of the loop ends with: a \<open>return\<close>, a \<open>break\<close>, or the new value of \<open>done\<close>.\<close>

datatype loop_end = Ret int | Brk | Done bool

definition clear_cache :: "'a event_core_scheme \<Rightarrow> 'a event_core_scheme" where
  "clear_cache s = s\<lparr>tv_cache := Timeval 0 (tv_usec (tv_cache s))\<rparr>"

text \<open>From the computation of the timeout to the return of the backend's dispatch.\<close>

definition loop_wait ::
  "('a event_core_scheme) eventop \<Rightarrow> 32 word \<Rightarrow> timeval option \<Rightarrow> 'a event_core_scheme \<Rightarrow>
     (loop_end option \<times> timeval option \<times> 'a event_core_scheme) option" where
  "loop_wait evsel flags tv s =
     do { (tv, s) \<leftarrow> timeout_correct s tv;
          (tvp, s) \<leftarrow> (if event_count_active s = 0 \<and> \<not> has flags EVLOOP_NONBLOCK
                        then do { (r, tvp, s') \<leftarrow> timeout_next s tv; Some (tvp, s') }
                        else Some (Some (Some timerclear), s));
          let tv' = (case tvp of None \<Rightarrow> tv | Some c \<Rightarrow> c);
          if \<not> event_haveevents s then Some (Some (Ret 1), tv', s)
          else do {
            let (t, s) = gettime s;
            let s = (case t of None \<Rightarrow> s | Some now \<Rightarrow> s\<lparr>event_tv := now\<rparr>);
            arg \<leftarrow> (case tvp of None \<Rightarrow> Some None | Some None \<Rightarrow> None | Some (Some t) \<Rightarrow> Some (Some t));
            (res, s) \<leftarrow> op_dispatch evsel arg (clear_cache s);
            if res = -1 then Some (Some (Ret (-1)), tv', s) else Some (None, tv', s) } }"

definition loop_round ::
  "('a event_core_scheme) eventop \<Rightarrow> ('a event_core_scheme) client \<Rightarrow> 32 word \<Rightarrow> timeval option \<Rightarrow>
     'a event_core_scheme \<Rightarrow> (loop_end \<times> timeval option \<times> 'a event_core_scheme) option" where
  "loop_round evsel cl flags tv s =
     (if event_gotterm s then Some (Brk, tv, s\<lparr>event_gotterm := False\<rparr>)
      else if event_break s then Some (Brk, tv, s\<lparr>event_break := False\<rparr>)
      else do {
        (early, s) \<leftarrow> loop_signals cl s;
        if early then Some (Ret (-1), tv, s)
        else do {
          (ret, tv, s) \<leftarrow> loop_wait evsel flags tv s;
          case ret of
            Some r \<Rightarrow> Some (r, tv, s)
          | None \<Rightarrow> do {
              let (t, s) = gettime s;
              let s = (case t of None \<Rightarrow> s | Some now \<Rightarrow> s\<lparr>tv_cache := now\<rparr>);
              s \<leftarrow> timeout_process evsel s;
              if event_count_active s \<noteq> 0
              then do { s \<leftarrow> event_process_active evsel cl s;
                        Some (Done (event_count_active s = 0 \<and> has flags EVLOOP_ONCE), tv, s) }
              else Some (Done (has flags EVLOOP_NONBLOCK), tv, s) } } })"

partial_function (option) loop_run ::
  "('a event_core_scheme) eventop \<Rightarrow> ('a event_core_scheme) client \<Rightarrow> 32 word \<Rightarrow> timeval option \<Rightarrow>
     'a event_core_scheme \<Rightarrow> (int \<times> 'a event_core_scheme) option" where
  "loop_run evsel cl flags tv s =
     do { (fin, tv', s') \<leftarrow> loop_round evsel cl flags tv s;
          case fin of
            Ret r \<Rightarrow> Some (r, s')
          | Brk \<Rightarrow> Some (0, clear_cache s')
          | Done d \<Rightarrow> if d then Some (0, clear_cache s') else loop_run evsel cl flags tv' s' }"

definition event_base_loop ::
  "('a event_core_scheme) eventop \<Rightarrow> ('a event_core_scheme) client \<Rightarrow> 'a event_core_scheme \<Rightarrow> base_ptr \<Rightarrow>
     32 word \<Rightarrow> (int \<times> 'a event_core_scheme) option" where
  "event_base_loop evsel cl s base flags =
     (if base = NullBase then None
      else let s1 = clear_cache s;
               s2 = (if ev_signal_added (sig s1) then s1\<lparr>evsignal_base := Base\<rparr> else s1)
           in loop_run evsel cl flags None s2)"

definition event_loop ::
  "('a event_core_scheme) eventop \<Rightarrow> ('a event_core_scheme) client \<Rightarrow> 'a event_core_scheme \<Rightarrow> 32 word \<Rightarrow>
     (int \<times> 'a event_core_scheme) option" where
  "event_loop evsel cl s flags = event_base_loop evsel cl s (current_base s) flags"

definition event_dispatch ::
  "('a event_core_scheme) eventop \<Rightarrow> ('a event_core_scheme) client \<Rightarrow> 'a event_core_scheme \<Rightarrow>
     (int \<times> 'a event_core_scheme) option" where
  "event_dispatch evsel cl s = event_loop evsel cl s 0"

definition event_base_dispatch ::
  "('a event_core_scheme) eventop \<Rightarrow> ('a event_core_scheme) client \<Rightarrow> 'a event_core_scheme \<Rightarrow> base_ptr \<Rightarrow>
     (int \<times> 'a event_core_scheme) option" where
  "event_base_dispatch evsel cl s base = event_base_loop evsel cl s base 0"

definition event_once ::
  "('a event_core_scheme) eventop \<Rightarrow> 'a event_core_scheme \<Rightarrow> int \<Rightarrow> 16 word \<Rightarrow> callback \<Rightarrow> nat \<Rightarrow>
     timeval option \<Rightarrow> (int \<times> 'a event_core_scheme) option" where
  "event_once evsel s fd events cb arg tv = event_base_once evsel s (current_base s) fd events cb arg tv"

text \<open>The argument of \<open>event_loopexit_cb\<close> is the base, which has no number here; it is passed as 0.\<close>

definition event_base_loopexit ::
  "('a event_core_scheme) eventop \<Rightarrow> 'a event_core_scheme \<Rightarrow> base_ptr \<Rightarrow> timeval option \<Rightarrow>
     (int \<times> 'a event_core_scheme) option" where
  "event_base_loopexit evsel s base tv = event_base_once evsel s base (-1) EV_TIMEOUT LoopexitCb 0 tv"

definition event_loopexit ::
  "('a event_core_scheme) eventop \<Rightarrow> 'a event_core_scheme \<Rightarrow> timeval option \<Rightarrow> (int \<times> 'a event_core_scheme) option" where
  "event_loopexit evsel s tv = event_once evsel s (-1) EV_TIMEOUT LoopexitCb 0 tv"

definition event_base_loopbreak :: "'a event_core_scheme \<Rightarrow> base_ptr \<Rightarrow> int \<times> 'a event_core_scheme" where
  "event_base_loopbreak s base = (if base = NullBase then (-1, s) else (0, s\<lparr>event_break := True\<rparr>))"

definition event_loopbreak :: "'a event_core_scheme \<Rightarrow> int \<times> 'a event_core_scheme" where
  "event_loopbreak s = event_base_loopbreak s (current_base s)"

subsection \<open>Which events a timeout activates\<close>

text \<open>
  An event can be activated by the library if its priority is one of the base's and its pointer
  \<open>ev_pncalls\<close>, if it is going to be written, points to a live variable.
\<close>

definition ready :: "'a event_core_scheme \<Rightarrow> eid \<Rightarrow> bool" where
  "ready s e \<longleftrightarrow> pri_ok s e \<and> clear_ncalls s e \<noteq> None"

text \<open>An event whose timeout has run out.\<close>

definition fired :: "event \<Rightarrow> event" where
  "fired v = v\<lparr>ev_res := EV_TIMEOUT, ev_ncalls := 1, ev_pncalls := None,
               ev_flags := off_queues (ev_flags v) OR EVLIST_ACTIVE\<rparr>"

lemma fired_sel [simp]:
  "ev_fd (fired v) = ev_fd v" "ev_events (fired v) = ev_events v" "ev_callback (fired v) = ev_callback v"
  "ev_arg (fired v) = ev_arg v" "ev_pri (fired v) = ev_pri v" "ev_base (fired v) = ev_base v" "ev_timeout (fired v) = ev_timeout v"
  "ev_view (fired v) = ev_view v" "ev_flags (fired v) = off_queues (ev_flags v) OR EVLIST_ACTIVE"
  by (simp_all add: fired_def ev_view_def)

lemma clear_ncalls_safe: "clear_ncalls s e \<noteq> None \<longleftrightarrow>
    (\<forall>p. ev_pncalls (evs s e) = Some p \<and> ev_ncalls (evs s e) \<noteq> 0 \<longrightarrow> frames s p \<noteq> None)"
  by (auto simp: clear_ncalls_def write_ncalls_def split: option.splits)

lemma ready_cong:
  assumes "evs s' x = evs s x" and "lib_frame s s'"
  shows "ready s' x = ready s x"
  by (simp only: assms(1) ready_def pri_ok_def clear_ncalls_safe lib_frameD [OF assms(2)])

lemma actq_distinct: "core_ok s \<Longrightarrow> distinct (actq s p)"
  unfolding actq_def by (intro tq.lists_distinct core_okD)

lemma inq_distinct: "core_ok s \<Longrightarrow> distinct (inq s)"
  unfolding inq_def by (intro tq.lists_distinct core_okD)

text \<open>Deleting an event and activating it for \<open>EV_TIMEOUT\<close>, on any backend.\<close>

lemma active_after_delete:
  assumes ok: "core_ok s1" and del: "deleted s e s1" and base: "ev_base (evs s e) = Base" and pri: "pri_ok s e"
  obtains s2 where "event_active s1 e EV_TIMEOUT 1 = Some s2" and "core_ok s2"
    and "evs s2 = (evs s)(e := fired (evs s e))" and "lib_frame s s2" and "queues_only s1 s2"
    and "actq s2 = (\<lambda>p. filter (\<lambda>x. x \<noteq> e) (actq s p) @ (if ev_pri (evs s e) = int p then [e] else []))"
    and "inq s2 = remove1 e (inq s)" and "set (tmq s2) = set (tmq s) - {e}"
    and "timed s e \<Longrightarrow> length (tmq s2) < length (tmq s)"
proof -
  have D: "lib_frame s s1" "evs s1 = with_flags e (off_queues (ev_flags (evs s e))) s" "inq s1 = remove1 e (inq s)"
    "actq s1 = (\<lambda>p. remove1 e (actq s p))" "set (tmq s1) = set (tmq s) - {e}"
    "timed s e \<Longrightarrow> length (tmq s1) < length (tmq s)"
    using del by (simp_all add: deleted_def)
  have "\<not> active s1 e" by (simp add: D(2) flags_bit)
  then obtain s2 where s2: "event_active s1 e EV_TIMEOUT 1 = Some s2" "core_ok s2" "queues_only s1 s2"
    "evs s2 = (evs s1)(e := (evs s1 e)\<lparr>ev_res := EV_TIMEOUT, ev_ncalls := 1, ev_pncalls := None,
       ev_flags := ev_flags (evs s1 e) OR EVLIST_ACTIVE\<rparr>)"
    "actq s2 = (actq s1)(nat (ev_pri (evs s1 e)) := actq s1 (nat (ev_pri (evs s1 e))) @ [e])"
    "eventqueue s2 = eventqueue s1" "timeheap s2 = timeheap s1"
    by (rule event_active_queues [OF ok]) (use base pri lib_frameD [OF D(1)] in \<open>simp_all add: D(2) pri_ok_def\<close>)
  show thesis
  proof (rule that [of s2])
    show "evs s2 = (evs s)(e := fired (evs s e))"
      by (simp add: s2(4) D(2) with_flags_def fired_def)
    show "lib_frame s s2" using lib_frame_trans [OF D(1) queues_only_lib [OF s2(3)]] .
    have "e \<notin> set (actq s1 p)" for p
      using core_okD(6) [OF ok, of e p] \<open>\<not> active s1 e\<close> by simp
    then have "remove1 e (actq s p) = filter (\<lambda>x. x \<noteq> e) (actq s p)" for p
      by (intro remove1_filter) (simp add: D(4))
    then show "actq s2 = (\<lambda>p. filter (\<lambda>x. x \<noteq> e) (actq s p) @ (if ev_pri (evs s e) = int p then [e] else []))"
      using pri by (auto simp: s2(5) D(2,4) pri_ok_def fun_eq_iff)
    show "inq s2 = remove1 e (inq s)" using s2(6) D(3) by (simp add: inq_def)
    show "set (tmq s2) = set (tmq s) - {e}" "timed s e \<Longrightarrow> length (tmq s2) < length (tmq s)"
      using s2(7) D(5,6) by (simp_all add: tmq_def)
  qed (use s2 in simp_all)
qed

text \<open>The deadlines in the heap are normalised.\<close>

definition deadlines_ok :: "'a event_core_scheme \<Rightarrow> bool" where
  "deadlines_ok s \<longleftrightarrow> (\<forall>x. timed s x \<longrightarrow> tv_ok (deadline s x))"

text \<open>
  \<open>timeout_next\<close>: no limit without timers, none to wait if the earliest is due, and otherwise
  exactly the time until the earliest deadline.
\<close>

lemma timeout_next_ok:
  assumes ok: "core_ok s" and clock: "clock_ok s" and dl: "deadlines_ok s"
  shows "\<exists>tvp n. timeout_next s tv = Some (0, tvp, s\<lparr>tick := n\<rparr>) \<and>
    (if tmq s = [] then tvp = None
     else \<exists>e now t. timed s e \<and> (\<forall>x. timed s x \<longrightarrow> deadline s e \<le> deadline s x) \<and>
       (\<exists>n. fst (gettime (s\<lparr>tick := n\<rparr>)) = Some now) \<and> tvp = Some (Some t) \<and> tv_ok t \<and>
       usecs t = max 0 (usecs (deadline s e) - usecs now))"
proof (cases "tmq s = []")
  case True
  then have "min_heap_top (timeheap s) = Some None"
    using heapq.top_None [OF core_okD(3) [OF ok]] by (simp add: tmq_def)
  then have "timeout_next s tv = Some (0, None, s\<lparr>tick := tick s\<rparr>)" by (simp add: timeout_next_def)
  with True show ?thesis by (intro exI [of _ None] exI [of _ "tick s"]) simp
next
  case False
  then obtain e where top: "min_heap_top (timeheap s) = Some (Some e)" and "e \<in> set (tmq s)"
    and "\<forall>x\<in>set (tmq s). deadline s e \<le> deadline s x"
    using heapq.top_least [OF core_okD(3) [OF ok]] by (auto simp: tmq_def)
  then have e: "timed s e" "\<forall>x. timed s x \<longrightarrow> deadline s e \<le> deadline s x"
    using core_okD(5) [OF ok] by blast+
  obtain now n where now: "gettime s = (Some now, s\<lparr>tick := n\<rparr>)" "tv_ok now" by (rule gettime_ok [OF clock])
  have d: "tv_ok (deadline s e)" using dl e(1) by (simp add: deadlines_ok_def)
  define t where "t = (if deadline s e \<le> now then timerclear else timersub (deadline s e) now)"
  have t: "tv_ok t" "usecs t = max 0 (usecs (deadline s e) - usecs now)"
    using d now(2) by (auto simp: t_def le_iff_usecs)
  then have pos: "0 \<le> tv_sec t" "0 \<le> tv_usec t"
    using tv_sec_nonneg [OF t(1)] by (simp_all add: tv_ok_def)
  have "timeout_next s tv = Some (0, Some (Some t), s\<lparr>tick := n\<rparr>)"
    using top now(1) pos by (simp add: timeout_next_def t_def deadline_def split: if_splits)
  moreover have "fst (gettime (s\<lparr>tick := tick s\<rparr>)) = Some now" using now(1) by simp
  ultimately have "\<exists>e now t'. timed s e \<and> (\<forall>x. timed s x \<longrightarrow> deadline s e \<le> deadline s x) \<and>
      (\<exists>n. fst (gettime (s\<lparr>tick := n\<rparr>)) = Some now) \<and> Some (Some t) = Some (Some t') \<and> tv_ok t' \<and>
      usecs t' = max 0 (usecs (deadline s e) - usecs now)"
    using e t by blast
  with False show ?thesis
    using \<open>timeout_next s tv = Some (0, Some (Some t), s\<lparr>tick := n\<rparr>)\<close>
    by (intro exI [of _ "Some (Some t)"] exI [of _ n]) (simp only: if_False simp_thms)
qed

text \<open>\<open>timeout_correct\<close>: when the clock was set back, every deadline moves back by the same amount.\<close>

lemma shift_deadlines_evs:
  "distinct es \<Longrightarrow> shift_deadlines off es s =
    s\<lparr>evs := \<lambda>x. if x \<in> set es then (evs s x)\<lparr>ev_timeout := timersub (ev_timeout (evs s x)) off\<rparr> else evs s x\<rparr>"
proof (induction es arbitrary: s)
  case (Cons e es)
  have "(\<lambda>x. if x \<in> set es then (evs (upd_ev e (\<lambda>v. v\<lparr>ev_timeout := timersub (ev_timeout v) off\<rparr>) s) x)
        \<lparr>ev_timeout := timersub (ev_timeout (evs (upd_ev e (\<lambda>v. v\<lparr>ev_timeout := timersub (ev_timeout v) off\<rparr>) s) x)) off\<rparr>
      else evs (upd_ev e (\<lambda>v. v\<lparr>ev_timeout := timersub (ev_timeout v) off\<rparr>) s) x) =
    (\<lambda>x. if x \<in> set (e # es) then (evs s x)\<lparr>ev_timeout := timersub (ev_timeout (evs s x)) off\<rparr> else evs s x)"
    using Cons.prems by (auto simp: fun_eq_iff)
  then show ?case using Cons.IH Cons.prems by (simp add: upd_ev_def cong: if_cong)
qed simp

lemma core_ok_shift:
  assumes ok: "core_ok s" and dl: "deadlines_ok s" and off: "tv_ok off"
    and s': "s' = s\<lparr>evs := \<lambda>x. if timed s x then (evs s x)\<lparr>ev_timeout := timersub (ev_timeout (evs s x)) off\<rparr> else evs s x\<rparr>"
  shows "core_ok s'" and "deadlines_ok s'"
proof -
  have flags: "ev_flags (evs s' x) = ev_flags (evs s x)" "ev_pri (evs s' x) = ev_pri (evs s x)"
    "ev_base (evs s' x) = ev_base (evs s x)" for x
    by (simp_all add: s')
  have F: "inserted s' = inserted s" "active s' = active s" "timed s' = timed s" "internal s' = internal s"
    by (simp_all add: fun_eq_iff flags_bit flags)
  have dl': "deadline s' x = (if timed s x then timersub (deadline s x) off else deadline s x)" for x
    by (simp add: s' deadline_def)
  have "heap_ok (deadline s') (timeheap s)"
  proof (rule heapq.ok_rekey [OF core_okD(3) [OF ok]])
    fix a b assume "a \<in> set (helems (timeheap s))" "b \<in> set (helems (timeheap s))" and le: "deadline s a \<le> deadline s b"
    then have "timed s a" "timed s b" using core_okD(5) [OF ok] by (simp_all add: tmq_def)
    then show "deadline s' a \<le> deadline s' b"
      using le dl off by (simp add: dl' timersub_mono deadlines_ok_def)
  qed
  then show "core_ok s'"
    using ok by (simp add: core_ok_def F flags counted_def inq_def tmq_def actq_def pri_ok_def) (simp add: s')
  show "deadlines_ok s'" using dl off by (simp add: deadlines_ok_def F dl')
qed

lemma timeout_correct_ok:
  assumes ok: "core_ok s" and clock: "clock_ok s" and dl: "deadlines_ok s" and tv: "tv_ok (event_tv s)"
  shows "\<exists>tv' s'. timeout_correct s tv0 = Some (tv', s') \<and> core_ok s' \<and> deadlines_ok s' \<and>
    (if use_monotonic s then s' = s \<and> tv' = tv0
     else \<exists>now n. fst (gettime s) = Some now \<and> tv' = Some now \<and>
       s' = s\<lparr>tick := n, event_tv := now, evs := (if event_tv s \<le> now then evs s
         else (\<lambda>x. if timed s x
           then (evs s x)\<lparr>ev_timeout := timersub (ev_timeout (evs s x)) (timersub (event_tv s) now)\<rparr>
           else evs s x))\<rparr>)"
proof (cases "use_monotonic s")
  case True
  with assms show ?thesis by (simp add: timeout_correct_def)
next
  case False
  obtain now n where now: "gettime s = (Some now, s\<lparr>tick := n\<rparr>)" "tv_ok now" by (rule gettime_ok [OF clock])
  show ?thesis
  proof (cases "event_tv s \<le> now")
    case True
    have "deadlines_ok (s\<lparr>tick := n, event_tv := now\<rparr>)" using dl by (simp add: deadlines_ok_def deadline_def timed_def)
    moreover have "core_ok (s\<lparr>tick := n, event_tv := now\<rparr>)" using ok by simp
    ultimately show ?thesis
      using True False now by (simp add: timeout_correct_def) (rule exI [of _ n], simp)
  next
    case setback: False
    let ?off = "timersub (event_tv s) now"
    let ?s1 = "s\<lparr>tick := n\<rparr>"
    have H: "heap_ok (deadline s) (timeheap s)" by (rule core_okD(3) [OF ok])
    have cells: "cells_read (hp_p (timeheap s)) 0 (hp_n (timeheap s)) = Some (tmq s)"
    proof -
      have "take (hp_n (timeheap s)) (hp_p (timeheap s)) = map Some (helems (timeheap s))"
        using heap_ok_get [OF H] heap_ok_n [OF H] H
        by (intro nth_equalityI) (auto simp: heap_ok_def cell_get_Some)
      then show ?thesis using H by (simp add: cells_read_Some tmq_def heap_ok_def)
    qed
    have dist: "distinct (tmq s)" using heap_ok_distinct [OF H] by (simp add: tmq_def)
    define s2 where "s2 = ?s1\<lparr>evs := \<lambda>x. if timed s x then (evs s x)\<lparr>ev_timeout := timersub (ev_timeout (evs s x)) ?off\<rparr> else evs s x\<rparr>"
    have sh: "shift_deadlines ?off (tmq s) ?s1 = s2"
      using shift_deadlines_evs [OF dist, of ?off ?s1] core_okD(5) [OF ok] by (simp add: s2_def cong: if_cong)
    have off: "tv_ok ?off" using tv now(2) by simp
    have "core_ok ?s1" "deadlines_ok ?s1" using ok dl by (simp_all add: deadlines_ok_def deadline_def)
    note sh_ok = core_ok_shift [OF this off, of s2]
    have "core_ok s2" "deadlines_ok s2" by (rule sh_ok; simp add: s2_def cong: if_cong)+
    then have "core_ok (s2\<lparr>event_tv := now\<rparr>)" "deadlines_ok (s2\<lparr>event_tv := now\<rparr>)"
      by (simp_all add: deadlines_ok_def deadline_def timed_def)
    moreover have "timeout_correct s tv0 = Some (Some now, s2\<lparr>event_tv := now\<rparr>)"
      using False setback now(1) cells sh by (simp add: timeout_correct_def Let_def)
    ultimately show ?thesis
      using False setback now(1)
      by (intro exI [of _ "Some now"] exI [of _ "s2\<lparr>event_tv := now\<rparr>"])
        (simp add: s2_def, rule exI [of _ n], simp)
  qed
qed

text \<open>
  The state after \<open>timeout_process\<close> has found the events \<open>xs\<close> expired: they are active, in the order
  of their deadlines, behind the events that were active before, and on no other queue; every
  other event is as it was.
\<close>

definition expired :: "'a event_core_scheme \<Rightarrow> timeval \<Rightarrow> eid list \<Rightarrow> bool" where
  "expired s now xs \<longleftrightarrow> distinct xs \<and> set xs = {x. timed s x \<and> deadline s x \<le> now} \<and> sorted (map (deadline s) xs)"

definition fired_all :: "'a event_core_scheme \<Rightarrow> eid list \<Rightarrow> 'a event_core_scheme \<Rightarrow> bool" where
  "fired_all s xs s' \<longleftrightarrow> lib_frame s s' \<and> evs s' = (\<lambda>x. if x \<in> set xs then fired (evs s x) else evs s x) \<and>
     actq s' = (\<lambda>p. filter (\<lambda>x. x \<notin> set xs) (actq s p) @ filter (\<lambda>x. ev_pri (evs s x) = int p) xs) \<and>
     inq s' = filter (\<lambda>x. x \<notin> set xs) (inq s) \<and> set (tmq s') = set (tmq s) - set xs"

lemma fired_all_Nil: "core_ok s \<Longrightarrow> fired_all s [] s"
  by (simp add: fired_all_def)

lemma fired_all_Cons:
  assumes evs: "evs s2 = (evs s)(e := fired (evs s e))" and lib: "lib_frame s s2"
    and actq: "actq s2 = (\<lambda>p. filter (\<lambda>x. x \<noteq> e) (actq s p) @ (if ev_pri (evs s e) = int p then [e] else []))"
    and inq: "inq s2 = filter (\<lambda>x. x \<noteq> e) (inq s)" and tmq: "set (tmq s2) = set (tmq s) - {e}"
    and e: "e \<notin> set xs" and rest: "fired_all s2 xs s'"
  shows "fired_all s (e # xs) s'"
proof -
  have pri: "ev_pri (evs s2 x) = ev_pri (evs s x)" for x by (simp add: evs)
  have "(\<lambda>x. if x \<in> set xs then fired (evs s2 x) else evs s2 x) =
      (\<lambda>x. if x \<in> set (e # xs) then fired (evs s x) else evs s x)"
    using e by (auto simp: evs fun_eq_iff)
  moreover have "(x \<notin> set xs \<and> x \<noteq> e) = (x \<notin> set (e # xs))" for x by auto
  ultimately show ?thesis
    using rest lib_frame_trans [OF lib] e
    by (auto simp: fired_all_def pri actq inq tmq fun_eq_iff)
qed

context event_backend
begin

lemma timeout_loop_ok:
  assumes "core_ok s" and "binv s {x. inserted s x}" and "\<And>x. timed s x \<Longrightarrow> ready s x"
  shows "\<exists>s' xs. timeout_loop ops now s = Some s' \<and> core_ok s' \<and> binv s' {x. inserted s' x} \<and> own s' = own s \<and>
    expired s now xs \<and> fired_all s xs s'"
  using assms
proof (induction "length (tmq s)" arbitrary: s rule: less_induct)
  case (less s)
  note ok = less.prems(1) and H = core_okD(3) [OF less.prems(1)]
  have none: "\<exists>s' xs. Some s = Some s' \<and> core_ok s' \<and> binv s' {x. inserted s' x} \<and> own s' = own s \<and>
      expired s now xs \<and> fired_all s xs s'" if "\<And>x. timed s x \<Longrightarrow> now < deadline s x"
    using less.prems that fired_all_Nil [OF ok]
    by (intro exI [of _ s] exI [of _ "[]"]) (force simp: expired_def)
  show ?case
  proof (cases "tmq s = []")
    case True
    then have "min_heap_top (timeheap s) = Some None" using heapq.top_None [OF H] by (simp add: tmq_def)
    moreover have "\<not> timed s x" for x using core_okD(5) [OF ok, of x] True by simp
    ultimately show ?thesis using none by (simp add: timeout_loop.simps)
  next
    case False
    then obtain e where top: "min_heap_top (timeheap s) = Some (Some e)" and e: "e \<in> set (tmq s)"
      and least: "\<forall>x\<in>set (tmq s). deadline s e \<le> deadline s x"
      using heapq.top_least [OF H] by (auto simp: tmq_def)
    have te: "timed s e" using core_okD(5) [OF ok] e by blast
    show ?thesis
    proof (cases "now < deadline s e")
      case True
      then have "now < deadline s x" if "timed s x" for x
        using core_okD(5) [OF ok, of x] least that by (meson less_le_trans)
      then show ?thesis
        using none True top by (simp add: timeout_loop.simps [of _ _ s] deadline_def)
    next
      case due: False
      have base: "ev_base (evs s e) = Base" using core_okD(11) [OF ok] te by blast
      have rdy: "pri_ok s e" "clear_ncalls s e \<noteq> None" using less.prems(3) [OF te] by (simp_all add: ready_def)
      obtain r s1 where s1: "event_del ops s e = Some (r, s1)" "core_ok s1" "binv s1 {x. inserted s1 x}"
        "own s1 = own s" "deleted s e s1"
        by (rule event_del_backend [OF ok less.prems(2) base rdy(2)])
      obtain s2 where s2: "event_active s1 e EV_TIMEOUT 1 = Some s2" "core_ok s2"
        "evs s2 = (evs s)(e := fired (evs s e))" "lib_frame s s2" "queues_only s1 s2"
        "actq s2 = (\<lambda>p. filter (\<lambda>x. x \<noteq> e) (actq s p) @ (if ev_pri (evs s e) = int p then [e] else []))"
        "inq s2 = remove1 e (inq s)" "set (tmq s2) = set (tmq s) - {e}" "length (tmq s2) < length (tmq s)"
        by (rule active_after_delete [OF s1(2,5) base rdy(1)]) (use te in blast)
      have evs1: "evs s1 = with_flags e (off_queues (ev_flags (evs s e))) s"
        using s1(5) by (simp add: deleted_def)
      have "ev_view (evs s2 x) = ev_view (evs s1 x)" for x
        by (simp add: s2(3) evs1 with_flags_def ev_view_def)
      moreover have "inserted s2 = inserted s1"
        by (simp add: fun_eq_iff s2(3) evs1 flags_bit)
      ultimately have b2: "binv s2 {x. inserted s2 x}" "own s2 = own s"
        using stable [OF s1(3), of s2] queues_onlyD [OF s2(5)] s1(4) by auto
      have t2: "timed s2 x \<longleftrightarrow> timed s x \<and> x \<noteq> e" for x by (simp add: s2(3) flags_bit)
      have d2: "deadline s2 = deadline s" by (rule deadline_cong) (simp add: s2(3))
      have rdy2: "ready s2 x" if "timed s2 x" for x
        using ready_cong [of s2 x s] s2(3,4) t2 that less.prems(3) by simp
      obtain s' xs where s': "timeout_loop ops now s2 = Some s'" "core_ok s'" "binv s' {x. inserted s' x}"
        "own s' = own s2" "expired s2 now xs" "fired_all s2 xs s'"
        using less.hyps [OF s2(9,2) b2(1) rdy2] by blast
      have "expired s now (e # xs)"
        using s'(5) te due least core_okD(5) [OF ok] by (auto simp: expired_def t2 d2)
      moreover have "fired_all s (e # xs) s'"
      proof (rule fired_all_Cons [OF s2(3,4,6) _ s2(8) _ s'(6)])
        show "inq s2 = filter (\<lambda>x. x \<noteq> e) (inq s)"
          using inq_distinct [OF ok] by (simp add: s2(7) distinct_remove1_removeAll removeAll_filter_not_eq)
            (metis (mono_tags, lifting))
        show "e \<notin> set xs" using s'(5) by (simp add: expired_def t2)
      qed
      moreover have "timeout_loop ops now s = Some s'"
        using top due s1(1) s2(1) s'(1) by (simp add: timeout_loop.simps [of _ _ s] deadline_def)
      ultimately show ?thesis using s' b2(2) by blast
    qed
  qed
qed

text \<open>\<open>timeout_process\<close> reads the clock once and activates exactly the events that are due by then.\<close>

lemma timeout_process_backend:
  assumes ok: "core_ok s" and binv: "binv s {x. inserted s x}" and clock: "clock_ok s"
    and rdy: "\<And>x. timed s x \<Longrightarrow> ready s x"
  shows "\<exists>s' now n xs. timeout_process ops s = Some s' \<and> core_ok s' \<and> binv s' {x. inserted s' x} \<and> own s' = own s \<and>
    fst (gettime (s\<lparr>tick := n\<rparr>)) = Some now \<and> expired s now xs \<and> fired_all s xs s'"
proof (cases "tmq s = []")
  case True
  obtain now n where "gettime s = (Some now, s\<lparr>tick := n\<rparr>)" by (rule gettime_ok [OF clock])
  moreover have "timeout_process ops s = Some s"
    using True heap_ok_n [OF core_okD(3) [OF ok]] by (simp add: timeout_process_def min_heap_empty_def tmq_def)
  moreover have "expired s now []" using core_okD(5) [OF ok] True by (auto simp: expired_def)
  moreover have "fst (gettime (s\<lparr>tick := tick s\<rparr>)) = Some now" using calculation(1) by simp
  ultimately show ?thesis using ok binv fired_all_Nil [OF ok] by blast
next
  case False
  obtain now n where now: "gettime s = (Some now, s\<lparr>tick := n\<rparr>)" by (rule gettime_ok [OF clock])
  let ?s1 = "s\<lparr>tick := n\<rparr>"
  have lib1: "lib_frame s ?s1" by (simp add: lib_frame_def lib_rest_def)
  have ok1: "core_ok ?s1" using ok by simp
  have b1: "binv ?s1 {x. inserted ?s1 x}" "own ?s1 = own s" using stable [OF binv, of ?s1] by simp_all
  have rdy1: "ready ?s1 x" if "timed ?s1 x" for x using ready_cong [of ?s1 x s] lib1 rdy that by simp
  obtain s' xs where s': "timeout_loop ops now ?s1 = Some s'" "core_ok s'" "binv s' {x. inserted s' x}"
    "own s' = own ?s1" "expired ?s1 now xs" "fired_all ?s1 xs s'"
    using timeout_loop_ok [OF ok1 b1(1) rdy1, of now] by blast
  have "timeout_process ops s = Some s'"
    using False heap_ok_n [OF core_okD(3) [OF ok]] now s'(1)
    by (simp add: timeout_process_def min_heap_empty_def tmq_def)
  moreover have "expired s now xs"
    using s'(5) deadline_cong [of ?s1 s] by (simp add: expired_def)
  moreover have "fired_all s xs s'"
    using s'(6) lib_frame_trans [OF lib1] by (simp add: fired_all_def cong: if_cong)
  moreover have "fst (gettime (s\<lparr>tick := tick s\<rparr>)) = Some now" using now by simp
  ultimately show ?thesis using s'(2-4) b1(2) by metis
qed

end

end
