(* ===== verification/EpollBackend.thy ===== *)
theory EpollBackend
  imports Epoll Loop
begin

text \<open>
  \<open>epollops\<close> keeps the contract of \<open>event_backend\<close>: the table of descriptors and the lists of signal events
  hold inserted events only, and \<open>epoll_add\<close> and \<open>epoll_del\<close> return on every event the library
  accepts, whatever the kernel refuses.
\<close>

subsection \<open>Deleting an event of a descriptor\<close>

definition without_event :: "16 word \<Rightarrow> evepoll \<Rightarrow> evepoll" where
  "without_event w p =
     \<lparr>evread = (if has w EV_READ \<or> evread p = None \<or> \<not> has w EV_WRITE then None else evread p),
      evwrite = (if has w EV_WRITE \<or> evwrite p = None \<or> \<not> has w EV_READ then None else evwrite p)\<rparr>"

lemma EPOLL_bits:
  "has (wanted_events w) EPOLLIN \<longleftrightarrow> has w EV_READ" "has (wanted_events w) EPOLLOUT \<longleftrightarrow> has w EV_WRITE"
  "wanted_events w AND (EPOLLIN OR EPOLLOUT) = EPOLLIN OR EPOLLOUT \<longleftrightarrow> has w EV_READ \<and> has w EV_WRITE"
  by (auto simp: wanted_events_def has_def EPOLLIN_def EPOLLOUT_def)

lemma EPOLL_nonzero [simp]: "EPOLLIN \<noteq> 0" "EPOLLOUT \<noteq> 0"
  by (simp_all add: EPOLLIN_def EPOLLOUT_def)

lemma epoll_del_plan_cases:
  assumes "epoll_del_plan p w = (c, ev, nr, nw)"
    and q: "q = (let p1 = (if nr then p\<lparr>evread := None\<rparr> else p) in if nw then p1\<lparr>evwrite := None\<rparr> else p1)"
  shows "q = without_event w p"
    and "c = (if table_events q = 0 then CTL_DEL else CTL_MOD)"
    and "table_events q \<noteq> 0 \<Longrightarrow> ev = table_events q"
proof -
  have "q = without_event w p \<and> c = (if table_events q = 0 then CTL_DEL else CTL_MOD) \<and>
      (table_events q \<noteq> 0 \<longrightarrow> ev = table_events q)"
    using assms
    by (cases p; cases "has w EV_READ"; cases "has w EV_WRITE"; cases "evread p"; cases "evwrite p")
      (auto simp: epoll_del_plan_def without_event_def EPOLL_bits table_events_def)
  then show "q = without_event w p" "c = (if table_events q = 0 then CTL_DEL else CTL_MOD)"
    "table_events q \<noteq> 0 \<Longrightarrow> ev = table_events q" by blast+
qed

lemma entry_ok_without_event:
  assumes p: "entry_ok s (insert e I) i p" and e: "ev_events (evs s e) = w"
    and io: "has w EV_READ \<or> has w EV_WRITE"
  shows "entry_ok s I i (without_event w p)"
  using p e io by (auto simp: entry_ok_def without_event_def waits_def)

lemma table_ok_other:
  assumes t: "table_ok s (insert e I)" and i: "ev_fd (evs s e) \<noteq> int i"
  shows "entry_ok s I i (tab s i)"
proof -
  have "entry_ok s (insert e I) i (tab s i)" using t by (simp add: table_ok_def)
  then show ?thesis using i by (auto simp: entry_ok_def waits_def)
qed

lemma epoll_del_fd:
  assumes "\<not> has (ev_events (evs s e)) EV_SIGNAL" and "\<not> ev_fd (evs s e) \<ge> ep_nfds s"
    and "\<not> (ev_fd (evs s e) < 0 \<or> nat (ev_fd (evs s e)) \<ge> length (ep_fds s))"
    and "epoll_del_plan (ep_fds s ! nat (ev_fd (evs s e))) (ev_events (evs s e)) = (c, ev, nr, nw)"
  shows "epoll_del s e = (case epoll_ctl c (ev_fd (evs s e)) ev (s\<lparr>ep_fds := (ep_fds s)[nat (ev_fd (evs s e)) :=
      (let p1 = (if nr then (ep_fds s ! nat (ev_fd (evs s e)))\<lparr>evread := None\<rparr> else ep_fds s ! nat (ev_fd (evs s e)))
       in if nw then p1\<lparr>evwrite := None\<rparr> else p1)]\<rparr>) of (r, s2) \<Rightarrow> if r = -1 then Some (-1, s2) else Some (0, s2))"
  unfolding epoll_del_def Let_def using assms by (simp only: if_False prod.case)

lemma epoll_del_fd_ok:
  assumes t: "table_ok s (insert e I)" and fd: "0 \<le> ev_fd (evs s e)"
    and sg: "\<not> has (ev_events (evs s e)) EV_SIGNAL"
    and io: "has (ev_events (evs s e)) EV_READ \<or> has (ev_events (evs s e)) EV_WRITE"
  obtains r s' f k where "epoll_del s e = Some (r, s')" and "r = 0 \<or> r = -1" and "s' = s\<lparr>ep_fds := f, ker := k\<rparr>"
    and "k_handler k = k_handler (ker s)" and "k_env k = k_env (ker s)" and "table_ok s' I"
    and "tab s' = (let i = nat (ev_fd (evs s e)) in (tab s)(i := without_event (ev_events (evs s e)) (tab s i)))"
    and "kernel_agrees s \<Longrightarrow> \<not> k_refuse (ker s) (k_tick (ker s)) (ev_fd (evs s e)) \<Longrightarrow> kernel_agrees s'"
proof -
  let ?fd = "ev_fd (evs s e)" and ?w = "ev_events (evs s e)"
  let ?i = "nat ?fd"
  let ?p = "tab s ?i"
  have n: "ep_nfds s = int (length (ep_fds s))" using t by (simp add: table_ok_def)
  have rest: "entry_ok s I i (tab s i)" if "i \<noteq> ?i" for i
    by (rule table_ok_other [OF t]) (use that fd in auto)
  have here: "entry_ok s I ?i (without_event ?w ?p)"
    by (rule entry_ok_without_event [OF _ refl io]) (use t in \<open>simp add: table_ok_def\<close>)
  show thesis
  proof (cases "?fd \<ge> ep_nfds s")
    case True
    then have none: "?p = no_events" using n by (simp add: tab_def)
    then have w: "without_event ?w ?p = ?p" by (simp add: without_event_def no_events_def)
    have "entry_ok s I i (tab s i)" for i using rest here w by (cases "i = ?i") simp_all
    then have "table_ok s I" using t by (simp add: table_ok_def)
    moreover have "epoll_del s e = Some (0, s)" using True sg by (simp add: epoll_del_def)
    ultimately show thesis using that [of 0 s "ker s" "ep_fds s"] w by simp
  next
    case False
    then have i: "?i < length (ep_fds s)" using n fd by (simp add: nat_less_iff)
    obtain c ev nr nw where plan: "epoll_del_plan ?p ?w = (c, ev, nr, nw)" by (metis prod_cases4)
    define q where "q = (let p1 = (if nr then ?p\<lparr>evread := None\<rparr> else ?p) in if nw then p1\<lparr>evwrite := None\<rparr> else p1)"
    note Q = epoll_del_plan_cases [OF plan q_def]
    define s1 where "s1 = s\<lparr>ep_fds := (ep_fds s)[?i := q]\<rparr>"
    obtain r s2 where ctl: "epoll_ctl c ?fd ev s1 = (r, s2)" by fastforce
    obtain k where s2: "r = 0 \<or> r = -1" "s2 = s1\<lparr>ker := k\<rparr>" "table_only s1 s2"
      using epoll_ctl_cases [OF ctl] by blast
    have p: "ep_fds s ! ?i = ?p" using i by (simp add: tab_def)
    have bound: "\<not> (?fd < 0 \<or> ?i \<ge> length (ep_fds s))" using i fd by simp
    have "epoll_del s e = (if r = -1 then Some (-1, s2) else Some (0, s2))"
      by (simp only: epoll_del_fd [OF sg False bound plan [folded p], unfolded p, folded q_def, folded s1_def] ctl prod.case)
    then have del: "epoll_del s e = Some (r, s2)" using s2(1) by auto
    have tab1: "tab s1 = (tab s)(?i := q)" by (rule tab_update [OF i]) (simp add: s1_def)
    have "entry_ok s1 I j x = entry_ok s I j x" for j x by (simp add: entry_ok_def waits_def s1_def)
    then have "entry_ok s1 I j (tab s1 j)" for j
      using rest [of j] here Q(1) by (cases "j = ?i") (simp_all add: tab1)
    then have t1: "table_ok s1 I" using t by (simp add: table_ok_def) (simp add: s1_def)
    have agrees: "kernel_agrees s2" if "kernel_agrees s" "\<not> k_refuse (ker s) (k_tick (ker s)) ?fd"
    proof (rule kernel_agrees_update [OF that(1) fd])
      show "tab s2 = (tab s)(?i := q)" using tab1 by (simp add: s2(2))
      have K: "k_interest (ker s) ?fd = (if table_events ?p \<noteq> 0 then Some (table_events ?p) else None)"
        using that(1) fd by (simp add: kernel_agrees_def del: table_events_simps)
      have "table_events q \<noteq> 0 \<Longrightarrow> table_events ?p \<noteq> 0"
        using Q(1) by (auto simp: without_event_def split: if_splits)
      then show "k_interest (ker s2) = (k_interest (ker s))(?fd := if table_events q = 0 then None else Some (table_events q))"
        using ctl K that(2) Q(2,3)
        by (auto simp: epoll_ctl_def Let_def s1_def simp del: table_events_simps split: if_splits)
    qed
    show thesis
    proof (rule that [OF del s2(1) _ _ _ _ _ agrees])
      show "s2 = s\<lparr>ep_fds := (ep_fds s)[?i := q], ker := k\<rparr>" by (simp add: s2(2) s1_def)
      show "k_handler k = k_handler (ker s)" using table_onlyD(12) [OF s2(3)] by (simp add: s2(2) s1_def)
      show "k_env k = k_env (ker s)" using table_onlyD(15) [OF s2(3)] by (simp add: s2(2) s1_def)
      show "table_ok s2 I" using t1 by (simp add: s2(2))
      show "tab s2 = (let i = ?i in (tab s)(i := without_event ?w (tab s i)))" using tab1 Q(1) by (simp add: s2(2) Let_def)
    qed
  qed
qed

subsection \<open>The invariant of the signal lists\<close>

text \<open>
  The list of a signal holds the inserted events that wait for it. While it is not empty, the
  handler of the library is installed and the disposition that was in force before is kept in \<open>sh_old\<close>.
  The library's own event \<open>ev_signal\<close> waits for reading on the socket pair.
\<close>

definition sigq :: "'a event_core_scheme \<Rightarrow> nat \<Rightarrow> eid list" where
  "sigq s = tq_list (evsigevents (sig s))"

definition own_event :: "event \<Rightarrow> bool" where
  "own_event v \<longleftrightarrow> ev_base v = Base \<and> ev_events v = EV_READ OR EV_PERSIST \<and> 0 \<le> ev_fd v \<and> ev_fd v < 2 ^ 30 \<and>
     bit (ev_flags v) 4"

definition caught_by_library :: "'b epoll_world_scheme \<Rightarrow> nat \<Rightarrow> bool" where
  "caught_by_library s n \<longleftrightarrow> n < length (sh_old (sig s)) \<and> sh_old (sig s) ! n \<noteq> None \<and>
     k_handler (ker s) n = EvsignalHandler"

definition sig_ok :: "'b epoll_world_scheme \<Rightarrow> eid set \<Rightarrow> bool" where
  "sig_ok s I \<longleftrightarrow> tailqs_ok (evsigevents (sig s)) \<and>
     (\<forall>e n. e \<in> set (sigq s n) \<longleftrightarrow> e \<in> I \<and> has (ev_events (evs s e)) EV_SIGNAL \<and> ev_fd (evs s e) = int n) \<and>
     sh_old_max (sig s) = int (length (sh_old (sig s))) \<and>
     (\<forall>n. sigq s n \<noteq> [] \<longrightarrow> caught_by_library s n) \<and>
     (\<exists>es. ev_signal (sig s) = Some es \<and> own_event (evs s es) \<and> (es \<in> I \<longrightarrow> ev_signal_added (sig s))) \<and>
     evsig_lists (sig s)"

text \<open>The events the library accepts, and the events of the backend itself.\<close>

definition epoll_fit :: "event \<Rightarrow> bool" where
  "epoll_fit v \<longleftrightarrow> ev_base v = Base \<and> 0 \<le> ev_fd v \<and>
     (if has (ev_events v) EV_SIGNAL then ev_fd v < int NSIG
      else ev_fd v < 2 ^ 30 \<and> (has (ev_events v) EV_READ \<or> has (ev_events v) EV_WRITE))"

definition epoll_own :: "'b epoll_world_scheme \<Rightarrow> eid set" where
  "epoll_own s = set_option (ev_signal (sig s))"

text \<open>The kernel delivers valid signals and, as long as it refuses no request, its interest list agrees with the table.\<close>

definition watched :: "'b epoll_world_scheme \<Rightarrow> bool" where
  "watched s \<longleftrightarrow> signals_valid (ker s) \<and> ((\<forall>n fd. \<not> k_refuse (ker s) n fd) \<longrightarrow> kernel_agrees s)"

definition epoll_inv :: "'b epoll_world_scheme \<Rightarrow> eid set \<Rightarrow> bool" where
  "epoll_inv s I \<longleftrightarrow> table_ok s I \<and> sig_ok s I \<and> (\<forall>e\<in>I. epoll_fit (evs s e)) \<and> watched s"

lemma watched_cong:
  assumes "ep_fds s' = ep_fds s" and "k_interest (ker s') = k_interest (ker s)" and "k_env (ker s') = k_env (ker s)"
  shows "watched s' = watched s"
  using assms(1,2) k_envD [OF assms(3)]
  by (simp add: watched_def kernel_agrees_def tab_def cong: if_cong del: table_events_simps)

lemma watched_step:
  assumes "watched s" and "k_env (ker s') = k_env (ker s)"
    and "kernel_agrees s \<Longrightarrow> (\<And>n fd. \<not> k_refuse (ker s) n fd) \<Longrightarrow> kernel_agrees s'"
  shows "watched s'"
  using assms(1,3) k_envD [OF assms(2)] by (auto simp: watched_def)

lemma sig_okD:
  assumes "sig_ok s I"
  shows "tailqs_ok (evsigevents (sig s))"
    and "e \<in> set (sigq s n) \<longleftrightarrow> e \<in> I \<and> has (ev_events (evs s e)) EV_SIGNAL \<and> ev_fd (evs s e) = int n"
    and "sh_old_max (sig s) = int (length (sh_old (sig s)))"
    and "sigq s n \<noteq> [] \<Longrightarrow> caught_by_library s n"
    and "\<exists>es. ev_signal (sig s) = Some es \<and> own_event (evs s es) \<and> (es \<in> I \<longrightarrow> ev_signal_added (sig s))"
    and "evsig_lists (sig s)"
  using assms unfolding sig_ok_def by blast+

lemma view_eq:
  "ev_view v = ev_view w \<longleftrightarrow> ev_base v = ev_base w \<and> ev_fd v = ev_fd w \<and> ev_events v = ev_events w \<and>
     bit (ev_flags v) 4 = bit (ev_flags w) 4"
  by (auto simp: ev_view_def)

lemma own_event_view: "ev_view v = ev_view w \<Longrightarrow> own_event v = own_event w"
  by (simp add: own_event_def view_eq)

lemma epoll_fit_view: "ev_view v = ev_view w \<Longrightarrow> epoll_fit v = epoll_fit w"
  by (simp add: epoll_fit_def view_eq)

lemma sig_ok_cong:
  assumes ok: "sig_ok s I" and "sig s' = sig s" and "k_handler (ker s') = k_handler (ker s)"
    and view: "\<And>x. x \<in> I \<union> epoll_own s \<Longrightarrow> ev_view (evs s' x) = ev_view (evs s x)"
  shows "sig_ok s' I"
proof -
  have own: "own_event (evs s' es) = own_event (evs s es)" if "ev_signal (sig s) = Some es" for es
    using that view by (intro own_event_view) (simp add: epoll_own_def)
  have q: "sigq s' = sigq s" "caught_by_library s' n = caught_by_library s n" for n
    by (simp_all add: sigq_def caught_by_library_def assms)
  have "e \<in> set (sigq s n) \<longleftrightarrow> e \<in> I \<and> has (ev_events (evs s' e)) EV_SIGNAL \<and> ev_fd (evs s' e) = int n" for e n
    using sig_okD(2) [OF ok] view [of e] by (cases "e \<in> I") (simp_all add: view_eq)
  then show ?thesis
    using sig_okD(1,3,4,5,6) [OF ok] own unfolding sig_ok_def q assms(2) by blast
qed

lemma table_ok_cong:
  assumes ok: "table_ok s I" and "ep_fds s' = ep_fds s" and "ep_nfds s' = ep_nfds s"
    and view: "\<And>x. x \<in> I \<Longrightarrow> ev_view (evs s' x) = ev_view (evs s x)"
  shows "table_ok s' I"
proof -
  have w: "waits s' I i w e = waits s I i w e" for i w e
    using view [of e] by (auto simp: waits_def view_eq)
  have "tab s' = tab s" by (simp add: tab_def fun_eq_iff assms(2) cong: if_cong)
  then show ?thesis using ok by (simp add: table_ok_def entry_ok_def w assms(2,3))
qed

lemma epoll_inv_cong:
  assumes inv: "epoll_inv s I" and sig: "sig s' = sig s" and more: "event_core.more s' = event_core.more s"
    and view: "\<And>x. x \<in> I \<union> epoll_own s \<Longrightarrow> ev_view (evs s' x) = ev_view (evs s x)"
  shows "epoll_inv s' I" and "epoll_own s' = epoll_own s"
proof -
  show "epoll_own s' = epoll_own s" by (simp add: epoll_own_def sig)
  have "table_ok s' I" "sig_ok s' I"
    using inv more_sel [OF more] sig view
    by (auto simp: epoll_inv_def intro: table_ok_cong [of s I] sig_ok_cong [of s I])
  moreover have "epoll_fit (evs s' x)" if "x \<in> I" for x
    using inv view [of x] epoll_fit_view [of "evs s' x" "evs s x"] that by (simp add: epoll_inv_def)
  moreover have "watched s'" using inv watched_cong [of s' s] more_sel [OF more] by (simp add: epoll_inv_def)
  ultimately show "epoll_inv s' I" by (simp add: epoll_inv_def)
qed

subsection \<open>Installing and restoring handlers\<close>

lemma sigq_empty: "sig_ok s I \<Longrightarrow> tqh_first (evsigevents (sig s)) n = None \<longleftrightarrow> sigq s n = []"
  using tq.first_lists [OF sig_okD(1), of s I n] by (cases "sigq s n") (simp_all add: sigq_def)

lemma set_handler_ok:
  assumes max: "sh_old_max (sig s) = int (length (sh_old (sig s)))"
  obtains r s' t old k where "evsignal_set_handler s n = Some (r, s')" and "r = 0 \<or> r = -1"
    and "s' = s\<lparr>tick := t, sig := (sig s)\<lparr>sh_old := old, sh_old_max := int (length old)\<rparr>, ker := k\<rparr>"
    and "k_interest k = k_interest (ker s) \<and> k_env k = k_env (ker s)" and "length (sh_old (sig s)) \<le> length old"
    and "\<And>i. i \<noteq> n \<Longrightarrow> i < length (sh_old (sig s)) \<Longrightarrow> old ! i = sh_old (sig s) ! i"
    and "\<And>i. i \<noteq> n \<Longrightarrow> k_handler k i = k_handler (ker s) i"
    and "r = 0 \<Longrightarrow> n < length old \<and> old ! n = Some (k_handler (ker s) n) \<and> k_handler k n = EvsignalHandler"
    and "r = -1 \<Longrightarrow> k_handler k = k_handler (ker s)"
proof -
  define grow where "grow \<longleftrightarrow> int n \<ge> sh_old_max (sig s)"
  define o1 where "o1 = (if grow then sh_old (sig s) @ replicate (n + 1 - length (sh_old (sig s))) None else sh_old (sig s))"
  define s0 where "s0 = s\<lparr>tick := tick s + 1\<rparr>"
  define s1 where "s1 = s\<lparr>tick := tick s + 1, sig := (sig s)\<lparr>sh_old := o1, sh_old_max := int (length o1)\<rparr>\<rparr>"
  define s2 where "s2 = s1\<lparr>tick := tick s1 + 1\<rparr>"
  have len: "n < length o1" "length (sh_old (sig s)) \<le> length o1"
    using max by (auto simp: o1_def grow_def)
  have keep: "o1 ! i = sh_old (sig s) ! i" if "i < length (sh_old (sig s))" for i
    using that by (simp add: o1_def nth_append)
  have grown: "(if grow then upd_sig (\<lambda>g. g\<lparr>sh_old := take (nat (sh_old_max g)) (sh_old g) @
      replicate (n + 1 - nat (sh_old_max g)) None, sh_old_max := int n + 1\<rparr>) s0 else s0) = s1"
    using max by (auto simp: s1_def s0_def o1_def grow_def upd_sig_def)
  have old2: "set_sh_old n h s2 = Some (s2\<lparr>sig := (sig s2)\<lparr>sh_old := o1[n := h]\<rparr>\<rparr>)" for h
    using len by (simp add: set_sh_old_def upd_sig_def s2_def s1_def)
  consider "grow \<and> \<not> os_alloc (os s) (tick s) ((n + 1) * sizeof_ptr)"
    | "\<not> (grow \<and> \<not> os_alloc (os s) (tick s) ((n + 1) * sizeof_ptr))" "\<not> os_alloc (os s1) (tick s1) 152"
    | "\<not> (grow \<and> \<not> os_alloc (os s) (tick s) ((n + 1) * sizeof_ptr))" "os_alloc (os s1) (tick s1) 152"
    by blast
  then show thesis
  proof cases
    case 1
    then have "evsignal_set_handler s n = Some (-1, s0)"
      by (simp add: evsignal_set_handler_def grow_def s0_def)
    then show thesis
      by (rule that [of "-1" s0 "ker s" "sh_old (sig s)" "tick s + 1"]) (simp_all add: s0_def flip: max)
  next
    case 2
    have "evsignal_set_handler s n = Some (-1, s2\<lparr>sig := (sig s2)\<lparr>sh_old := o1[n := None]\<rparr>\<rparr>)"
      unfolding evsignal_set_handler_def Let_def grow_def [symmetric] s0_def [symmetric] if_not_P [OF 2(1)]
        grown s2_def [symmetric]
      using 2(2) old2 by simp
    then show thesis
      by (rule that [of "-1" _ "ker s" "o1[n := None]" "tick s + 2"])
        (use len keep in \<open>simp_all add: s2_def s1_def\<close>)
  next
    case 3
    have set: "evsignal_set_handler s n =
        (case sigaction_set n EvsignalHandler s2 of
           (None, s3) \<Rightarrow> do { s4 \<leftarrow> set_sh_old n None s3; Some (-1, s4) }
         | (Some old, s3) \<Rightarrow> do { s4 \<leftarrow> set_sh_old n (Some old) s3; Some (0, s4) })"
      unfolding evsignal_set_handler_def Let_def grow_def [symmetric] s0_def [symmetric] if_not_P [OF 3(1)]
        grown s2_def [symmetric]
      using 3(2) by simp
    let ?k = "ker s"
    have sel: "ker s2 = ?k" "sig s2 = (sig s)\<lparr>sh_old := o1, sh_old_max := int (length o1)\<rparr>"
      by (simp_all add: s2_def s1_def)
    have old3: "set_sh_old n h (s2\<lparr>ker := k\<rparr>) = Some (s2\<lparr>ker := k, sig := (sig s2)\<lparr>sh_old := o1[n := h]\<rparr>\<rparr>)" for h k
      using len by (simp add: set_sh_old_def upd_sig_def s2_def s1_def)
    show thesis
    proof (cases "k_sigfail ?k (k_tick ?k) n")
      case True
      let ?k1 = "?k\<lparr>k_tick := k_tick ?k + 1\<rparr>"
      have "evsignal_set_handler s n = Some (-1, s2\<lparr>ker := ?k1, sig := (sig s2)\<lparr>sh_old := o1[n := None]\<rparr>\<rparr>)"
        using True by (simp add: set sigaction_set_def Let_def sel(1) old3)
      then show thesis
        by (rule that [of "-1" _ ?k1 "o1[n := None]" "tick s + 2"])
          (use len keep in \<open>simp_all add: s2_def s1_def\<close>)
    next
      case False
      let ?k1 = "?k\<lparr>k_tick := k_tick ?k + 1, k_handler := (k_handler ?k)(n := EvsignalHandler)\<rparr>"
      let ?h = "Some (k_handler ?k n)"
      have "evsignal_set_handler s n = Some (0, s2\<lparr>ker := ?k1, sig := (sig s2)\<lparr>sh_old := o1[n := ?h]\<rparr>\<rparr>)"
        using False by (simp add: set sigaction_set_def Let_def sel(1) old3)
      then show thesis
        by (rule that [of 0 _ ?k1 "o1[n := ?h]" "tick s + 2"])
          (use len keep in \<open>simp_all add: s2_def s1_def\<close>)
    qed
  qed
qed

lemma restore_handler_ok:
  assumes "n < length (sh_old (sig s))"
  obtains r k where "evsignal_restore_handler s n =
      Some (r, s\<lparr>sig := (sig s)\<lparr>sh_old := (sh_old (sig s))[n := None]\<rparr>, ker := k\<rparr>)"
    and "r = 0 \<or> r = -1" and "k_interest k = k_interest (ker s) \<and> k_env k = k_env (ker s)"
    and "\<And>i. i \<noteq> n \<Longrightarrow> k_handler k i = k_handler (ker s) i"
    and "\<And>h. r = 0 \<Longrightarrow> sh_old (sig s) ! n = Some h \<Longrightarrow> k_handler k n = h"
proof -
  define s1 where "s1 = s\<lparr>sig := (sig s)\<lparr>sh_old := (sh_old (sig s))[n := None]\<rparr>\<rparr>"
  have r: "evsignal_restore_handler s n =
      (case sh_old (sig s) ! n of None \<Rightarrow> Some (0, s1)
       | Some h \<Rightarrow> (case sigaction_set n h s1 of (None, s2) \<Rightarrow> Some (-1, s2) | (Some _, s2) \<Rightarrow> Some (0, s2)))"
    using assms by (simp add: evsignal_restore_handler_def set_sh_old_def upd_sig_def flip: s1_def)
  let ?k = "ker s"
  have sel: "ker s1 = ?k" by (simp add: s1_def)
  show thesis
  proof (cases "sh_old (sig s) ! n")
    case None
    then show thesis using that [of 0 ?k] r by (simp add: s1_def)
  next
    case (Some h)
    show thesis
    proof (cases "k_sigfail ?k (k_tick ?k) n")
      case True
      have "evsignal_restore_handler s n = Some (-1, s1\<lparr>ker := ?k\<lparr>k_tick := k_tick ?k + 1\<rparr>\<rparr>)"
        using True Some by (simp add: r sigaction_set_def Let_def sel)
      then show thesis
        by (intro that [of "-1" "?k\<lparr>k_tick := k_tick ?k + 1\<rparr>"]) (simp_all add: s1_def)
    next
      case False
      let ?k1 = "?k\<lparr>k_tick := k_tick ?k + 1, k_handler := (k_handler ?k)(n := h)\<rparr>"
      have "evsignal_restore_handler s n = Some (0, s1\<lparr>ker := ?k1\<rparr>)"
        using False Some by (simp add: r sigaction_set_def Let_def sel)
      then show thesis
        by (intro that [of 0 ?k1]) (simp_all add: s1_def Some)
    qed
  qed
qed

subsection \<open>Deleting a signal event\<close>

lemma sig_ok_remove:
  assumes ok: "sig_ok s (insert e I)" and e: "e \<notin> I" "has (ev_events (evs s e)) EV_SIGNAL" "ev_fd (evs s e) = int n"
    and s': "evs s' = evs s" "sig s' = (sig s)\<lparr>evsigevents := tailq_remove n e (evsigevents (sig s)), sh_old := old\<rparr>"
      "length old = length (sh_old (sig s))"
    and caught: "\<And>m. sigq s' m \<noteq> [] \<Longrightarrow> caught_by_library s' m"
  shows "sig_ok s' I" and "sigq s' = (sigq s)(n := remove1 e (sigq s n))"
proof -
  note D = sig_okD [OF ok]
  have m: "e \<in> set (sigq s n)" using D(2) e by simp
  note tq = tq.remove_lists [OF D(1) m [unfolded sigq_def]] and tqs = tq.remove_set [OF D(1) m [unfolded sigq_def]]
  show q: "sigq s' = (sigq s)(n := remove1 e (sigq s n))" using tq by (simp add: sigq_def s'(2))
  have "x \<in> set (sigq s' k) \<longleftrightarrow> x \<in> I \<and> has (ev_events (evs s x)) EV_SIGNAL \<and> ev_fd (evs s x) = int k" for x k
    using tqs [of k] D(2) [of x k] e by (auto simp: sigq_def s'(2))
  moreover have "\<exists>es. ev_signal (sig s') = Some es \<and> own_event (evs s' es) \<and> (es \<in> I \<longrightarrow> ev_signal_added (sig s'))"
    using D(5) by (auto simp: s')
  ultimately show "sig_ok s' I"
    using tq(1) D(3,6) caught by (simp add: sig_ok_def s')
qed

lemma table_ok_signal:
  "table_ok s (insert e I) \<Longrightarrow> has (ev_events (evs s e)) EV_SIGNAL \<Longrightarrow> table_ok s I"
  by (auto simp: table_ok_def entry_ok_def waits_def)

lemma evsignal_del_ok:
  assumes inv: "epoll_inv s (insert e I)" and e: "e \<notin> I" "has (ev_events (evs s e)) EV_SIGNAL"
  obtains r s' g k where "evsignal_del s e = Some (r, s')" and "r = 0 \<or> r = -1" and "s' = s\<lparr>sig := g, ker := k\<rparr>"
    and "ev_signal g = ev_signal (sig s)" and "evsigcaught g = evsigcaught (sig s)"
    and "evsignal_caught g = evsignal_caught (sig s)" and "epoll_inv s' I"
    and "sigq s' = (sigq s)(nat (ev_fd (evs s e)) := remove1 e (sigq s (nat (ev_fd (evs s e)))))"
    and "\<And>i. i \<noteq> nat (ev_fd (evs s e)) \<Longrightarrow> k_handler k i = k_handler (ker s) i"
    and "\<And>h. r = 0 \<Longrightarrow> sigq s' (nat (ev_fd (evs s e))) = [] \<Longrightarrow> sh_old (sig s) ! nat (ev_fd (evs s e)) = Some h \<Longrightarrow>
      k_handler k (nat (ev_fd (evs s e))) = h"
proof -
  have sg: "sig_ok s (insert e I)" and tb: "table_ok s I" and fit: "epoll_fit (evs s e)"
    and fits: "\<forall>x\<in>I. epoll_fit (evs s x)" and w: "watched s"
    using inv table_ok_signal e(2) by (auto simp: epoll_inv_def)
  note D = sig_okD [OF sg]
  define n where "n = nat (ev_fd (evs s e))"
  have fd: "ev_fd (evs s e) = int n" "n < NSIG" "ev_base (evs s e) = Base"
    using fit e(2) by (auto simp: epoll_fit_def n_def NSIG_def)
  have m: "e \<in> set (sigq s n)" using D(2) e fd by simp
  then have caught: "caught_by_library s n" using D(4) [of n] by force
  define s1 where "s1 = upd_sig (\<lambda>g. g\<lparr>evsigevents := tailq_remove n e (evsigevents g)\<rparr>) s"
  have sig1: "evs s1 = evs s" "sig s1 = (sig s)\<lparr>evsigevents := tailq_remove n e (evsigevents (sig s)), sh_old := sh_old (sig s)\<rparr>"
    by (simp_all add: s1_def upd_sig_def)
  have q1: "sigq s1 = (sigq s)(n := remove1 e (sigq s n))"
    using tq.remove_lists(2) [OF D(1) m [unfolded sigq_def]] by (simp add: sigq_def sig1)
  have first: "tqh_first (evsigevents (sig s1)) n = None \<longleftrightarrow> sigq s1 n = []"
    using tq.first_lists [OF tq.remove_lists(1) [OF D(1) m [unfolded sigq_def]], of n]
    by (cases "sigq s1 n") (simp_all add: sigq_def sig1)
  have del: "evsignal_del s e = (if sigq s1 n \<noteq> [] then Some (0, s1) else evsignal_restore_handler s1 n)"
    using fd D(6) by (simp add: evsignal_del_def n_def [symmetric] s1_def [symmetric] Let_def NSIG_def first del: not_None_eq)
  have old_caught: "caught_by_library s k" if "sigq s1 k \<noteq> []" for k
    using that D(4) [of k] caught by (cases "k = n") (simp_all add: q1)
  show thesis
  proof (cases "sigq s1 n = []")
    case False
    have "caught_by_library s1 k" if "sigq s1 k \<noteq> []" for k
      using old_caught [OF that] by (simp add: caught_by_library_def s1_def upd_sig_def)
    then have "sig_ok s1 I" using sig_ok_remove [OF sg e(1,2) fd(1) sig1] by blast
    moreover have "table_ok s1 I" by (rule table_ok_cong [OF tb]) (simp_all add: s1_def upd_sig_def)
    moreover have "watched s1 = watched s" by (rule watched_cong) (simp_all add: s1_def upd_sig_def)
    ultimately have "epoll_inv s1 I" using fits w by (simp add: epoll_inv_def sig1)
    then show thesis
      using that [of 0 s1 "ker s" "sig s1"] del False q1 by (simp add: n_def [symmetric]) (simp add: s1_def upd_sig_def)
  next
    case True
    have "n < length (sh_old (sig s1))" using caught by (simp add: caught_by_library_def sig1)
    then obtain r k where r: "evsignal_restore_handler s1 n =
        Some (r, s1\<lparr>sig := (sig s1)\<lparr>sh_old := (sh_old (sig s1))[n := None]\<rparr>, ker := k\<rparr>)"
      "r = 0 \<or> r = -1" "k_interest k = k_interest (ker s1) \<and> k_env k = k_env (ker s1)" "\<And>i. i \<noteq> n \<Longrightarrow> k_handler k i = k_handler (ker s1) i"
      "\<And>h. r = 0 \<Longrightarrow> sh_old (sig s1) ! n = Some h \<Longrightarrow> k_handler k n = h"
      by (rule restore_handler_ok) blast
    define s2 where "s2 = s1\<lparr>sig := (sig s1)\<lparr>sh_old := (sh_old (sig s1))[n := None]\<rparr>, ker := k\<rparr>"
    have sig2: "evs s2 = evs s" "sig s2 = (sig s)\<lparr>evsigevents := tailq_remove n e (evsigevents (sig s)),
        sh_old := (sh_old (sig s))[n := None]\<rparr>"
      by (simp_all add: s2_def sig1)
    have q2: "sigq s2 = sigq s1" by (simp add: sigq_def sig2 sig1)
    have "caught_by_library s2 i" if "sigq s2 i \<noteq> []" for i
    proof -
      have "i \<noteq> n" using that True by (auto simp: q2)
      moreover have "caught_by_library s i" by (rule old_caught) (use that q2 in simp)
      ultimately show ?thesis
        using r(4) [of i] by (simp add: caught_by_library_def s2_def sig1) (simp add: s1_def upd_sig_def)
    qed
    then have "sig_ok s2 I" using sig_ok_remove [OF sg e(1,2) fd(1) sig2] by simp
    moreover have "table_ok s2 I" by (rule table_ok_cong [OF tb]) (simp_all add: s2_def s1_def upd_sig_def)
    moreover have "watched s2 = watched s" using r(3) by (intro watched_cong) (simp_all add: s2_def s1_def upd_sig_def)
    ultimately have "epoll_inv s2 I" using fits w by (simp add: epoll_inv_def sig2)
    then show thesis
      using that [of r s2 k "sig s2"] del True q1 q2 r
      by (simp add: n_def [symmetric] s2_def [symmetric] sig1) (simp add: s2_def s1_def upd_sig_def)
  qed
qed

subsection \<open>Adding a signal event\<close>

lemma table_only_add_frame: "table_only s s' \<Longrightarrow> add_frame X s s'"
  by (simp add: add_frame_def table_onlyD inq_def)

lemma add_frame_trans:
  assumes "add_frame X s t" and "add_frame X t u"
  shows "add_frame X s u"
proof -
  have "evs u x = evs s x \<or> evs u x = (evs s x)\<lparr>ev_flags := ev_flags (evs s x) OR EVLIST_INSERTED\<rparr>" for x
  proof -
    have "evs t x = evs s x \<or> evs t x = (evs s x)\<lparr>ev_flags := ev_flags (evs s x) OR EVLIST_INSERTED\<rparr>"
      "evs u x = evs t x \<or> evs u x = (evs t x)\<lparr>ev_flags := ev_flags (evs t x) OR EVLIST_INSERTED\<rparr>"
      using assms unfolding add_frame_def by blast+
    then show ?thesis by (elim disjE) (simp_all add: or.assoc)
  qed
  then show ?thesis using assms lib_frame_trans [of s t u] by (simp add: add_frame_def)
qed

lemma add_frame_upd [simp]:
  "add_frame X s s" "add_frame X s (s\<lparr>tick := t, sig := g, ker := k\<rparr>)" "add_frame X s (s\<lparr>evsignal_base := b\<rparr>)"
  "add_frame X s (upd_sig f s)"
  by (simp_all add: add_frame_def lib_frame_def lib_rest_def inq_def upd_sig_def)

lemma core_ok_ker [simp]: "core_ok (s\<lparr>ker := k\<rparr>) = core_ok s" "core_ok (upd_sig f s) = core_ok s"
  by (rule core_ok_cong; simp add: upd_sig_def)+

lemma own_wants_io:
  assumes "own_event v"
  shows "has (ev_events v) (EV_READ OR EV_WRITE OR EV_SIGNAL)" and "has (ev_events v) EV_READ"
    and "\<not> has (ev_events v) EV_SIGNAL" and "epoll_fit v"
proof -
  have "has (EV_READ OR EV_PERSIST :: 16 word) EV_READ" "\<not> has (EV_READ OR EV_PERSIST :: 16 word) EV_SIGNAL"
    by (simp_all add: has_def EV_READ_def EV_PERSIST_def EV_SIGNAL_def)
  then show "has (ev_events v) EV_READ" "\<not> has (ev_events v) EV_SIGNAL"
    "has (ev_events v) (EV_READ OR EV_WRITE OR EV_SIGNAL)" "epoll_fit v"
    using assms by (simp_all add: own_event_def epoll_fit_def has_or)
qed

text \<open>Adding \<open>ev_signal\<close> itself, through the backend one level down.\<close>

lemma add_own_ok:
  assumes ok: "core_ok s" and t: "table_ok s {x. inserted s x}" and es: "own_event (evs s es)"
    and new: "\<not> inserted s es" "\<not> active s es" "\<not> timed s es"
  obtains r s' where "event_add (epollops (Suc n)) s es None = Some (r, s')" and "r = 0 \<or> r = -1" and "core_ok s'"
    and "add_frame {es} s s'" and "sig s' = sig s" and "k_handler (ker s') = k_handler (ker s)"
    and "evsignal_base s' = evsignal_base s"
    and "table_ok s' {x. inserted s' x}" and "inserted s' es \<longleftrightarrow> r = 0"
    and "{x. inserted s' x} = {x. inserted s x} \<union> (if r = 0 then {es} else {})"
    and "watched s \<Longrightarrow> watched s'"
proof -
  note W = own_wants_io [OF es]
  have fd: "0 \<le> ev_fd (evs s es)" "ev_fd (evs s es) < 2 ^ 30" "ev_base (evs s es) = Base"
    using es by (simp_all add: own_event_def)
  obtain r s1 where s1: "epoll_add_fd s es = Some (r, s1)" "r = 0 \<or> r = -1" "table_only s s1"
    "table_ok s1 (if r = -1 then {x. inserted s x} else insert es {x. inserted s x})"
    "kernel_agrees s \<Longrightarrow> kernel_agrees s1"
    by (rule epoll_add_fd_ok [OF t fd(1,2) W(3)]) (use W in blast)+
  have w1: "watched s \<Longrightarrow> watched s1" using watched_step [OF _ table_onlyD(15) [OF s1(3)]] s1(5) by blast
  have ok1: "core_ok s1" using ok table_only_core_ok [OF s1(3)] by simp
  note T = table_onlyD [OF s1(3)]
  have ins1: "inserted s1 = inserted s" by (simp add: inserted_def fun_eq_iff T(1))
  have add: "event_add (epollops (Suc n)) s es None =
      (if r = -1 then Some (-1, s1) else do { s2 \<leftarrow> event_queue_insert s1 es EVLIST_INSERTED; Some (0, s2) })"
    using fd(3) core_okD(10) [OF ok, of es] W s1(1,2) new
    by (auto simp: event_add_def event_add_reserve_def event_add_insert_def flags_ok_def epoll_add_def has_or
        inserted_def active_def)
  show thesis
  proof (cases "r = -1")
    case True
    then show thesis
      using that [of "-1" s1] add ok1 table_only_add_frame [OF s1(3)] s1(4) w1 T ins1 new(1) by simp
  next
    case False
    have "\<not> inserted s1 es" "ev_base (evs s1 es) = Base" using new fd ins1 T(1) by simp_all
    then obtain s2 where s2: "event_queue_insert s1 es EVLIST_INSERTED = Some s2"
      "moves s1 es (ev_flags (evs s1 es) OR EVLIST_INSERTED) s2" "inq s2 = inq s1 @ [es]"
      "activequeues s2 = activequeues s1" "timeheap s2 = timeheap s1"
      by (rule queue_insert_inserted [OF ok1])
    note M = movesD [OF s2(2)] and Q = queues_onlyD [OF movesD(2) [OF s2(2)]]
    have ins2: "{x. inserted s2 x} = insert es {x. inserted s x}"
      using ins1 by (auto simp: M(3) flags_bit fun_eq_iff)
    have "event_count_active s2 = event_count_active s1"
    proof -
      have "active s2 = active s1" by (simp add: fun_eq_iff M(3) flags_bit)
      then show ?thesis using core_okD(9) [OF M(1)] core_okD(9) [OF ok1] by simp
    qed
    then have "add_frame {es} s1 s2"
      using queues_only_lib [OF M(2)] s2(3-5) by (auto simp: add_frame_def M(3) Q with_flags_def)
    then have frame: "add_frame {es} s s2"
      using table_only_add_frame [OF s1(3)] add_frame_trans by blast
    have view: "ev_view (evs s2 x) = ev_view (evs s1 x)" for x by (simp add: M(3) with_flags_def ev_view_def)
    note more = more_sel [OF Q(17)]
    have "table_ok s2 (insert es {x. inserted s x})"
      by (rule table_ok_cong [of s1]) (use s1(4) False more view in simp_all)
    moreover have "watched s2 = watched s1" by (rule watched_cong) (simp_all add: more)
    ultimately show thesis
      using that [of 0 s2] add s1(2) w1 False s2(1) M(1) frame Q T more ins2 by auto
  qed
qed

lemma sig_ok_append:
  assumes ok: "sig_ok s J" and e: "e \<notin> J" "has (ev_events (evs s e)) EV_SIGNAL" "ev_fd (evs s e) = int m"
    "ev_signal (sig s) \<noteq> Some e" and caught: "caught_by_library s m"
    and s': "s' = upd_sig (\<lambda>g. g\<lparr>evsigevents := tailq_insert_tail m e (evsigevents g)\<rparr>) s"
  shows "sig_ok s' (insert e J)" and "sigq s' = (sigq s)(m := sigq s m @ [e])"
proof -
  note D = sig_okD [OF ok]
  have new: "e \<notin> set (tq_list (evsigevents (sig s)) q)" for q
    using D(2) [of e q] e(1) by (simp add: sigq_def)
  note tq = tq.insert_tail [OF D(1) new, of m]
  show q: "sigq s' = (sigq s)(m := sigq s m @ [e])" using tq by (simp add: sigq_def s' upd_sig_def)
  have "x \<in> set (sigq s' k) \<longleftrightarrow> x \<in> insert e J \<and> has (ev_events (evs s x)) EV_SIGNAL \<and> ev_fd (evs s x) = int k" for x k
    using D(2) [of x k] e by (auto simp: q)
  moreover have "caught_by_library s' k" if "sigq s' k \<noteq> []" for k
  proof -
    have "caught_by_library s k" using that D(4) [of k] caught by (cases "k = m") (simp_all add: q)
    then show ?thesis by (simp add: caught_by_library_def s' upd_sig_def)
  qed
  moreover have "\<exists>es. ev_signal (sig s) = Some es \<and> own_event (evs s es) \<and> (es \<in> insert e J \<longrightarrow> ev_signal_added (sig s))"
    using D(5) e(4) by auto
  ultimately show "sig_ok s' (insert e J)"
    using tq D(3,6) unfolding sig_ok_def by (simp add: s' upd_sig_def)
qed

lemma sig_ok_own_added:
  assumes ok: "sig_ok s J" and es: "ev_signal (sig s) = Some es"
  shows "sig_ok (upd_sig (\<lambda>g. g\<lparr>ev_signal_added := True\<rparr>) s) (insert es J)"
proof -
  have own: "own_event (evs s es)" using sig_okD(5) [OF ok] es by auto
  have "es \<notin> set (sigq s k)" for k using sig_okD(2) [OF ok, of es k] own_wants_io(3) [OF own] by simp
  moreover have "sigq (upd_sig (\<lambda>g. g\<lparr>ev_signal_added := True\<rparr>) s) = sigq s" by (simp add: sigq_def upd_sig_def)
  moreover have "caught_by_library (upd_sig (\<lambda>g. g\<lparr>ev_signal_added := True\<rparr>) s) k = caught_by_library s k" for k
    by (simp add: caught_by_library_def upd_sig_def)
  ultimately show ?thesis
    using ok es own own_wants_io(3) [OF own] unfolding sig_ok_def by (auto simp: upd_sig_def)
qed

text \<open>What installing the library's handler for signal \<open>m\<close> keeps, from the state \<open>s\<close> in which it began.\<close>

definition installs :: "'b epoll_world_scheme \<Rightarrow> nat \<Rightarrow> int \<Rightarrow> 'b epoll_world_scheme \<Rightarrow> bool" where
  "installs s m r s' \<longleftrightarrow> core_ok s' \<and> add_frame (epoll_own s) s s' \<and> epoll_own s' = epoll_own s \<and>
     epoll_inv s' {x. inserted s' x} \<and> sigq s' = sigq s \<and>
     (r = 0 \<longrightarrow> caught_by_library s' m \<and> sh_old (sig s') ! m = Some (k_handler (ker s) m)) \<and>
     (\<forall>i. i \<noteq> m \<longrightarrow> k_handler (ker s') i = k_handler (ker s) i)"

lemma install_handler_ok:
  assumes ok: "core_ok s" and inv: "epoll_inv s {x. inserted s x}" and empty: "sigq s m = []"
  obtains r s1 where "evsignal_set_handler s m = Some (r, s1)" and "r = 0 \<or> r = -1" and "installs s m r s1"
    and "evs s1 = evs s" and "ev_signal (sig s1) = ev_signal (sig s)" and "ev_signal_added (sig s1) = ev_signal_added (sig s)"
    and "activequeues s1 = activequeues s"
proof -
  have sg: "sig_ok s {x. inserted s x}" and tb: "table_ok s {x. inserted s x}"
    using inv by (simp_all add: epoll_inv_def)
  note D = sig_okD [OF sg]
  obtain r s1 t old k where h: "evsignal_set_handler s m = Some (r, s1)" "r = 0 \<or> r = -1"
    "s1 = s\<lparr>tick := t, sig := (sig s)\<lparr>sh_old := old, sh_old_max := int (length old)\<rparr>, ker := k\<rparr>"
    "k_interest k = k_interest (ker s) \<and> k_env k = k_env (ker s)" "length (sh_old (sig s)) \<le> length old"
    "\<And>i. i \<noteq> m \<Longrightarrow> i < length (sh_old (sig s)) \<Longrightarrow> old ! i = sh_old (sig s) ! i"
    "\<And>i. i \<noteq> m \<Longrightarrow> k_handler k i = k_handler (ker s) i"
    "r = 0 \<Longrightarrow> m < length old \<and> old ! m = Some (k_handler (ker s) m) \<and> k_handler k m = EvsignalHandler"
    by (rule set_handler_ok [OF D(3), of m]) blast
  have ins1: "inserted s1 = inserted s" "evs s1 = evs s" by (simp_all add: h(3) inserted_def fun_eq_iff)
  have q1: "sigq s1 = sigq s" by (simp add: h(3) sigq_def)
  have caught1: "caught_by_library s1 i" if "sigq s i \<noteq> []" for i
  proof -
    have i: "i \<noteq> m" using that empty by auto
    show ?thesis using D(4) [OF that] h(6,7) [OF i] i h(5) by (auto simp: caught_by_library_def) (simp_all add: h(3))
  qed
  have "table_ok s1 {x. inserted s x}" by (rule table_ok_cong [OF tb]) (simp_all add: h(3))
  moreover have "sig_ok s1 {x. inserted s x}"
    using D(1,2,5,6) caught1 unfolding sig_ok_def q1 ins1 by (simp add: h(3))
  moreover have "watched s1 = watched s" using h(4) by (intro watched_cong) (simp_all add: h(3))
  ultimately have "epoll_inv s1 {x. inserted s1 x}" using inv by (simp add: epoll_inv_def ins1)
  moreover have "core_ok s1" using core_ok_ker(1) ok by (simp add: h(3))
  moreover have "r = 0 \<Longrightarrow> caught_by_library s1 m" using h(8) by (simp add: caught_by_library_def h(3))
  ultimately have "installs s m r s1"
    unfolding installs_def using h(7,8) q1 by (simp add: h(3) epoll_own_def)
  then show thesis by (rule that [OF h(1,2)]) (simp_all add: h(3))
qed

lemma installs_base: "installs s m r s1 \<Longrightarrow> installs s m r (s1\<lparr>evsignal_base := b\<rparr>)"
  using epoll_inv_cong(1) [of s1 "{x. inserted s1 x}" "s1\<lparr>evsignal_base := b\<rparr>"] add_frame_trans [of _ s s1]
  by (simp add: installs_def inserted_def sigq_def caught_by_library_def epoll_own_def)

text \<open>The library's own event enters the queues with the first signal.\<close>

lemma installs_own:
  assumes s2: "installs s m 0 s2" and es: "ev_signal (sig s2) = Some es" "own_event (evs s2 es)"
    and new: "\<not> inserted s2 es" "\<not> active s2 es" "\<not> timed s2 es"
  obtains r s3 where "event_add (epollops (Suc n)) s2 es None = Some (r, s3)" and "r = 0 \<or> r = -1"
    and "installs s m r (if r = 0 then upd_sig (\<lambda>g. g\<lparr>ev_signal_added := True\<rparr>) s3 else s3)"
    and "evsignal_base s3 = evsignal_base s2"
proof -
  note I = s2 [unfolded installs_def]
  have t2: "table_ok s2 {x. inserted s2 x}" and ok2: "core_ok s2" using I by (simp_all add: epoll_inv_def)
  have own: "epoll_own s = {es}" using I es(1) by (simp add: epoll_own_def)
  obtain r s3 where s3: "event_add (epollops (Suc n)) s2 es None = Some (r, s3)" "r = 0 \<or> r = -1"
    "core_ok s3" "add_frame {es} s2 s3" "sig s3 = sig s2" "k_handler (ker s3) = k_handler (ker s2)"
    "evsignal_base s3 = evsignal_base s2" "table_ok s3 {x. inserted s3 x}"
    "{x. inserted s3 x} = {x. inserted s2 x} \<union> (if r = 0 then {es} else {})" "watched s2 \<Longrightarrow> watched s3"
    by (rule add_own_ok [OF ok2 t2 es(2) new, of n]) blast
  define s4 where "s4 = (if r = 0 then upd_sig (\<lambda>g. g\<lparr>ev_signal_added := True\<rparr>) s3 else s3)"
  have view: "ev_view (evs s3 x) = ev_view (evs s2 x)" for x
  proof -
    have "evs s3 x = evs s2 x \<or> evs s3 x = (evs s2 x)\<lparr>ev_flags := ev_flags (evs s2 x) OR EVLIST_INSERTED\<rparr>"
      using s3(4) unfolding add_frame_def by blast
    then show ?thesis by (elim disjE) (simp_all add: ev_view_def)
  qed
  have sel: "evs s4 = evs s3" "{x. inserted s4 x} = {x. inserted s3 x}" "ker s4 = ker s3" "sigq s4 = sigq s3"
    "event_core.more s4 = event_core.more s3" "epoll_own s4 = epoll_own s3" "sh_old (sig s4) = sh_old (sig s3)"
    "evsigevents (sig s4) = evsigevents (sig s3)" "ev_signal (sig s4) = ev_signal (sig s3)"
    by (simp_all add: s4_def upd_sig_def sigq_def inserted_def epoll_own_def)
  have "sig_ok s3 {x. inserted s2 x}"
    by (rule sig_ok_cong [of s2]) (use I s3(5,6) view in \<open>simp_all add: epoll_inv_def\<close>)
  then have sg4: "sig_ok s4 {x. inserted s4 x}"
    using sig_ok_own_added [of s3 "{x. inserted s2 x}" es] s3(2,5,9) es(1) unfolding sel(2) by (auto simp: s4_def)
  have fit: "\<forall>x\<in>{x. inserted s4 x}. epoll_fit (evs s4 x)"
    using I s3(9) epoll_fit_view [OF view] own_wants_io(4) [OF es(2)] unfolding sel by (auto simp: epoll_inv_def split: if_splits)
  have "table_ok s4 {x. inserted s4 x}"
    unfolding sel(2) by (rule table_ok_cong [OF s3(8)]) (simp_all add: sel s4_def upd_sig_def)
  moreover have "watched s4"
    using s3(10) I watched_cong [of s4 s3] by (simp add: epoll_inv_def sel s4_def upd_sig_def)
  ultimately have "epoll_inv s4 {x. inserted s4 x}" using sg4 fit by (simp add: epoll_inv_def)
  moreover have "add_frame (epoll_own s) s s4"
    using I add_frame_trans [of "epoll_own s" s s2 s3] add_frame_trans [of "epoll_own s" s s3 s4] s3(4)
    by (simp add: own s4_def)
  moreover have "core_ok s4" using s3(3) by (simp add: s4_def)
  moreover have "sigq s4 = sigq s2" "caught_by_library s4 m = caught_by_library s2 m" "epoll_own s4 = epoll_own s2"
    using s3(5,6) by (simp_all add: sel sigq_def caught_by_library_def epoll_own_def)
  ultimately have "installs s m r s4"
    using I s3(5,6) by (simp add: installs_def sel)
  then show thesis using that [OF s3(1,2) _ s3(7)] by (simp add: s4_def)
qed

lemma evsignal_install_ok:
  assumes ok: "core_ok s" and inv: "epoll_inv s {x. inserted s x}" and own_ok: "own_ok (epoll_own s) s"
    and empty: "sigq s m = []"
  obtains r s' where "evsignal_install (epollops (Suc n)) s m = Some (r, s')" and "r = 0 \<or> r = -1"
    and "installs s m r s'" and "r = 0 \<Longrightarrow> evsignal_base s' = Base"
proof -
  obtain r s1 where s1: "evsignal_set_handler s m = Some (r, s1)" "r = 0 \<or> r = -1" "installs s m r s1"
    "evs s1 = evs s" "ev_signal (sig s1) = ev_signal (sig s)" "ev_signal_added (sig s1) = ev_signal_added (sig s)"
    "activequeues s1 = activequeues s"
    by (rule install_handler_ok [OF ok inv empty])
  let ?s2 = "s1\<lparr>evsignal_base := Base\<rparr>"
  obtain es where es: "ev_signal (sig s) = Some es" "own_event (evs s es)" "inserted s es \<longrightarrow> ev_signal_added (sig s)"
    using inv sig_okD(5) [of s "{x. inserted s x}"] by (auto simp: epoll_inv_def)
  note pre = evsignal_install_def [of "epollops (Suc n)" s m, unfolded s1(1)]
  show thesis
  proof (cases "r = -1 \<or> ev_signal_added (sig s)")
    case True
    have "evsignal_install (epollops (Suc n)) s m = Some (r, if r = -1 then s1 else ?s2)"
      using s1(2,6) True by (auto simp: pre)
    then show thesis
      by (rule that) (use s1(2,3) installs_base in auto)
  next
    case False
    then have r: "r = 0" and new: "\<not> ev_signal_added (sig s)" using s1(2) by auto
    have nes: "\<not> inserted ?s2 es" "\<not> active ?s2 es" "\<not> timed ?s2 es"
      using es(1,3) new own_ok s1(4) by (auto simp: own_ok_def epoll_own_def inserted_def active_def timed_def)
    obtain r3 s3 where s3: "event_add (epollops (Suc n)) ?s2 es None = Some (r3, s3)" "r3 = 0 \<or> r3 = -1"
      "installs s m r3 (if r3 = 0 then upd_sig (\<lambda>g. g\<lparr>ev_signal_added := True\<rparr>) s3 else s3)" "evsignal_base s3 = evsignal_base ?s2"
      by (rule installs_own [of s m ?s2 es, OF installs_base [OF s1(3) [unfolded r]] _ _ nes, of n])
        (use es s1(4,5) in simp_all)
    have "evsignal_install (epollops (Suc n)) s m =
        (if r3 \<noteq> 0 then Some (-1, s3) else Some (0, upd_sig (\<lambda>g. g\<lparr>ev_signal_added := True\<rparr>) s3))"
      using r new es(1) s1(5,6) s3(1) by (simp add: pre Let_def)
    then have "evsignal_install (epollops (Suc n)) s m =
        Some (r3, if r3 = 0 then upd_sig (\<lambda>g. g\<lparr>ev_signal_added := True\<rparr>) s3 else s3)"
      using s3(2) by (cases "r3 = 0") simp_all
    then show thesis by (rule that) (use s3(2,3,4) in \<open>simp_all add: upd_sig_def\<close>)
  qed
qed

lemma evsignal_add_ok:
  assumes ok: "core_ok s" and inv: "epoll_inv s {x. inserted s x}" and own_ok: "own_ok (epoll_own s) s"
    and e: "\<not> inserted s e" "e \<notin> epoll_own s" "epoll_fit (evs s e)" "has (ev_events (evs s e)) EV_SIGNAL"
  obtains r s' where "evsignal_add (epollops (Suc n)) s e = Some (r, s')" and "r = 0 \<or> r = -1" and "core_ok s'"
    and "add_frame (epoll_own s) s s'" and "epoll_own s' = epoll_own s"
    and "epoll_inv s' ({x. inserted s' x} \<union> (if r = -1 then {} else {e}))"
    and "sigq s' = (if r = -1 then sigq s else
          (sigq s)(nat (ev_fd (evs s e)) := sigq s (nat (ev_fd (evs s e))) @ [e]))"
    and "r = 0 \<Longrightarrow> caught_by_library s' (nat (ev_fd (evs s e)))"
    and "r = 0 \<Longrightarrow> sigq s (nat (ev_fd (evs s e))) = [] \<Longrightarrow>
      sh_old (sig s') ! nat (ev_fd (evs s e)) = Some (k_handler (ker s) (nat (ev_fd (evs s e))))"
    and "\<And>i. i \<noteq> nat (ev_fd (evs s e)) \<Longrightarrow> k_handler (ker s') i = k_handler (ker s) i"
proof -
  define m where "m = nat (ev_fd (evs s e))"
  have fd: "ev_fd (evs s e) = int m" "ev_fd (evs s e) < int NSIG" "ev_base (evs s e) = Base"
    using e(3,4) by (simp_all add: epoll_fit_def m_def)
  have sg: "sig_ok s {x. inserted s x}" using inv by (simp add: epoll_inv_def)
  obtain r s1 where s1: "(if tqh_first (evsigevents (sig s)) m = None then evsignal_install (epollops (Suc n)) s m
      else Some (0, s)) = Some (r, s1)" "r = 0 \<or> r = -1" "core_ok s1" "add_frame (epoll_own s) s s1"
    "epoll_own s1 = epoll_own s" "epoll_inv s1 {x. inserted s1 x}" "sigq s1 = sigq s"
    "r = 0 \<Longrightarrow> caught_by_library s1 m" "r = 0 \<Longrightarrow> sigq s m = [] \<Longrightarrow> sh_old (sig s1) ! m = Some (k_handler (ker s) m)"
    "\<And>i. i \<noteq> m \<Longrightarrow> k_handler (ker s1) i = k_handler (ker s) i"
  proof (cases "sigq s m = []")
    case True
    obtain r s1 where "evsignal_install (epollops (Suc n)) s m = Some (r, s1)" "r = 0 \<or> r = -1" "installs s m r s1"
      by (rule evsignal_install_ok [OF ok inv own_ok True, of n]) blast
    then show thesis using that [of r s1] True sigq_empty [OF sg, of m] by (simp add: installs_def)
  next
    case False
    then show thesis
      using that [of 0 s] False sigq_empty [OF sg, of m] sig_okD(4) [OF sg False] ok inv by simp
  qed
  have e1: "evs s1 e = evs s e" "inserted s1 e = inserted s e"
    using s1(4) e(2) by (simp_all add: add_frame_def inserted_def)
  define s2 where "s2 = upd_sig (\<lambda>g. g\<lparr>evsigevents := tailq_insert_tail m e (evsigevents g)\<rparr>) s1"
  have add: "evsignal_add (epollops (Suc n)) s e = (if r = -1 then Some (-1, s1) else Some (0, s2))"
    using fd s1(1) sig_okD(6) [OF sg]
    by (simp add: evsignal_add_def m_def [symmetric] Let_def s2_def NSIG_def del: not_None_eq)
  show thesis
  proof (cases "r = -1")
    case True
    then show thesis using that [of "-1" s1] add s1 by (simp add: m_def)
  next
    case False
    then have r: "r = 0" using s1(2) by simp
    have kept: "caught_by_library s2 m" "sigq s m = [] \<Longrightarrow> sh_old (sig s2) ! m = Some (k_handler (ker s) m)"
      "\<And>i. i \<noteq> m \<Longrightarrow> k_handler (ker s2) i = k_handler (ker s) i"
      using s1(8,9) [OF r] s1(10) by (simp_all add: s2_def upd_sig_def caught_by_library_def)
    have sg1: "sig_ok s1 {x. inserted s1 x}" using s1(6) by (simp add: epoll_inv_def)
    have new: "ev_signal (sig s1) \<noteq> Some e" using e(2) s1(5) by (auto simp: epoll_own_def)
    note S = sig_ok_append [OF sg1 _ _ _ new s1(8) [OF r] s2_def]
    have sg2: "sig_ok s2 (insert e {x. inserted s1 x})" and q2: "sigq s2 = (sigq s1)(m := sigq s1 m @ [e])"
      by (rule S; use e e1 fd in simp)+
    have ev2: "evs s2 = evs s1" "{x. inserted s2 x} = {x. inserted s1 x}"
      by (simp_all add: s2_def upd_sig_def inserted_def)
    have "table_ok s2 {x. inserted s1 x}"
      by (rule table_ok_cong [of s1]) (use s1(6) in \<open>simp_all add: epoll_inv_def s2_def upd_sig_def\<close>)
    then have "table_ok s2 (insert e {x. inserted s1 x})" by (rule table_ok_mono) blast
    moreover have "watched s2 = watched s1" by (rule watched_cong) (simp_all add: s2_def upd_sig_def)
    ultimately have inv2: "epoll_inv s2 (insert e {x. inserted s1 x})"
      using sg2 s1(6) e(3) e1 by (simp add: epoll_inv_def ev2)
    have "add_frame (epoll_own s) s s2" using add_frame_trans [OF s1(4)] by (simp add: s2_def)
    moreover have "core_ok s2" using s1(3) by (simp add: s2_def)
    moreover have "epoll_own s2 = epoll_own s" using s1(5) by (simp add: epoll_own_def s2_def upd_sig_def)
    ultimately show thesis
      by (intro that [of 0 s2]) (use add r inv2 ev2 q2 s1(7) kept in \<open>simp_all add: m_def [symmetric]\<close>)
  qed
qed

subsection \<open>The contract\<close>

lemma epoll_own_single: "epoll_inv s I \<Longrightarrow> \<exists>es. epoll_own s = {es} \<and> ev_signal (sig s) = Some es"
  using sig_okD(5) [of s I] by (auto simp: epoll_inv_def epoll_own_def)

lemma del_frame_upd [simp]: "del_frame s (s\<lparr>sig := g, ker := k\<rparr>)" "del_frame s (s\<lparr>ep_fds := f, ker := k\<rparr>)"
  by (cases s; simp add: del_frame_def)+

interpretation ep: event_backend "epollops (Suc (Suc n))" epoll_inv epoll_own epoll_fit
proof
  fix s s' :: "'b epoll_world_scheme" and I e and v w :: event
  show "epoll_inv s' I \<and> epoll_own s' = epoll_own s"
    if "epoll_inv s I" "sig s' = sig s" "event_core.more s' = event_core.more s"
      "\<And>x. x \<in> I \<union> epoll_own s \<Longrightarrow> ev_view (evs s' x) = ev_view (evs s x)"
    using epoll_inv_cong [OF that] by simp
  show "ev_view v = ev_view w \<Longrightarrow> epoll_fit v = epoll_fit w" by (rule epoll_fit_view)
  show "\<exists>r s'. op_add (epollops (Suc (Suc n))) e s = Some (r, s') \<and> core_ok s' \<and> add_frame (epoll_own s) s s' \<and>
      epoll_own s' = epoll_own s \<and> epoll_inv s' ({x. inserted s' x} \<union> (if r = -1 then {} else {e}))"
    if ok: "core_ok s" and inv: "epoll_inv s {x. inserted s x}" and e: "\<not> inserted s e" "e \<notin> epoll_own s" "epoll_fit (evs s e)"
      and own_ok: "own_ok (epoll_own s) s"
  proof (cases "has (ev_events (evs s e)) EV_SIGNAL")
    case True
    obtain r s' where "evsignal_add (epollops (Suc n)) s e = Some (r, s')" "core_ok s'" "add_frame (epoll_own s) s s'"
      "epoll_own s' = epoll_own s" "epoll_inv s' ({x. inserted s' x} \<union> (if r = -1 then {} else {e}))"
      by (rule evsignal_add_ok [OF ok inv own_ok e True, of n]) blast
    then show ?thesis using True by (simp add: epoll_add_def)
  next
    case False
    have t: "table_ok s {x. inserted s x}" using inv by (simp add: epoll_inv_def)
    have fd: "0 \<le> ev_fd (evs s e)" "ev_fd (evs s e) < 2 ^ 30"
      "has (ev_events (evs s e)) EV_READ \<or> has (ev_events (evs s e)) EV_WRITE"
      using e(3) False by (simp_all add: epoll_fit_def)
    obtain r s1 where s1: "epoll_add_fd s e = Some (r, s1)" "table_only s s1"
      "table_ok s1 (if r = -1 then {x. inserted s x} else insert e {x. inserted s x})"
      "kernel_agrees s \<Longrightarrow> kernel_agrees s1"
      by (rule epoll_add_fd_ok [OF t fd(1,2) False fd(3)]) blast
    note T = table_onlyD [OF s1(2)]
    let ?I = "{x. inserted s x}"
    have ins: "{x. inserted s1 x} = ?I" by (simp add: inserted_def T(1))
    have "sig_ok s1 (?I \<union> (if r = -1 then {} else {e}))"
    proof -
      have sg: "sig_ok s1 ?I" by (rule sig_ok_cong [of s]) (use inv T in \<open>simp_all add: epoll_inv_def\<close>)
      have "ev_signal (sig s1) \<noteq> Some e" using e(2) T(6) by (auto simp: epoll_own_def)
      then show ?thesis
        using sg False T(1) by (auto simp: sig_ok_def)
    qed
    moreover have "\<forall>x\<in>?I \<union> (if r = -1 then {} else {e}). epoll_fit (evs s1 x)"
      using inv e(3) T(1) by (auto simp: epoll_inv_def)
    moreover have "table_ok s1 (?I \<union> (if r = -1 then {} else {e}))" using s1(3) by (cases "r = -1") simp_all
    moreover have "watched s1" using inv watched_step [OF _ T(15)] s1(4) by (auto simp: epoll_inv_def)
    ultimately have "epoll_inv s1 ({x. inserted s1 x} \<union> (if r = -1 then {} else {e}))"
      unfolding epoll_inv_def ins by blast
    moreover have "core_ok s1" using ok table_only_core_ok [OF s1(2)] by simp
    moreover have "epoll_own s1 = epoll_own s" by (simp add: epoll_own_def T(6))
    moreover have "op_add (epollops (Suc (Suc n))) e s = Some (r, s1)" using s1(1) False by (simp add: epoll_add_def)
    ultimately show ?thesis using table_only_add_frame [OF s1(2)] by blast
  qed
  show "\<exists>r s'. op_del (epollops (Suc (Suc n))) e s = Some (r, s') \<and> del_frame s s' \<and> epoll_own s' = epoll_own s \<and>
      epoll_inv s' {x. inserted s x}"
    if ok: "core_ok s" and e: "\<not> inserted s e" and inv: "epoll_inv s (insert e {x. inserted s x})"
  proof (cases "has (ev_events (evs s e)) EV_SIGNAL")
    case True
    obtain r s' g k where s': "evsignal_del s e = Some (r, s')" "s' = s\<lparr>sig := g, ker := k\<rparr>"
      "ev_signal g = ev_signal (sig s)" "epoll_inv s' {x. inserted s x}"
      by (rule evsignal_del_ok [OF inv _ True]) (use e in blast)+
    then show ?thesis
      using True by (auto simp: epoll_del_def epoll_own_def)
  next
    case False
    have t: "table_ok s (insert e {x. inserted s x})" and fit: "epoll_fit (evs s e)"
      using inv by (simp_all add: epoll_inv_def)
    have fd: "0 \<le> ev_fd (evs s e)" "has (ev_events (evs s e)) EV_READ \<or> has (ev_events (evs s e)) EV_WRITE"
      using fit False by (simp_all add: epoll_fit_def)
    obtain r s' f k where s': "epoll_del s e = Some (r, s')" "s' = s\<lparr>ep_fds := f, ker := k\<rparr>"
      "k_handler k = k_handler (ker s)" "table_ok s' {x. inserted s x}" "k_env k = k_env (ker s)"
      "kernel_agrees s \<Longrightarrow> \<not> k_refuse (ker s) (k_tick (ker s)) (ev_fd (evs s e)) \<Longrightarrow> kernel_agrees s'"
      by (rule epoll_del_fd_ok [OF t fd(1) False fd(2)]) blast
    have "sig_ok s {x. inserted s x}"
      using inv False e by (auto simp: epoll_inv_def sig_ok_def)
    then have "sig_ok s' {x. inserted s x}"
      by (rule sig_ok_cong) (use s'(2,3) in simp_all)
    moreover have "watched s'"
      by (rule watched_step [of s]) (use inv s'(2,5,6) in \<open>simp_all add: epoll_inv_def\<close>)
    ultimately have "epoll_inv s' {x. inserted s x}" using s' inv by (simp add: epoll_inv_def)
    then show ?thesis using s'(1) by (auto simp: epoll_own_def s'(2))
  qed
qed

end
