(* ===== verification/Registration.thy ===== *)
theory Registration
  imports EpollBackend
begin

text \<open>
  What the operations on events guarantee on the epoll backend: \<open>event_add\<close>, \<open>event_del\<close>, \<open>event_active\<close>,
  the treatment of timeouts, the kernel's interest list and the dispositions of the signals.
\<close>

text \<open>The state between two calls of the library.\<close>

definition base_ok :: "'b epoll_world_scheme \<Rightarrow> bool" where
  "base_ok s \<longleftrightarrow> core_ok s \<and> epoll_inv s {x. inserted s x} \<and> own_ok (epoll_own s) s"

abbreviation ops :: "('b epoll_world_scheme) eventop" where
  "ops \<equiv> epollops (Suc (Suc (Suc 0)))"

lemma base_okD:
  assumes "base_ok s"
  shows "core_ok s" "epoll_inv s {x. inserted s x}" "own_ok (epoll_own s) s"
  using assms by (simp_all add: base_ok_def)

subsection \<open>A concrete base\<close>

text \<open>
  A base with the socket pair 5 and 6 and one priority, in which the event at the address \<open>e > 0\<close> waits for
  reading on the descriptor \<open>e\<close>, on a system whose calls succeed and whose clock stands at 100 seconds.
\<close>

definition demo_event :: "int \<Rightarrow> 16 word \<Rightarrow> event" where
  "demo_event fd w = zero_event\<lparr>ev_base := Base, ev_fd := fd, ev_events := w, ev_flags := EVLIST_INIT\<rparr>"

definition demo_os :: os_env where
  "demo_os = \<lparr>os_monotonic = (\<lambda>_. Some (100, 0)), os_realtime = (\<lambda>_. Some (Timeval 1000 0)),
     os_alloc = (\<lambda>_ _. True), os_calloc = (\<lambda>n. Some (1000 + n))\<rparr>"

definition demo_sig :: evsignal_info where
  "demo_sig = \<lparr>ev_signal = Some 0, ev_signal_added = False, ev_signal_pair = (5, 6), evsignal_caught = False,
     evsigcaught = (\<lambda>_. 0), evsigevents = demo_tailqs, evsig_lists = True, sh_old = [], sh_old_max = 0\<rparr>"

definition demo_kernel :: kernel where
  "demo_kernel = \<lparr>k_interest = (\<lambda>_. None), k_handler = (\<lambda>_. Default), k_tick = 0, k_refuse = (\<lambda>_ _. False),
     k_sigfail = (\<lambda>_ _. False), k_wait = (\<lambda>_ _. ([], WaitReady [])), k_create = (\<lambda>_. Some 3), k_pair = (\<lambda>_. Some (5, 6))\<rparr>"

definition demo_world :: "(eid \<Rightarrow> event) \<Rightarrow> epoll_world" where
  "demo_world f = \<lparr>evs = f(0 := (demo_event 6 (EV_READ OR EV_PERSIST))\<lparr>ev_flags := EVLIST_INIT OR EVLIST_INTERNAL\<rparr>),
     event_count = 0, event_count_active = 0, event_gotterm = False, event_break = False,
     activequeues = demo_tailqs, nactivequeues = 1, sig = demo_sig,
     eventqueue = \<lparr>tqh_first = (\<lambda>_. None), tqh_last = Head, tqe_next = (\<lambda>_. None), tqe_prev = (\<lambda>_. Head ())\<rparr>,
     event_tv = Timeval 100 0, timeheap = min_heap_ctor demo_heap, tv_cache = Timeval 0 0, current_base = Base,
     event_sigcb = None, event_gotsig = False, evsignal_base = NullBase, use_monotonic = True, aq_gen = 0,
     frames = (\<lambda>_. None), next_frame = 0, onces = (\<lambda>_. None), tick = 0, os = demo_os,
     ep_fds = replicate 32 no_events, ep_nfds = 32, ep_nevents = 32, ep_epfd = 3, ker = demo_kernel\<rparr>"

lemma demo_flags: "\<not> bit EVLIST_INIT 0" "\<not> bit EVLIST_INIT 1" "\<not> bit EVLIST_INIT 3" "bit EVLIST_INTERNAL 4"
    "\<not> bit EVLIST_INIT 4"
  by (simp_all add: flag_simps)

lemma demo_ok:
  assumes f: "\<And>e. ev_flags (f e) = EVLIST_INIT"
  shows "base_ok (demo_world f)" and "clock_ok (demo_world f)" and "heap_room (timeheap (demo_world f))"
    and "inq (demo_world f) = []" and "actq (demo_world f) p = []" and "tmq (demo_world f) = []"
    and "kernel_agrees (demo_world f)" and "epoll_own (demo_world f) = {0}"
    and "\<not> inserted (demo_world f) e \<and> \<not> active (demo_world f) e \<and> \<not> timed (demo_world f) e"
proof -
  let ?s = "demo_world f"
  have flags: "\<not> inserted ?s e" "\<not> active ?s e" "\<not> timed ?s e" for e
    using f by (auto simp: flags_bit demo_world_def demo_flags bit_or_iff bit_EVLIST)
  then show "\<not> inserted ?s e \<and> \<not> active ?s e \<and> \<not> timed ?s e" by simp
  have eq: "tailqs_ok (eventqueue ?s)" and inq: "inq ?s = []"
    unfolding inq_def by (rule tailqs_ok_init; simp add: demo_world_def)+
  have act: "activequeues ?s = demo_tailqs" "evsigevents (sig ?s) = demo_tailqs"
    by (simp_all add: demo_world_def demo_sig_def)
  show "inq ?s = []" by (rule inq)
  show actq: "actq ?s p = []" for p by (simp add: actq_def act demo_tailqs_list)
  have hp: "timeheap ?s = min_heap_ctor demo_heap" by (simp add: demo_world_def)
  show tmq: "tmq ?s = []" by (simp add: tmq_def hp min_heap_ctor_def helems_def)
  show "heap_room (timeheap ?s)" by (simp add: hp heap_room_def min_heap_ctor_def helems_def)
  have count: "event_count ?s = 0" "event_count_active ?s = 0" by (simp_all add: demo_world_def)
  have "flags_ok (ev_flags (evs ?s e))" for e by (simp add: demo_world_def f)
  moreover have "card (Collect (active ?s)) = 0" using flags by (simp add: card_eq_0_iff Collect_empty_eq)
  ultimately have "core_ok ?s"
    unfolding core_ok_def count using flags eq inq actq tmq act demo_tailqs_ok heap_ok_ctor
    by (simp add: counted_def hp del: card_0_eq card_eq_0_iff)
  moreover have own: "epoll_own ?s = {0}" by (simp add: epoll_own_def demo_world_def demo_sig_def)
  moreover have "own_ok {0} ?s" by (simp add: own_ok_def flags)
  moreover have tab: "tab ?s i = no_events" for i by (simp add: tab_def demo_world_def)
  moreover have "table_ok ?s {}"
    unfolding table_ok_def tab by (simp add: entry_ok_def no_events_def demo_world_def)
  moreover have "sig_ok ?s {}"
    using demo_tailqs_ok
    by (simp add: sig_ok_def sigq_def act demo_tailqs_list)
      (simp add: demo_world_def demo_sig_def own_event_def demo_event_def demo_flags bit_or_iff)
  moreover have agrees: "kernel_agrees ?s" by (simp add: kernel_agrees_def tab) (simp add: demo_world_def demo_kernel_def)
  ultimately show "base_ok ?s" using flags by (simp add: base_ok_def epoll_inv_def watched_def) (simp add: signals_valid_def demo_world_def demo_kernel_def)
  show "epoll_own ?s = {0}" by (rule own)
  show "clock_ok ?s" by (simp add: clock_ok_def demo_world_def demo_os_def tv_ok_def)
  show "kernel_agrees ?s" by (rule agrees)
qed

subsection \<open>Adding, deleting and activating\<close>

text \<open>An event of the user that the library accepts.\<close>

definition usable :: "'b epoll_world_scheme \<Rightarrow> eid \<Rightarrow> bool" where
  "usable s e \<longleftrightarrow> e \<notin> epoll_own s \<and> ev_base (evs s e) = Base \<and> (wants_io (evs s e) \<longrightarrow> epoll_fit (evs s e))"

lemma event_add_base:
  assumes ok: "base_ok s" and clock: "clock_ok s" and e: "usable s e"
    and room: "tv \<noteq> None \<Longrightarrow> heap_room (timeheap s)"
    and safe: "tv \<noteq> None \<Longrightarrow> timed_out s e \<Longrightarrow> clear_ncalls s e \<noteq> None"
  shows "\<exists>r s'. event_add ops s e tv = Some (r, s') \<and> base_ok s' \<and> lib_frame s s' \<and>
    (if r = -1
     then (\<forall>x. x \<notin> epoll_own s \<longrightarrow> evs s' x = evs s x) \<and> actq s' = actq s \<and> set (tmq s') = set (tmq s) \<and>
       filter (\<lambda>x. x \<notin> epoll_own s) (inq s') = filter (\<lambda>x. x \<notin> epoll_own s) (inq s)
     else added (epoll_own s) s e tv s')"
proof -
  have u: "e \<notin> epoll_own s" "ev_base (evs s e) = Base" "wants_io (evs s e) \<Longrightarrow> epoll_fit (evs s e)"
    using e by (simp_all add: usable_def)
  obtain r s' where s': "event_add ops s e tv = Some (r, s')" "core_ok s'" "epoll_inv s' {x. inserted s' x}"
    "epoll_own s' = epoll_own s" "lib_frame s s'" "own_ok (epoll_own s) s'"
    "r = -1 \<Longrightarrow> (\<forall>x. x \<notin> epoll_own s \<longrightarrow> evs s' x = evs s x) \<and> actq s' = actq s \<and> set (tmq s') = set (tmq s) \<and>
       filter (\<lambda>x. x \<notin> epoll_own s) (inq s') = filter (\<lambda>x. x \<notin> epoll_own s) (inq s)"
    "r \<noteq> -1 \<Longrightarrow> added (epoll_own s) s e tv s'"
    by (rule ep.event_add_backend [OF base_okD(1,2) [OF ok] u(2,1,3) base_okD(3) [OF ok] clock room safe]) blast+
  then show ?thesis by (auto simp: base_ok_def)
qed

text \<open>
  C1. \<open>event_add\<close> returns on every event the library accepts and keeps the whole state consistent (queues,
  flags and counters, the backend's table and the kernel's interest list, the signal lists). It
  either fails and changes no event of the user, or the event is then registered: inserted, if it
  waits for a descriptor or a signal, and in the timer heap under the deadline \<open>now + tv\<close>, if a timeout
  was given; a pending activation for the old timeout is withdrawn.
\<close>

theorem event_add_spec:
  assumes ok: "base_ok s" and clock: "clock_ok s" and e: "usable s e"
    and room: "tv \<noteq> None \<Longrightarrow> heap_room (timeheap s)"
    and safe: "tv \<noteq> None \<Longrightarrow> timed_out s e \<Longrightarrow> clear_ncalls s e \<noteq> None"
  shows "\<exists>r s'. event_add ops s e tv = Some (r, s') \<and> base_ok s' \<and> lib_frame s s' \<and>
    (if r = -1
     then (\<forall>x. x \<notin> epoll_own s \<longrightarrow> evs s' x = evs s x) \<and> actq s' = actq s \<and> set (tmq s') = set (tmq s) \<and>
       filter (\<lambda>x. x \<notin> epoll_own s) (inq s') = filter (\<lambda>x. x \<notin> epoll_own s) (inq s)
     else added (epoll_own s) s e tv s')"
  using event_add_base [OF ok clock e room safe] .

definition demo :: epoll_world where
  "demo = demo_world (\<lambda>e. demo_event (int e) EV_READ)"

lemmas demo_defs = demo_def demo_world_def demo_event_def zero_event_def demo_kernel_def demo_sig_def demo_os_def
  demo_tailqs_def demo_heap_def no_events_def

lemmas flag_defs = has_def EV_TIMEOUT_def EV_READ_def EV_WRITE_def EV_SIGNAL_def EV_PERSIST_def EVLIST_ALL_def EVLIST_INIT_def
  EVLIST_INSERTED_def EVLIST_ACTIVE_def EVLIST_INTERNAL_def EVLIST_TIMEOUT_def

lemmas eval_defs = event_add_def event_add_reserve_def event_add_insert_def event_add_timeout_def event_queue_insert_def
  event_queue_remove_def upd_ev_def min_heap_reserve_one_def min_heap_reserve_def min_heap_size_def min_heap_ctor_def
  min_heap_push_def min_heap_shift_up.simps min_heap_put_def cell_set_def cell_get_def
  gettime_def clock_now_def epoll_add_def epoll_add_fd_def epoll_ctl_def table_events_def wanted_events_def u32_def sizeof_ptr_def
  EPOLLIN_def EPOLLOUT_def Let_def

lemma demo_okD:
  "base_ok demo" "clock_ok demo" "heap_room (timeheap demo)" "inq demo = []" "actq demo p = []" "tmq demo = []"
  "epoll_own demo = {0}" "\<not> inserted demo e \<and> \<not> active demo e \<and> \<not> timed demo e"
  unfolding demo_def by (rule demo_ok; simp add: demo_event_def)+

lemma demo_evs: "0 < e \<Longrightarrow> evs demo e = demo_event (int e) EV_READ"
  by (simp add: demo_def demo_world_def)

lemma demo_usable: "0 < e \<Longrightarrow> e < 2 ^ 30 \<Longrightarrow> usable demo e"
  by (simp add: usable_def demo_okD demo_evs demo_event_def epoll_fit_def has_def EV_READ_def EV_SIGNAL_def)

theorem event_add_spec_witness:
  "\<exists>r s'. event_add ops demo 7 (Some (Timeval 3 0)) = Some (r, s') \<and> base_ok s'"
proof -
  have "\<not> timed_out demo 7" by (simp add: timed_out_def demo_okD)
  then show ?thesis
    using event_add_spec [OF demo_okD(1,2) demo_usable [of 7], of "Some (Timeval 3 0)"] demo_okD(3) by auto
qed

text \<open>
  C2. \<open>event_del\<close> returns, takes the event off every queue and out of the heap, leaves every other event
  and the order of the queues as they were, and keeps the whole state consistent.
\<close>

theorem event_del_spec:
  assumes ok: "base_ok s" and base: "ev_base (evs s e) = Base" and own: "e \<notin> epoll_own s"
    and safe: "clear_ncalls s e \<noteq> None"
  shows "\<exists>r s'. event_del ops s e = Some (r, s') \<and> base_ok s' \<and> deleted s e s'"
proof -
  obtain r s' where s': "event_del ops s e = Some (r, s')" "core_ok s'" "epoll_inv s' {x. inserted s' x}"
    "epoll_own s' = epoll_own s" "deleted s e s'"
    by (rule ep.event_del_backend [OF base_okD(1,2) [OF ok] base safe])
  have "evs s' x = evs s x" if "x \<in> epoll_own s" for x
    using s'(5) that own by (auto simp: deleted_def with_flags_def)
  then have "own_ok (epoll_own s) s'"
    using base_okD(3) [OF ok] ep.own_ok_cong [of "epoll_own s" s' s] by simp
  then show ?thesis using s' by (auto simp: base_ok_def)
qed

lemma demo_added:
  assumes "0 < e" and "e < 2 ^ 30"
  obtains r s' where "event_add ops demo e tv = Some (r, s')" and "base_ok s'" and "lib_frame demo s'"
    and "r = -1 \<or> added {0} demo e tv s'"
proof -
  have u: "e \<notin> epoll_own demo" "ev_base (evs demo e) = Base" "wants_io (evs demo e) \<Longrightarrow> epoll_fit (evs demo e)"
    using demo_usable [OF assms] by (simp_all add: usable_def)
  have "\<not> timed_out demo e" by (simp add: timed_out_def demo_okD)
  then obtain r s' where s': "event_add ops demo e tv = Some (r, s')" "core_ok s'" "epoll_inv s' {x. inserted s' x}"
    "epoll_own s' = epoll_own demo" "lib_frame demo s'" "own_ok (epoll_own demo) s'" "r \<noteq> -1 \<Longrightarrow> added (epoll_own demo) demo e tv s'"
    by (rule_tac ep.event_add_backend [OF base_okD(1,2) [OF demo_okD(1)] u(2,1,3) base_okD(3) [OF demo_okD(1)] demo_okD(2) demo_okD(3)]) blast+
  then show thesis using that by (auto simp: base_ok_def demo_okD(7))
qed


lemma demo_added_timer:
  obtains s' where "event_add ops demo 7 (Some (Timeval 3 0)) = Some (0, s')" and "base_ok s'"
    and "lib_frame demo s'" and "added {0} demo 7 (Some (Timeval 3 0)) s'"
proof -
  have "map_option fst (event_add ops demo 7 (Some (Timeval 3 0))) = Some 0"
    by (simp add: eval_defs flag_defs demo_defs)
  moreover obtain r s' where "event_add ops demo 7 (Some (Timeval 3 0)) = Some (r, s')" "base_ok s'" "lib_frame demo s'"
    "r = -1 \<or> added {0} demo 7 (Some (Timeval 3 0)) s'"
    by (rule demo_added [of 7 "Some (Timeval 3 0)"]) auto
  ultimately show thesis using that by auto
qed

lemma demo_added_sel:
  assumes "added {0} demo 7 (Some (Timeval 3 0)) s'"
  shows "timed s' 7" "inserted s' 7" "\<not> active s' 7" "set (tmq s') = {7}" "ev_base (evs s' 7) = Base" "ev_ncalls (evs s' 7) = 0"
    "ev_pri (evs s' 7) = 0" "ev_fd (evs s' 7) = 7" "ev_events (evs s' 7) = EV_READ" "ev_pncalls (evs s' 7) = None"
proof -
  have w: "wants_io (evs demo 7)" "\<not> active demo 7" "\<not> timed_out demo 7"
    by (simp_all add: demo_evs demo_event_def wants_io_def has_def EV_READ_def EV_WRITE_def EV_SIGNAL_def
        demo_okD timed_out_def)
  obtain t where e: "evs s' 7 = (evs demo 7)\<lparr>ev_timeout := t,
      ev_flags := (ev_flags (evs demo 7) OR EVLIST_INSERTED) OR EVLIST_TIMEOUT\<rparr>"
    using assms w by (auto simp: added_def)
  then show "timed s' 7" "inserted s' 7" by (simp_all add: flags_bit)
  show "\<not> active s' 7" using e w(2) by (simp add: flags_bit)
  show "ev_base (evs s' 7) = Base" "ev_ncalls (evs s' 7) = 0" "ev_pri (evs s' 7) = 0" "ev_fd (evs s' 7) = 7"
    "ev_events (evs s' 7) = EV_READ" "ev_pncalls (evs s' 7) = None"
    using e by (simp_all add: demo_evs demo_event_def zero_event_def)
  show "set (tmq s') = {7}" using assms by (simp add: added_def demo_okD Let_def)
qed

theorem event_del_spec_witness:
  "\<exists>s r s'. timed s 7 \<and> inserted s 7 \<and> event_del ops s 7 = Some (r, s') \<and> base_ok s' \<and> deleted s 7 (s' :: epoll_world)"
proof -
  obtain s where s: "base_ok s" "lib_frame demo s" "added {0} demo 7 (Some (Timeval 3 0)) s"
    by (rule demo_added_timer)
  note S = demo_added_sel [OF s(3)]
  obtain es where "epoll_own s = {es}" "ev_signal (sig s) = Some es" "own_event (evs s es)"
    using epoll_own_single [OF base_okD(2) [OF s(1)]] sig_okD(5) [of s "{x. inserted s x}"] base_okD(2) [OF s(1)]
    by (auto simp: epoll_inv_def)
  then have "7 \<notin> epoll_own s" using S(8,9) by (auto simp: own_event_def EV_READ_def EV_PERSIST_def)
  then have "\<exists>r s'. event_del ops s 7 = Some (r, s') \<and> base_ok s' \<and> deleted s 7 s'"
    by (intro event_del_spec s(1) S(5)) (simp_all add: clear_ncalls_safe S(6) del: not_None_eq)
  then show ?thesis using S(1,2) by blast
qed

lemma off_queues_or: "off_queues (f OR EVLIST_INSERTED) = off_queues f" "off_queues (f OR EVLIST_TIMEOUT) = off_queues f"
  by (rule bit_eqI, auto)+

lemma off_queues_id: "\<not> bit f 0 \<Longrightarrow> \<not> bit f 1 \<Longrightarrow> \<not> bit f 3 \<Longrightarrow> off_queues f = f"
  by (rule bit_eqI) (auto intro: ccontr)

lemma own_internal: "base_ok s \<Longrightarrow> x \<in> epoll_own s \<Longrightarrow> internal s x"
  using sig_okD(5) [of s "{x. inserted s x}"]
  by (auto simp: base_ok_def epoll_inv_def epoll_own_def own_event_def flags_bit)

text \<open>The count of events depends on the flags of the events of the user only.\<close>

lemma same_count:
  assumes ok: "base_ok s'" "base_ok s" and own: "epoll_own s' = epoll_own s"
    and flags: "\<And>x. x \<notin> epoll_own s \<Longrightarrow> ev_flags (evs s' x) = ev_flags (evs s x)"
  shows "event_count s' = event_count s"
proof -
  have "visible s' k x = visible s k x" for k x
    using own_internal [OF ok(1), of x] own_internal [OF ok(2), of x] own flags [of x]
    by (cases "x \<in> epoll_own s") (simp_all add: visible_def flags_bit)
  then have "counted s' = counted s" by (simp add: counted_visible)
  then show ?thesis using core_okD(8) base_okD(1) ok by metis
qed

lemma added_idle:
  assumes "added X s e tv s1" and "\<not> inserted s e" and "\<not> active s e"
  shows "\<exists>t f. evs s1 e = (evs s e)\<lparr>ev_timeout := t, ev_flags := f\<rparr> \<and> off_queues f = off_queues (ev_flags (evs s e))"
    and "actq s1 = actq s" and "set (tmq s1) - {e} = set (tmq s) - {e}"
    and "\<And>x. x \<noteq> e \<Longrightarrow> x \<notin> X \<Longrightarrow> evs s1 x = evs s x"
    and "filter (\<lambda>x. x \<notin> X) (inq s1) = filter (\<lambda>x. x \<notin> X) (inq s) @ (if wants_io (evs s e) then [e] else [])"
proof -
  have nto: "\<not> timed_out s e" using assms(3) by (simp add: timed_out_def)
  let ?f = "if wants_io (evs s e) then ev_flags (evs s e) OR EVLIST_INSERTED else ev_flags (evs s e)"
  have f: "off_queues ?f = off_queues (ev_flags (evs s e))" "off_queues (?f OR EVLIST_TIMEOUT) = off_queues (ev_flags (evs s e))"
    by (simp_all add: off_queues_or)
  have "(\<exists>t f. evs s1 e = (evs s e)\<lparr>ev_timeout := t, ev_flags := f\<rparr> \<and> off_queues f = off_queues (ev_flags (evs s e))) \<and>
      actq s1 = actq s \<and> set (tmq s1) - {e} = set (tmq s) - {e}"
  proof (cases tv)
    case None
    then have "evs s1 e = (evs s e)\<lparr>ev_flags := ?f\<rparr>" "actq s1 = actq s" "set (tmq s1) = set (tmq s)"
      using assms by (simp_all add: added_def Let_def)
    moreover from this(1) have "evs s1 e = (evs s e)\<lparr>ev_timeout := ev_timeout (evs s e), ev_flags := ?f\<rparr>" by simp
    ultimately show ?thesis using f(1) by blast
  next
    case (Some t)
    then obtain now where "evs s1 e = (evs s e)\<lparr>ev_timeout := timeradd now t, ev_flags := ?f OR EVLIST_TIMEOUT\<rparr>"
      "actq s1 = actq s" "set (tmq s1) = insert e (set (tmq s))"
      using assms nto by (auto simp: added_def Let_def)
    moreover from this(3) have "set (tmq s1) - {e} = set (tmq s) - {e}" by auto
    ultimately show ?thesis using f(2) by blast
  qed
  then show "\<exists>t f. evs s1 e = (evs s e)\<lparr>ev_timeout := t, ev_flags := f\<rparr> \<and> off_queues f = off_queues (ev_flags (evs s e))"
    "actq s1 = actq s" "set (tmq s1) - {e} = set (tmq s) - {e}" by blast+
  show "\<And>x. x \<noteq> e \<Longrightarrow> x \<notin> X \<Longrightarrow> evs s1 x = evs s x"
    "filter (\<lambda>x. x \<notin> X) (inq s1) = filter (\<lambda>x. x \<notin> X) (inq s) @ (if wants_io (evs s e) then [e] else [])"
    using assms by (simp_all add: added_def)
qed

text \<open>
  C4. Deleting an event after it was added takes every trace of the registration back: the flags
  of the event, the contents of every queue and the count of events that keeps the loop running are as
  they were before \<open>event_add\<close>; of the event itself only the deadline has changed.
\<close>

theorem event_add_del_roundtrip:
  assumes ok: "base_ok s" and clock: "clock_ok s" and e: "usable s e"
    and idle: "\<not> inserted s e" "\<not> active s e" "\<not> timed s e"
    and room: "tv \<noteq> None \<Longrightarrow> heap_room (timeheap s)" and quiet: "ev_ncalls (evs s e) = 0"
    and add: "event_add ops s e tv = Some (r, s1)" "r \<noteq> -1"
  shows "\<exists>r2 s2. event_del ops s1 e = Some (r2, s2) \<and> base_ok s2 \<and>
    (\<forall>x. x \<noteq> e \<and> x \<notin> epoll_own s \<longrightarrow> evs s2 x = evs s x) \<and>
    (\<exists>t. evs s2 e = (evs s e)\<lparr>ev_timeout := t\<rparr>) \<and> actq s2 = actq s \<and> set (tmq s2) = set (tmq s) \<and>
    filter (\<lambda>x. x \<notin> epoll_own s) (inq s2) = filter (\<lambda>x. x \<notin> epoll_own s) (inq s) \<and>
    event_count s2 = event_count s"
proof -
  have u: "e \<notin> epoll_own s" "ev_base (evs s e) = Base" "wants_io (evs s e) \<Longrightarrow> epoll_fit (evs s e)"
    using e by (simp_all add: usable_def)
  have nto: "\<not> timed_out s e" using idle by (simp add: timed_out_def)
  obtain r' s' where s': "event_add ops s e tv = Some (r', s')" "core_ok s'" "epoll_inv s' {x. inserted s' x}"
    "epoll_own s' = epoll_own s" "own_ok (epoll_own s) s'" "r' \<noteq> -1 \<Longrightarrow> added (epoll_own s) s e tv s'"
    by (rule ep.event_add_backend [OF base_okD(1,2) [OF ok] u(2,1,3) base_okD(3) [OF ok] clock room])
      (use nto in blast)+
  have s1: "core_ok s1" "epoll_inv s1 {x. inserted s1 x}" "epoll_own s1 = epoll_own s" "own_ok (epoll_own s) s1"
    "added (epoll_own s) s e tv s1"
    using s' add by simp_all
  note A = added_idle [OF s1(5) idle(1,2)]
  from A(1) obtain t f where ev1: "evs s1 e = (evs s e)\<lparr>ev_timeout := t, ev_flags := f\<rparr>"
    "off_queues f = off_queues (ev_flags (evs s e))" by blast
  have flags: "off_queues (ev_flags (evs s e)) = ev_flags (evs s e)"
    using idle by (simp add: off_queues_id flags_bit)
  have safe: "clear_ncalls s1 e \<noteq> None" using quiet by (simp add: clear_ncalls_safe ev1 del: not_None_eq)
  obtain r2 s2 where s2: "event_del ops s1 e = Some (r2, s2)" "core_ok s2" "epoll_inv s2 {x. inserted s2 x}"
    "epoll_own s2 = epoll_own s1" "deleted s1 e s2"
    by (rule ep.event_del_backend [OF s1(1,2) _ safe]) (use ev1 u in simp_all)
  have D: "evs s2 = with_flags e (off_queues (ev_flags (evs s1 e))) s1" "inq s2 = remove1 e (inq s1)"
    "actq s2 = (\<lambda>p. remove1 e (actq s1 p))" "set (tmq s2) = set (tmq s1) - {e}"
    using s2(5) by (simp_all add: deleted_def)
  have evs2: "evs s2 x = evs s x" if "x \<noteq> e" "x \<notin> epoll_own s" for x using A(4) that by (simp add: D(1))
  have ev2: "evs s2 e = (evs s e)\<lparr>ev_timeout := t\<rparr>" by (simp add: D(1) with_flags_def ev1 flags)
  have own2: "own_ok (epoll_own s) s2"
    using ep.own_ok_cong [of "epoll_own s" s2 s1] s1(4) u(1) by (metis D(1) with_flags_other)
  have "e \<notin> set (inq s)" "e \<notin> set (tmq s)" "\<And>p. e \<notin> set (actq s p)"
    using idle core_okD(4,5,6) [OF base_okD(1) [OF ok], of e] by auto
  note out = this
  have q2: "actq s2 = actq s" using out(3) by (simp add: D(3) A(2) remove1_absent)
  have t2: "set (tmq s2) = set (tmq s)" using out(2) A(3) by (simp add: D(4))
  have "filter (\<lambda>x. x \<notin> epoll_own s) (inq s2) = remove1 e (filter (\<lambda>x. x \<notin> epoll_own s) (inq s1))"
    using u(1) by (simp add: D(2) filter_remove1)
  also have "\<dots> = filter (\<lambda>x. x \<notin> epoll_own s) (inq s)"
    using out(1) by (simp add: A(5) remove1_append remove1_absent)
  finally have i2: "filter (\<lambda>x. x \<notin> epoll_own s) (inq s2) = filter (\<lambda>x. x \<notin> epoll_own s) (inq s)" .
  have b2: "base_ok s2" using s2 own2 s1(3) by (simp add: base_ok_def)
  have "event_count s2 = event_count s"
  proof (rule same_count [OF b2 ok])
    show "epoll_own s2 = epoll_own s" using s2(4) s1(3) by simp
    show "ev_flags (evs s2 x) = ev_flags (evs s x)" if "x \<notin> epoll_own s" for x
      using that evs2 ev2 by (cases "x = e") simp_all
  qed
  then show ?thesis using s2(1) b2 evs2 ev2 q2 t2 i2 by blast
qed

theorem event_add_del_roundtrip_witness:
  "\<exists>s1 r2 s2. event_add ops demo 7 (Some (Timeval 3 0)) = Some (0, s1) \<and> timed s1 7 \<and>
     event_del ops s1 7 = Some (r2, s2) \<and> event_count s2 = event_count demo \<and> actq s2 = actq demo"
proof -
  obtain s1 where s1: "event_add ops demo 7 (Some (Timeval 3 0)) = Some (0, s1)" "added {0} demo 7 (Some (Timeval 3 0)) s1"
    by (rule demo_added_timer)
  have "ev_ncalls (evs demo 7) = 0" by (simp add: demo_evs demo_event_def zero_event_def)
  then have "\<exists>r2 s2. event_del ops s1 7 = Some (r2, s2) \<and> event_count s2 = event_count demo \<and> actq s2 = actq demo"
    using event_add_del_roundtrip [OF demo_okD(1,2) demo_usable _ _ _ demo_okD(3) _ s1(1)] demo_okD(8) [of 7] by auto
  then show ?thesis using s1 demo_added_sel(1) by blast
qed

subsection \<open>Timeouts\<close>

lemma base_ok_requeue:
  assumes ok: "base_ok s" "core_ok s'" and only: "queues_only s s'"
    and view: "\<And>x. ev_view (evs s' x) = ev_view (evs s x)" and ins: "inserted s' = inserted s"
    and own: "own_ok (epoll_own s) s'"
  shows "base_ok s'"
proof -
  note Q = queues_onlyD [OF only]
  have "epoll_inv s' {x. inserted s x} \<and> epoll_own s' = epoll_own s"
    using epoll_inv_cong [OF base_okD(2) [OF ok(1)] Q(4,17) view] by blast
  then show ?thesis using ok own ins by (simp add: base_ok_def)
qed

lemma event_active_base:
  assumes ok: "base_ok s" and base: "ev_base (evs s e) = Base" and pri: "pri_ok s e"
    and own: "e \<in> epoll_own s \<Longrightarrow> inserted s e"
  shows "\<exists>s'. event_active s e res n = Some s' \<and> base_ok s' \<and> queues_only s s' \<and>
    inq s' = inq s \<and> tmq s' = tmq s \<and>
    (if active s e
     then evs s' = (evs s)(e := (evs s e)\<lparr>ev_res := ev_res (evs s e) OR res\<rparr>) \<and> actq s' = actq s
     else evs s' = (evs s)(e := (evs s e)\<lparr>ev_res := res, ev_ncalls := n, ev_pncalls := None,
            ev_flags := ev_flags (evs s e) OR EVLIST_ACTIVE\<rparr>) \<and>
          actq s' = (actq s)(nat (ev_pri (evs s e)) := actq s (nat (ev_pri (evs s e))) @ [e]))"
proof (cases "active s e")
  case True
  let ?s = "upd_ev e (\<lambda>v. v\<lparr>ev_res := ev_res v OR res\<rparr>) s"
  have "own_ok (epoll_own s) ?s" using base_okD(3) [OF ok] by (simp add: own_ok_def flags_bit)
  then have "base_ok ?s"
    by (intro base_ok_requeue [OF ok]) (use event_active_again(2) [OF base_okD(1) [OF ok] True] in
      \<open>simp_all add: ev_view_def fun_eq_iff flags_bit\<close>)
  then show ?thesis
    using True event_active_again(1) [OF base_okD(1) [OF ok] True]
    by (intro exI [of _ ?s]) simp
next
  case False
  obtain s' where s': "event_active s e res n = Some s'" "core_ok s'" "queues_only s s'"
    "evs s' = (evs s)(e := (evs s e)\<lparr>ev_res := res, ev_ncalls := n, ev_pncalls := None,
           ev_flags := ev_flags (evs s e) OR EVLIST_ACTIVE\<rparr>)"
    "actq s' = (actq s)(nat (ev_pri (evs s e)) := actq s (nat (ev_pri (evs s e))) @ [e])"
    "eventqueue s' = eventqueue s" "timeheap s' = timeheap s"
    by (rule event_active_queues [OF base_okD(1) [OF ok] False base pri])
  have "own_ok (epoll_own s) s'"
    using base_okD(3) [OF ok] own by (auto simp: own_ok_def flags_bit s'(4))
  then have "base_ok s'"
    by (intro base_ok_requeue [OF ok s'(2,3)]) (simp_all add: s'(4) ev_view_def fun_eq_iff flags_bit)
  then show ?thesis using False s' by (auto simp: inq_def tmq_def)
qed

text \<open>
  C5. \<open>event_active\<close>: an event that is already active only collects the new reason; any other event of a
  valid priority goes to the end of the queue of its priority, behind the events that were
  activated before it, and no other queue or event changes.
\<close>

theorem event_active_spec:
  assumes ok: "base_ok s" and base: "ev_base (evs s e) = Base" and pri: "pri_ok s e"
    and own: "e \<in> epoll_own s \<Longrightarrow> inserted s e"
  shows "\<exists>s'. event_active s e res n = Some s' \<and> base_ok s' \<and> queues_only s s' \<and>
    inq s' = inq s \<and> tmq s' = tmq s \<and>
    (if active s e
     then evs s' = (evs s)(e := (evs s e)\<lparr>ev_res := ev_res (evs s e) OR res\<rparr>) \<and> actq s' = actq s
     else evs s' = (evs s)(e := (evs s e)\<lparr>ev_res := res, ev_ncalls := n, ev_pncalls := None,
            ev_flags := ev_flags (evs s e) OR EVLIST_ACTIVE\<rparr>) \<and>
          actq s' = (actq s)(nat (ev_pri (evs s e)) := actq s (nat (ev_pri (evs s e))) @ [e]))"
  using event_active_base [OF ok base pri own] .

theorem event_active_spec_witness:
  "\<exists>s'. event_active demo 7 EV_READ 1 = Some s' \<and> base_ok s' \<and> actq s' 0 = [7]"
proof -
  have "pri_ok demo 7" "ev_base (evs demo 7) = Base"
    by (simp_all add: pri_ok_def demo_evs demo_event_def zero_event_def) (simp add: demo_defs)
  moreover have "nat (ev_pri (evs demo 7)) = 0" by (simp add: demo_evs demo_event_def zero_event_def)
  ultimately show ?thesis
    using event_active_spec [OF demo_okD(1), of 7 EV_READ 1] demo_okD(8) [of 7] by (auto simp: demo_okD)
qed

text \<open>
  C3. \<open>timeout_process\<close> activates exactly the events whose deadline is not later than the time it
  reads, in the order of their deadlines, behind the events that were active before; each is off the
  heap and no longer inserted, and is to be called once with \<open>EV_TIMEOUT\<close>. No other event changes.
\<close>

theorem timeout_process_spec:
  assumes ok: "base_ok s" and clock: "clock_ok s" and rdy: "\<And>x. timed s x \<Longrightarrow> ready s x"
  shows "\<exists>s' now n xs. timeout_process ops s = Some s' \<and> base_ok s' \<and>
    fst (gettime (s\<lparr>tick := n\<rparr>)) = Some now \<and> expired s now xs \<and> fired_all s xs s'"
proof -
  obtain s' now n xs where s': "timeout_process ops s = Some s'" "core_ok s'" "epoll_inv s' {x. inserted s' x}"
    "epoll_own s' = epoll_own s" "fst (gettime (s\<lparr>tick := n\<rparr>)) = Some now" "expired s now xs" "fired_all s xs s'"
    using ep.timeout_process_backend [OF base_okD(1,2) [OF ok] clock rdy, of "Suc 0"] by blast
  have "evs s' x = evs s x" if "x \<in> epoll_own s" for x
    using s'(6,7) base_okD(3) [OF ok] that by (auto simp: fired_all_def expired_def own_ok_def)
  then have "own_ok (epoll_own s) s'"
    using base_okD(3) [OF ok] ep.own_ok_cong [of "epoll_own s" s' s] by simp
  then have "base_ok s'" using s' by (simp add: base_ok_def)
  then show ?thesis using s' by blast
qed

theorem timeout_process_spec_witness:
  "\<exists>s s' now xs. timed (s :: epoll_world) 7 \<and> timeout_process ops s = Some s' \<and> expired s now xs \<and> fired_all s xs s'"
proof -
  obtain s where s: "base_ok s" "lib_frame demo s" "added {0} demo 7 (Some (Timeval 3 0)) s"
    by (rule demo_added_timer)
  note S = demo_added_sel [OF s(3)]
  have "clock_ok s" using clock_ok_lib [OF s(2)] demo_okD(2) by simp
  moreover have "ready s x" if "timed s x" for x
  proof -
    have "x = 7" using that core_okD(5) [OF base_okD(1) [OF s(1)], of x] S(4) by simp
    moreover have "nactivequeues s = 1" using lib_frameD(3) [OF s(2)] by (simp add: demo_defs)
    ultimately show ?thesis by (simp add: ready_def pri_ok_def S(6,7) clear_ncalls_safe del: not_None_eq)
  qed
  ultimately show ?thesis using timeout_process_spec [OF s(1)] S(1) by blast
qed

end
