(* ===== verification/Delivery.thy ===== *)
theory Delivery
  imports Registration
begin

text \<open>
  Descriptors and signals on the epoll backend: what the kernel is asked to watch, for how long the loop may
  sleep, which handlers are installed, and how ready descriptors and caught signals become active events.
\<close>

subsection \<open>The kernel's interest list\<close>



text \<open>
  C18. Deleting an event of a descriptor leaves the kernel watching exactly the directions of the events that
  remain in the table; when none remains the descriptor is taken off the interest list, and no entry
  of the table names the event any more.
\<close>

theorem epoll_del_interest:
  assumes t: "table_ok s (insert e I)" and agrees: "kernel_agrees s" and fit: "epoll_fit (evs s e)"
    and sg: "\<not> has (ev_events (evs s e)) EV_SIGNAL"
    and accepts: "\<not> k_refuse (ker s) (k_tick (ker s)) (ev_fd (evs s e))"
  shows "\<exists>r s'. epoll_del s e = Some (r, s') \<and> kernel_agrees s' \<and> evs s' = evs s \<and> table_ok s' I \<and>
    (let fd = ev_fd (evs s e); q = without_event (ev_events (evs s e)) (tab s (nat fd))
     in tab s' = (tab s)(nat fd := q) \<and>
        k_interest (ker s') fd = (if evread q = None \<and> evwrite q = None then None else Some (table_events q)))"
proof -
  have fd: "0 \<le> ev_fd (evs s e)" "has (ev_events (evs s e)) EV_READ \<or> has (ev_events (evs s e)) EV_WRITE"
    using fit sg by (simp_all add: epoll_fit_def)
  let ?fd = "ev_fd (evs s e)"
  let ?q = "without_event (ev_events (evs s e)) (tab s (nat ?fd))"
  obtain r s' f k where s': "epoll_del s e = Some (r, s')" "s' = s\<lparr>ep_fds := f, ker := k\<rparr>" "table_ok s' I"
    "tab s' = (let i = nat ?fd in (tab s)(i := without_event (ev_events (evs s e)) (tab s i)))" "kernel_agrees s'"
    by (rule epoll_del_fd_ok [OF t fd(1) sg fd(2)]) (use agrees accepts in blast)
  have "tab s' (nat ?fd) = ?q" by (simp add: s'(4) Let_def)
  then have "k_interest (ker s') ?fd = (if evread ?q = None \<and> evwrite ?q = None then None else Some (table_events ?q))"
    using s'(5) fd(1) by (simp add: kernel_agrees_def)
  then show ?thesis
    using s' by (intro exI [of _ r] exI [of _ s']) (simp add: Let_def)
qed

definition demo_watching :: epoll_world where
  "demo_watching = demo\<lparr>ep_fds := (ep_fds demo)[7 := \<lparr>evread = Some 7, evwrite = None\<rparr>],
     ker := (ker demo)\<lparr>k_interest := [7 \<mapsto> EPOLLIN]\<rparr>\<rparr>"

lemma demo_watching:
  "table_ok demo_watching {7}" "kernel_agrees demo_watching" "evs demo_watching = evs demo"
  "tab demo_watching i = (if i = 7 then \<lparr>evread = Some 7, evwrite = None\<rparr> else no_events)"
proof -
  show tab: "tab demo_watching i = (if i = 7 then \<lparr>evread = Some 7, evwrite = None\<rparr> else no_events)" for i
    by (simp add: tab_def demo_watching_def demo_def demo_world_def nth_list_update)
  show evs: "evs demo_watching = evs demo" by (simp add: demo_watching_def)
  have "entry_ok demo_watching {7} i (tab demo_watching i)" for i
    by (simp add: tab entry_ok_def waits_def evs demo_evs demo_event_def no_events_def has_def EV_READ_def EV_SIGNAL_def)
  then show "table_ok demo_watching {7}"
    by (simp add: table_ok_def) (simp add: demo_watching_def demo_def demo_world_def)
  have e: "table_events \<lparr>evread = Some 7, evwrite = None\<rparr> = EPOLLIN" by (simp add: table_events_def)
  have "k_interest (ker demo_watching) fd = (if fd = 7 then Some EPOLLIN else None)" for fd
    by (simp add: demo_watching_def demo_def demo_world_def demo_kernel_def)
  then show "kernel_agrees demo_watching"
    by (auto simp: kernel_agrees_def tab e simp del: table_events_simps(1))
qed

theorem epoll_del_interest_witness:
  "\<exists>r s'. epoll_del demo_watching 7 = Some (r, s') \<and> kernel_agrees s' \<and> k_interest (ker s') 7 = None"
proof -
  have e: "epoll_fit (evs demo_watching 7)" "\<not> has (ev_events (evs demo_watching 7)) EV_SIGNAL"
    "ev_fd (evs demo_watching 7) = 7" "ev_events (evs demo_watching 7) = EV_READ"
    by (simp_all add: demo_watching demo_evs demo_event_def epoll_fit_def has_def EV_READ_def EV_SIGNAL_def)
  moreover have "\<not> k_refuse (ker demo_watching) (k_tick (ker demo_watching)) 7"
    by (simp add: demo_watching_def demo_def demo_world_def demo_kernel_def)
  ultimately obtain r s' where "epoll_del demo_watching 7 = Some (r, s')" "kernel_agrees s'"
    "let q = without_event EV_READ (tab demo_watching 7) in
       k_interest (ker s') 7 = (if evread q = None \<and> evwrite q = None then None else Some (table_events q))"
    using epoll_del_interest [of demo_watching 7 "{}"] demo_watching(1,2) by (auto simp: Let_def)
  then show ?thesis by (auto simp: Let_def demo_watching without_event_def has_def EV_READ_def)
qed

subsection \<open>How long the loop may sleep\<close>

lemma sint_small: "0 \<le> x \<Longrightarrow> x < 2 ^ 31 \<Longrightarrow> sint (word_of_int x :: 32 word) = x"
  by (simp add: signed_of_int signed_take_bit_int_eq_self)

text \<open>
  C19. For a time to wait of less than 24 days the timeout handed to \<open>epoll_wait\<close> is that time in
  milliseconds, rounded up, so that the loop never wakes before the deadline, and at most 35 minutes.
\<close>

theorem epoll_timeout_bounds:
  assumes "tv_ok t" and "0 \<le> usecs t" and "tv_sec t < 2147483"
  shows "epoll_timeout (Some t) = min MAX_EPOLL_TIMEOUT_MSEC ((usecs t + 999) div 1000) \<and>
    0 \<le> epoll_timeout (Some t) \<and>
    (epoll_timeout (Some t) < MAX_EPOLL_TIMEOUT_MSEC \<longrightarrow>
       usecs t \<le> epoll_timeout (Some t) * 1000 \<and> epoll_timeout (Some t) * 1000 < usecs t + 1000)"
proof -
  have t: "0 \<le> tv_sec t" "0 \<le> tv_usec t" "tv_usec t < 1000000"
    using assms tv_sec_nonneg [OF assms(1)] by (simp_all add: tv_ok_def)
  let ?ms = "tv_sec t * 1000 + (tv_usec t + 999) div 1000"
  have ms: "?ms = (usecs t + 999) div 1000"
  proof -
    have "usecs t + 999 = (tv_usec t + 999) + 1000 * (tv_sec t * 1000)" by (simp add: usecs_def)
    then show ?thesis by simp
  qed
  have "0 \<le> ?ms" "?ms < 2 ^ 31" using t assms(3) by auto
  then have "sint (word_of_int ?ms :: 32 word) = ?ms" by (rule sint_small)
  then have e: "epoll_timeout (Some t) = min MAX_EPOLL_TIMEOUT_MSEC ?ms"
    by (simp add: epoll_timeout_def Let_def min_def)
  moreover have "0 \<le> MAX_EPOLL_TIMEOUT_MSEC" by (simp add: MAX_EPOLL_TIMEOUT_MSEC_def)
  moreover have "usecs t \<le> ?ms * 1000" "?ms * 1000 < usecs t + 1000" unfolding ms by linarith+
  ultimately show ?thesis using \<open>0 \<le> ?ms\<close> ms by (auto simp: min_def)
qed

theorem epoll_timeout_bounds_witness: "epoll_timeout (Some (Timeval 2 1)) = 2001"
  using epoll_timeout_bounds [of "Timeval 2 1"] by (simp add: tv_ok_def usecs_def MAX_EPOLL_TIMEOUT_MSEC_def)

text \<open>
  The cap of 35 minutes is applied after the conversion to \<open>int\<close>: a timer that is due in \<open>2147484\<close>
  seconds (25 days) yields a negative timeout, with which \<open>epoll_wait\<close> blocks without any limit, and one
  that is due in \<open>4294968\<close> seconds (50 days) a timeout of less than a second.
\<close>

theorem epoll_timeout_wraps:
  "epoll_timeout (Some (Timeval 2147484 0)) = -2147483296 \<and> epoll_timeout (Some (Timeval 4294968 0)) = 704 \<and>
   epoll_timeout None = -1"
  by (simp add: epoll_timeout_def MAX_EPOLL_TIMEOUT_MSEC_def)

subsection \<open>Installing and restoring the disposition of a signal\<close>

text \<open>
  C20. The first event for a signal installs the library's handler; deleting that event again empties
  the list of the signal and, unless \<open>sigaction\<close> fails, puts back exactly the disposition that was in force
  before. The dispositions of all other signals are never touched.
\<close>

theorem signal_roundtrip:
  assumes ok: "base_ok s" and e: "usable s e" "\<not> inserted s e" "has (ev_events (evs s e)) EV_SIGNAL"
    and first: "sigq s (nat (ev_fd (evs s e))) = []"
    and add: "evsignal_add ops s e = Some (0, s1)"
  shows "k_handler (ker s1) = (k_handler (ker s))(nat (ev_fd (evs s e)) := EvsignalHandler) \<and>
    sigq s1 (nat (ev_fd (evs s e))) = [e] \<and>
    (\<exists>r s2. evsignal_del s1 e = Some (r, s2) \<and> sigq s2 = sigq s \<and>
       (r = 0 \<longrightarrow> k_handler (ker s2) = k_handler (ker s)))"
proof -
  define m where "m = nat (ev_fd (evs s e))"
  have w: "wants_io (evs s e)" using e(3) by (simp add: wants_io_def has_or)
  have u: "e \<notin> epoll_own s" "epoll_fit (evs s e)" using e(1) w by (simp_all add: usable_def)
  obtain r s' where s': "evsignal_add ops s e = Some (r, s')" "add_frame (epoll_own s) s s'"
    "epoll_inv s' ({x. inserted s' x} \<union> (if r = -1 then {} else {e}))"
    "sigq s' = (if r = -1 then sigq s else (sigq s)(m := sigq s m @ [e]))" "r = 0 \<Longrightarrow> caught_by_library s' m"
    "r = 0 \<Longrightarrow> sigq s m = [] \<Longrightarrow> sh_old (sig s') ! m = Some (k_handler (ker s) m)"
    "\<And>i. i \<noteq> m \<Longrightarrow> k_handler (ker s') i = k_handler (ker s) i"
    by (rule evsignal_add_ok [OF base_okD [OF ok] e(2) u e(3), of "Suc (Suc 0)", folded m_def]) blast
  have eq: "r = 0" "s' = s1" using s'(1) add by simp_all
  have e1: "evs s1 e = evs s e" using s'(2) u(1) eq by (simp add: add_frame_def)
  have inv: "epoll_inv s1 (insert e {x. inserted s1 x})" and q1: "sigq s1 = (sigq s)(m := [e])"
    using s'(3,4) eq first by (simp_all add: m_def)
  have "e \<notin> {x. inserted s1 x}" using e(2) e1 by (simp add: inserted_def)
  then obtain r2 s2 g k where s2: "evsignal_del s1 e = Some (r2, s2)" "s2 = s1\<lparr>sig := g, ker := k\<rparr>"
    "sigq s2 = (sigq s1)(m := remove1 e (sigq s1 m))" "\<And>i. i \<noteq> m \<Longrightarrow> k_handler k i = k_handler (ker s1) i"
    "\<And>h. r2 = 0 \<Longrightarrow> sigq s2 m = [] \<Longrightarrow> sh_old (sig s1) ! m = Some h \<Longrightarrow> k_handler k m = h"
    by (rule evsignal_del_ok [OF inv, unfolded e1, folded m_def]) (use e(3) in blast)+
  have q2: "sigq s2 = sigq s" using s2(3) q1 first by (auto simp: m_def)
  have "k_handler k = k_handler (ker s)" if "r2 = 0"
  proof
    fix i
    show "k_handler k i = k_handler (ker s) i"
      using s2(4) [of i] s2(5) [OF that] s'(6,7) eq first q2 by (cases "i = m") (simp_all add: m_def)
  qed
  moreover have "k_handler (ker s1) = (k_handler (ker s))(m := EvsignalHandler)"
    using s'(5,7) eq by (auto simp: caught_by_library_def)
  ultimately show ?thesis using s2(1,2) q1 q2 by (auto simp: m_def)
qed

definition demo_signals :: epoll_world where
  "demo_signals = demo_world (\<lambda>e. demo_event 10 (EV_SIGNAL OR EV_PERSIST))"

lemma demo_signals:
  "base_ok demo_signals" "clock_ok demo_signals" "\<not> inserted demo_signals e" "\<not> active demo_signals e"
  "0 < e \<Longrightarrow> evs demo_signals e = demo_event 10 (EV_SIGNAL OR EV_PERSIST)"
  "0 < e \<Longrightarrow> usable demo_signals e" "sigq demo_signals i = []"
proof -
  show "base_ok demo_signals" "clock_ok demo_signals"
    unfolding demo_signals_def by (rule demo_ok; simp add: demo_event_def)+
  show "\<not> inserted demo_signals e" "\<not> active demo_signals e"
    unfolding demo_signals_def using demo_ok(9) [of "\<lambda>e. demo_event 10 (EV_SIGNAL OR EV_PERSIST)" e]
    by (simp_all add: demo_event_def)
  show ev: "evs demo_signals e = demo_event 10 (EV_SIGNAL OR EV_PERSIST)" if "0 < e" for e
    using that by (simp add: demo_signals_def demo_world_def)
  have "epoll_own demo_signals = {0}"
    unfolding demo_signals_def by (rule demo_ok; simp add: demo_event_def)
  then show "0 < e \<Longrightarrow> usable demo_signals e" for e
    by (simp add: usable_def ev demo_event_def epoll_fit_def has_def EV_SIGNAL_def EV_PERSIST_def NSIG_def)
  show "sigq demo_signals i = []"
    by (simp add: sigq_def demo_signals_def demo_world_def demo_sig_def demo_tailqs_list)
qed

lemmas signal_eval = evsignal_add_def evsignal_install_def evsignal_set_handler_def set_sh_old_def upd_sig_def
  sigaction_set_def NSIG_def tailq_insert_tail_def slot_write_def

theorem signal_roundtrip_witness:
  "\<exists>s1 r s2. evsignal_add ops demo_signals 7 = Some (0, s1) \<and> k_handler (ker s1) 10 = EvsignalHandler \<and>
     evsignal_del s1 7 = Some (r, s2) \<and> (r = 0 \<longrightarrow> k_handler (ker s2) 10 = Default)"
proof -
  have "map_option fst (evsignal_add ops demo_signals 7) = Some 0"
    by (simp add: signal_eval eval_defs flag_defs demo_signals_def demo_defs)
  then obtain s1 where s1: "evsignal_add ops demo_signals 7 = Some (0, s1)" by auto
  have "has (ev_events (evs demo_signals 7)) EV_SIGNAL" "ev_fd (evs demo_signals 7) = 10"
    by (simp_all add: demo_signals(5) demo_event_def has_def EV_SIGNAL_def EV_PERSIST_def)
  moreover have "k_handler (ker demo_signals) 10 = Default" by (simp add: demo_signals_def demo_defs)
  ultimately show ?thesis
    using signal_roundtrip [OF demo_signals(1,6,3) _ _ s1] s1 by (fastforce simp: demo_signals(7))
qed

end
