(* ===== verification/Dispatch.thy ===== *)
theory Dispatch
  imports Delivery
begin

text \<open>
  \<open>epoll_dispatch\<close>: signals that arrive while the process sleeps are counted, turned into activations of the
  events that wait for them, and the descriptors the kernel reports activate the events of the table.
\<close>

subsection \<open>Events that the library can activate\<close>

text \<open>Every registered event can be activated and deleted by the library at any time.\<close>

definition all_ready :: "'a event_core_scheme \<Rightarrow> bool" where
  "all_ready s \<longleftrightarrow> (\<forall>x. inserted s x \<or> timed s x \<or> active s x \<longrightarrow> ready s x)"

lemma ready_iff: "ready s x \<longleftrightarrow> 0 \<le> ev_pri (evs s x) \<and> ev_pri (evs s x) < nactivequeues s \<and>
    (\<forall>p. ev_pncalls (evs s x) = Some p \<and> ev_ncalls (evs s x) \<noteq> 0 \<longrightarrow> frames s p \<noteq> None)"
  unfolding ready_def pri_ok_def clear_ncalls_safe by blast

lemma ready_same:
  assumes "lib_frame s s'" and "ev_pri (evs s' x) = ev_pri (evs s x)"
    and "ev_pncalls (evs s' x) = None \<or>
      ev_pncalls (evs s' x) = ev_pncalls (evs s x) \<and> ev_ncalls (evs s' x) = ev_ncalls (evs s x)"
  shows "ready s x \<Longrightarrow> ready s' x"
  unfolding ready_iff lib_frameD(3,14) [OF assms(1)] assms(2) using assms(3) by auto

lemma all_readyD: "all_ready s \<Longrightarrow> inserted s x \<or> timed s x \<or> active s x \<Longrightarrow> ready s x"
  unfolding all_ready_def by blast

lemma all_ready_upd:
  assumes rdy: "all_ready s" and lib: "lib_frame s s'"
    and ev: "\<And>x. evs s' x \<noteq> evs s x \<Longrightarrow> ready s x \<and> ev_pri (evs s' x) = ev_pri (evs s x) \<and>
      (ev_pncalls (evs s' x) = None \<or>
       ev_pncalls (evs s' x) = ev_pncalls (evs s x) \<and> ev_ncalls (evs s' x) = ev_ncalls (evs s x))"
  shows "all_ready s'"
  unfolding all_ready_def
proof (intro allI impI)
  fix x assume x: "inserted s' x \<or> timed s' x \<or> active s' x"
  show "ready s' x"
  proof (cases "evs s' x = evs s x")
    case True
    then have "ready s x" using x all_readyD [OF rdy, of x] by (simp add: flags_bit)
    then show ?thesis by (rule ready_same [OF lib, rotated 2]) (simp_all add: True)
  next
    case False
    show ?thesis by (rule ready_same [OF lib]) (use ev [OF False] in auto)
  qed
qed

lemma queued_base: "base_ok s \<Longrightarrow> inserted s x \<Longrightarrow> ev_base (evs s x) = Base"
  using core_okD(11) [OF base_okD(1)] by blast

subsection \<open>The handler\<close>

lemma base_ok_sig:
  assumes ok: "base_ok s" and s': "s' = s\<lparr>sig := (sig s)\<lparr>evsigcaught := c, evsignal_caught := b\<rparr>\<rparr>"
  shows "base_ok s'" and "epoll_own s' = epoll_own s" and "sigq s' = sigq s"
proof -
  show q: "sigq s' = sigq s" and own: "epoll_own s' = epoll_own s" by (simp_all add: s' sigq_def epoll_own_def)
  have "caught_by_library s' i = caught_by_library s i" for i by (simp add: s' caught_by_library_def)
  moreover have ins: "inserted s' = inserted s" by (simp add: s' inserted_def fun_eq_iff)
  moreover have "table_ok s' I = table_ok s I" for I
    by (simp add: s' table_ok_def entry_ok_def waits_def tab_def cong: if_cong)
  moreover have "watched s' = watched s" by (rule watched_cong) (simp_all add: s')
  ultimately have "epoll_inv s' {x. inserted s' x}"
    using base_okD(2) [OF ok] unfolding epoll_inv_def sig_ok_def q by (simp add: s')
  moreover have "own_ok X s' = own_ok X s" for X by (simp add: own_ok_def flags_bit s')
  ultimately show "base_ok s'" using ok by (simp add: base_ok_def own) (simp add: s')
qed

text \<open>How often each signal is among those delivered, as the counters of the code see it.\<close>

definition delivered :: "'b epoll_world_scheme \<Rightarrow> nat list \<Rightarrow> nat \<Rightarrow> 32 word" where
  "delivered s ns i = (if k_handler (ker s) i = EvsignalHandler \<and> evsignal_base s \<noteq> NullBase
     then of_nat (count_list ns i) else 0)"

lemma deliver_signals_ok:
  assumes "\<forall>n\<in>set ns. n < NSIG"
  shows "deliver_signals s ns = Some (s\<lparr>sig := (sig s)\<lparr>
     evsigcaught := (\<lambda>i. evsigcaught (sig s) i + delivered s ns i),
     evsignal_caught := evsignal_caught (sig s) \<or>
       (evsignal_base s \<noteq> NullBase \<and> (\<exists>n\<in>set ns. k_handler (ker s) n = EvsignalHandler))\<rparr>\<rparr>)"
  using assms
proof (induction ns arbitrary: s)
  case Nil
  have "delivered s [] = (\<lambda>_. 0)" by (simp add: fun_eq_iff delivered_def)
  then show ?case by simp
next
  case (Cons n ns)
  define s1 where "s1 = s\<lparr>sig := (sig s)\<lparr>
     evsigcaught := (\<lambda>i. evsigcaught (sig s) i + delivered s [n] i),
     evsignal_caught := evsignal_caught (sig s) \<or> (evsignal_base s \<noteq> NullBase \<and> k_handler (ker s) n = EvsignalHandler)\<rparr>\<rparr>"
  have "(if k_handler (ker s) n = EvsignalHandler then evsignal_handler s n else Some s) = Some s1"
  proof (cases "k_handler (ker s) n = EvsignalHandler \<and> evsignal_base s \<noteq> NullBase")
    case True
    then have "(\<lambda>i. evsigcaught (sig s) i + delivered s [n] i) = (evsigcaught (sig s))(n := evsigcaught (sig s) n + 1)"
      by (auto simp: fun_eq_iff delivered_def)
    moreover have "s1\<lparr>ker := (ker s)\<lparr>k_handler := (k_handler (ker s))(n := EvsignalHandler)\<rparr>\<rparr> = s1"
      using True by (simp add: fun_upd_idem s1_def)
    ultimately show ?thesis using True Cons.prems by (simp add: evsignal_handler_def upd_sig_def s1_def)
  next
    case False
    then have "delivered s [n] = (\<lambda>_. 0)" by (auto simp: fun_eq_iff delivered_def)
    then have "s1 = s" using False by (auto simp: s1_def)
    then show ?thesis using False by (auto simp: evsignal_handler_def)
  qed
  then have "deliver_signals s (n # ns) = deliver_signals s1 ns" by simp
  also have "\<dots> = Some (s1\<lparr>sig := (sig s1)\<lparr>
     evsigcaught := (\<lambda>i. evsigcaught (sig s1) i + delivered s1 ns i),
     evsignal_caught := evsignal_caught (sig s1) \<or>
       (evsignal_base s1 \<noteq> NullBase \<and> (\<exists>n\<in>set ns. k_handler (ker s1) n = EvsignalHandler))\<rparr>\<rparr>)"
    using Cons.prems by (intro Cons.IH) simp
  also have "\<dots> = Some (s\<lparr>sig := (sig s)\<lparr>
     evsigcaught := (\<lambda>i. (evsigcaught (sig s) i + delivered s [n] i) + delivered s ns i),
     evsignal_caught := (evsignal_caught (sig s) \<or> (evsignal_base s \<noteq> NullBase \<and> k_handler (ker s) n = EvsignalHandler)) \<or>
       (evsignal_base s \<noteq> NullBase \<and> (\<exists>n\<in>set ns. k_handler (ker s) n = EvsignalHandler))\<rparr>\<rparr>)"
  proof -
    have "delivered s1 ns = delivered s ns" by (simp add: fun_eq_iff delivered_def s1_def)
    then show ?thesis by (simp add: s1_def)
  qed
  also have "(\<lambda>i. (evsigcaught (sig s) i + delivered s [n] i) + delivered s ns i) =
      (\<lambda>i. evsigcaught (sig s) i + delivered s (n # ns) i)"
    by (simp add: fun_eq_iff delivered_def)
  also have "((evsignal_caught (sig s) \<or> (evsignal_base s \<noteq> NullBase \<and> k_handler (ker s) n = EvsignalHandler)) \<or>
       (evsignal_base s \<noteq> NullBase \<and> (\<exists>n\<in>set ns. k_handler (ker s) n = EvsignalHandler))) =
     (evsignal_caught (sig s) \<or> (evsignal_base s \<noteq> NullBase \<and> (\<exists>n\<in>set (n # ns). k_handler (ker s) n = EvsignalHandler)))"
    by auto
  finally show ?case .
qed

subsection \<open>From counted signals to active events\<close>

text \<open>What \<open>event_del\<close> of a signal event does to the lists of signals.\<close>

lemma event_del_base:
  assumes ok: "base_ok s" and base: "ev_base (evs s e) = Base" and own: "e \<notin> epoll_own s"
    and safe: "clear_ncalls s e \<noteq> None"
  obtains r s' where "event_del (epollops (Suc (Suc l))) s e = Some (r, s')" and "base_ok s'" and "deleted s e s'"
    and "epoll_own s' = epoll_own s"
proof -
  obtain r s' where s': "event_del (epollops (Suc (Suc l))) s e = Some (r, s')" "core_ok s'" "epoll_inv s' {x. inserted s' x}"
    "epoll_own s' = epoll_own s" "deleted s e s'"
    by (rule ep.event_del_backend [OF base_okD(1,2) [OF ok] base safe])
  have "evs s' x = evs s x" if "x \<in> epoll_own s" for x
    using s'(5) that own by (auto simp: deleted_def with_flags_def)
  then have "own_ok (epoll_own s) s'"
    using base_okD(3) [OF ok] ep.own_ok_cong [of "epoll_own s" s' s] by simp
  then show thesis using that [OF s'(1) _ s'(5,4)] s' by (simp add: base_ok_def)
qed

lemma own_not_signal: "base_ok s \<Longrightarrow> x \<in> epoll_own s \<Longrightarrow> \<not> has (ev_events (evs s x)) EV_SIGNAL"
  using sig_okD(5) [of s "{x. inserted s x}"] own_wants_io(3)
  by (auto simp: base_ok_def epoll_inv_def epoll_own_def)

lemma sigq_iff: "base_ok s \<Longrightarrow> e \<in> set (sigq s n) \<longleftrightarrow>
    inserted s e \<and> has (ev_events (evs s e)) EV_SIGNAL \<and> ev_fd (evs s e) = int n"
  using sig_okD(2) [of s "{x. inserted s x}" e n] by (simp add: base_ok_def epoll_inv_def)

lemma sigq_distinct: "base_ok s \<Longrightarrow> distinct (sigq s n)"
  using tq.lists_distinct [OF sig_okD(1)] by (auto simp: base_ok_def epoll_inv_def sigq_def)

lemma event_del_signal:
  assumes ok: "base_ok s" and e: "e \<in> set (sigq s n)" and rdy: "ready s e"
  obtains r s' where "event_del (epollops (Suc (Suc l))) s e = Some (r, s')" and "base_ok s'" and "deleted s e s'"
    and "epoll_own s' = epoll_own s" and "sigq s' = (sigq s)(n := remove1 e (sigq s n))"
    and "evsigcaught (sig s') = evsigcaught (sig s)" and "evsignal_caught (sig s') = evsignal_caught (sig s)"
proof -
  have E: "inserted s e" "has (ev_events (evs s e)) EV_SIGNAL" "ev_fd (evs s e) = int n"
    using e sigq_iff [OF ok] by simp_all
  have base: "ev_base (evs s e) = Base" by (rule queued_base [OF ok E(1)])
  have own: "e \<notin> epoll_own s" using own_not_signal [OF ok] E(2) by blast
  have safe: "clear_ncalls s e \<noteq> None" using rdy by (simp add: ready_def)
  obtain r s' where s': "event_del (epollops (Suc (Suc l))) s e = Some (r, s')" "base_ok s'" "deleted s e s'" "epoll_own s' = epoll_own s"
    by (rule event_del_base [OF ok base own safe])
  obtain s1 where s1: "core_ok s1" "deleted s e s1" "sig s1 = sig s" "event_core.more s1 = event_core.more s"
    "event_del (epollops (Suc (Suc l))) s e = (if inserted s e then op_del (epollops (Suc (Suc l))) e s1 else Some (0, s1))"
    by (rule event_del_queues [OF base_okD(1) [OF ok] base safe])
  have evs1: "evs s1 = with_flags e (off_queues (ev_flags (evs s e))) s"
    using s1(2) by (simp add: deleted_def)
  have "ev_view (evs s1 x) = ev_view (evs s x)" for x by (simp add: evs1 ev_view_def with_flags_def)
  then have inv1: "epoll_inv s1 {x. inserted s x}"
    using epoll_inv_cong(1) [OF base_okD(2) [OF ok] s1(3,4)] by simp
  have ins1: "insert e {x. inserted s1 x} = {x. inserted s x}" "e \<notin> {x. inserted s1 x}"
    using E(1) by (auto simp: evs1 flags_bit)
  have ev: "ev_fd (evs s1 e) = int n" "has (ev_events (evs s1 e)) EV_SIGNAL"
    using E by (simp_all add: evs1 with_flags_def)
  obtain r2 s2 g k where s2: "evsignal_del s1 e = Some (r2, s2)" "s2 = s1\<lparr>sig := g, ker := k\<rparr>"
    "evsigcaught g = evsigcaught (sig s1)" "evsignal_caught g = evsignal_caught (sig s1)"
    "sigq s2 = (sigq s1)(nat (ev_fd (evs s1 e)) := remove1 e (sigq s1 (nat (ev_fd (evs s1 e)))))"
    by (rule evsignal_del_ok [OF _ ins1(2) ev(2)]) (use inv1 ins1(1) in simp, blast)
  have eq: "s' = s2" using s1(5) s'(1) s2(1) E(1) ev(2) by (simp add: epoll_del_def)
  have "sigq s' = (sigq s)(n := remove1 e (sigq s n))"
    using s2(5) ev(1) s1(3) by (simp add: eq sigq_def)
  then show thesis using that [OF s'] s2(2-4) s1(3) by (simp add: eq)
qed

text \<open>An event after its signal has been caught \<open>n\<close> times.\<close>

definition signalled :: "16 word \<Rightarrow> event \<Rightarrow> event" where
  "signalled n v =
     (if has (ev_events v) EV_PERSIST then
        if has (ev_flags v) EVLIST_ACTIVE then v\<lparr>ev_res := ev_res v OR EV_SIGNAL\<rparr>
        else v\<lparr>ev_res := EV_SIGNAL, ev_ncalls := n, ev_pncalls := None, ev_flags := ev_flags v OR EVLIST_ACTIVE\<rparr>
      else v\<lparr>ev_res := EV_SIGNAL, ev_ncalls := n, ev_pncalls := None,
             ev_flags := off_queues (ev_flags v) OR EVLIST_ACTIVE\<rparr>)"

lemma signalled_sel [simp]:
  "ev_pri (signalled n v) = ev_pri v" "ev_events (signalled n v) = ev_events v" "ev_fd (signalled n v) = ev_fd v"
  "ev_base (signalled n v) = ev_base v" "ev_callback (signalled n v) = ev_callback v" "ev_arg (signalled n v) = ev_arg v"
  "ev_timeout (signalled n v) = ev_timeout v"
  "ev_pncalls (signalled n v) = None \<or> ev_pncalls (signalled n v) = ev_pncalls v \<and> ev_ncalls (signalled n v) = ev_ncalls v"
  "bit (ev_flags (signalled n v)) 3"
  by (auto simp: signalled_def flag_simps split: if_splits)

lemma activate_one:
  assumes ok: "base_ok s" and e: "e \<in> set (sigq s i)" and rdy: "ready s e"
  obtains s1 s2 where "(if has (ev_events (evs s e)) EV_PERSIST then Some s
      else do { (r, s') \<leftarrow> event_del (epollops (Suc (Suc l))) s e; Some s' }) = Some s1" and "event_active s1 e EV_SIGNAL n = Some s2"
    and "base_ok s2" and "lib_frame s s2" and "evs s2 = (evs s)(e := signalled n (evs s e))"
    and "sigq s2 = (if has (ev_events (evs s e)) EV_PERSIST then sigq s else (sigq s)(i := remove1 e (sigq s i)))"
    and "evsigcaught (sig s2) = evsigcaught (sig s)" and "evsignal_caught (sig s2) = evsignal_caught (sig s)"
    and "epoll_own s2 = epoll_own s"
proof -
  have E: "inserted s e" "has (ev_events (evs s e)) EV_SIGNAL"
    using e sigq_iff [OF ok] by simp_all
  have base: "ev_base (evs s e) = Base" by (rule queued_base [OF ok E(1)])
  obtain s1 where s1: "(if has (ev_events (evs s e)) EV_PERSIST then Some s
      else do { (r, s') \<leftarrow> event_del (epollops (Suc (Suc l))) s e; Some s' }) = Some s1" "base_ok s1" "lib_frame s s1"
    "evs s1 = (if has (ev_events (evs s e)) EV_PERSIST then evs s else with_flags e (off_queues (ev_flags (evs s e))) s)"
    "sigq s1 = (if has (ev_events (evs s e)) EV_PERSIST then sigq s else (sigq s)(i := remove1 e (sigq s i)))"
    "evsigcaught (sig s1) = evsigcaught (sig s)" "evsignal_caught (sig s1) = evsignal_caught (sig s)"
    "epoll_own s1 = epoll_own s"
  proof (cases "has (ev_events (evs s e)) EV_PERSIST")
    case True
    then show thesis using that [of s] ok by simp
  next
    case False
    obtain r s' where s': "event_del (epollops (Suc (Suc l))) s e = Some (r, s')" "base_ok s'" "deleted s e s'"
      "epoll_own s' = epoll_own s" "sigq s' = (sigq s)(i := remove1 e (sigq s i))"
      "evsigcaught (sig s') = evsigcaught (sig s)" "evsignal_caught (sig s') = evsignal_caught (sig s)"
      by (rule event_del_signal [OF ok e rdy])
    then show thesis using that [of s'] False by (simp add: deleted_def)
  qed
  have e1: "ev_base (evs s1 e) = Base" "pri_ok s1 e" "e \<notin> epoll_own s1"
    using base rdy lib_frameD(3) [OF s1(3)] own_not_signal [OF ok] E(2) s1(8)
    by (auto simp: s1(4) ready_def pri_ok_def)
  obtain s2 where s2: "event_active s1 e EV_SIGNAL n = Some s2" "base_ok s2" "queues_only s1 s2"
    "if active s1 e then evs s2 = (evs s1)(e := (evs s1 e)\<lparr>ev_res := ev_res (evs s1 e) OR EV_SIGNAL\<rparr>)
     else evs s2 = (evs s1)(e := (evs s1 e)\<lparr>ev_res := EV_SIGNAL, ev_ncalls := n, ev_pncalls := None,
            ev_flags := ev_flags (evs s1 e) OR EVLIST_ACTIVE\<rparr>)"
    using event_active_base [OF s1(2) e1(1,2), of EV_SIGNAL n] e1(3) by (auto split: if_splits)
  note Q = queues_onlyD [OF s2(3)]
  have "evs s2 = (evs s)(e := signalled n (evs s e))"
    using s2(4) by (cases "has (ev_events (evs s e)) EV_PERSIST"; cases "active s e")
      (simp_all add: s1(4) signalled_def active_def with_flags_def flag_simps)
  moreover have "lib_frame s s2" using lib_frame_trans [OF s1(3) queues_only_lib [OF s2(3)]] .
  moreover have "sigq s2 = sigq s1" "epoll_own s2 = epoll_own s1" using Q(4) by (simp_all add: sigq_def epoll_own_def)
  ultimately show thesis using that [OF s1(1) s2(1,2)] s1(5-8) Q(4) by simp
qed

lemma evsignal_activate_ok:
  assumes "base_ok s" and "sigq s i = ps @ xs" and "\<forall>x\<in>set xs. ready s x"
  obtains s' where "evsignal_activate (epollops (Suc (Suc l))) c (case xs of [] \<Rightarrow> None | x # _ \<Rightarrow> Some x) s = Some s'" and "base_ok s'"
    and "lib_frame s s'" and "evs s' = (\<lambda>x. if x \<in> set xs then signalled (ucast c) (evs s x) else evs s x)"
    and "\<And>j. j \<noteq> i \<Longrightarrow> sigq s' j = sigq s j"
    and "evsigcaught (sig s') = evsigcaught (sig s)" and "evsignal_caught (sig s') = evsignal_caught (sig s)"
    and "epoll_own s' = epoll_own s"
  using assms
proof (induction xs arbitrary: s ps thesis)
  case Nil
  show thesis by (rule Nil(1) [of s]) (use Nil in \<open>simp_all add: evsignal_activate.simps\<close>)
next
  case (Cons e xs)
  have dist: "distinct (ps @ e # xs)" using sigq_distinct [OF Cons.prems(2), of i] Cons.prems(3) by simp
  have e: "e \<in> set (sigq s i)" "ready s e" using Cons.prems(3,4) by simp_all
  obtain s1 s2 where s2: "(if has (ev_events (evs s e)) EV_PERSIST then Some s
      else do { (r, s') \<leftarrow> event_del (epollops (Suc (Suc l))) s e; Some s' }) = Some s1" "event_active s1 e EV_SIGNAL (ucast c) = Some s2"
    "base_ok s2" "lib_frame s s2" "evs s2 = (evs s)(e := signalled (ucast c) (evs s e))"
    "sigq s2 = (if has (ev_events (evs s e)) EV_PERSIST then sigq s else (sigq s)(i := remove1 e (sigq s i)))"
    "evsigcaught (sig s2) = evsigcaught (sig s)" "evsignal_caught (sig s2) = evsignal_caught (sig s)"
    "epoll_own s2 = epoll_own s"
    by (rule activate_one [OF Cons.prems(2) e, of l "ucast c"])
  have next_e: "tqe_next (evsigevents (sig s)) e = (case xs of [] \<Rightarrow> None | x # _ \<Rightarrow> Some x)"
    using tq.nxt_lists [of "evsigevents (sig s)" i ps e xs] Cons.prems(2,3) sig_okD(1)
    by (auto simp: base_ok_def epoll_inv_def sigq_def)
  define ps2 where "ps2 = (if has (ev_events (evs s e)) EV_PERSIST then ps @ [e] else ps)"
  have q2: "sigq s2 i = ps2 @ xs" using s2(6) Cons.prems(3) dist by (simp add: ps2_def remove1_append)
  have rdy2: "\<forall>x\<in>set xs. ready s2 x"
  proof
    fix x assume x: "x \<in> set xs"
    then have "ready s x" using Cons.prems(4) by simp
    moreover have "evs s2 x = evs s x" using dist x by (auto simp: s2(5))
    ultimately show "ready s2 x" using ready_same [OF s2(4)] by simp
  qed
  obtain s' where s': "evsignal_activate (epollops (Suc (Suc l))) c (case xs of [] \<Rightarrow> None | x # _ \<Rightarrow> Some x) s2 = Some s'" "base_ok s'"
    "lib_frame s2 s'" "evs s' = (\<lambda>x. if x \<in> set xs then signalled (ucast c) (evs s2 x) else evs s2 x)"
    "\<And>j. j \<noteq> i \<Longrightarrow> sigq s' j = sigq s2 j"
    "evsigcaught (sig s') = evsigcaught (sig s2)" "evsignal_caught (sig s') = evsignal_caught (sig s2)"
    "epoll_own s' = epoll_own s2"
    by (rule Cons.IH [OF _ s2(3) q2 rdy2]) blast
  show thesis
  proof (rule Cons.prems(1) [of s'])
    have "evsignal_activate (epollops (Suc (Suc l))) c (Some e) s =
        evsignal_activate (epollops (Suc (Suc l))) c (tqe_next (evsigevents (sig s)) e) s2"
      using s2(1,2) by (simp add: evsignal_activate.simps [of _ _ "Some e"] Let_def)
    then show "evsignal_activate (epollops (Suc (Suc l))) c (case e # xs of [] \<Rightarrow> None | x # _ \<Rightarrow> Some x) s = Some s'"
      using next_e s'(1) by simp
    show "evs s' = (\<lambda>x. if x \<in> set (e # xs) then signalled (ucast c) (evs s x) else evs s x)"
      using dist by (auto simp: s'(4) s2(5) fun_eq_iff)
    show "lib_frame s s'" by (rule lib_frame_trans [OF s2(4) s'(3)])
    show "sigq s' j = sigq s j" if "j \<noteq> i" for j using s'(5) [OF that] s2(6) that by simp
  qed (use s' s2 in simp_all)
qed

text \<open>The events whose signal, one of \<open>is\<close>, has been caught, and what becomes of them.\<close>

definition sig_due :: "'b epoll_world_scheme \<Rightarrow> nat list \<Rightarrow> eid \<Rightarrow> bool" where
  "sig_due s is x \<longleftrightarrow> (\<exists>i\<in>set is. x \<in> set (sigq s i) \<and> evsigcaught (sig s) i \<noteq> 0)"

definition after_signals :: "'b epoll_world_scheme \<Rightarrow> nat list \<Rightarrow> eid \<Rightarrow> event" where
  "after_signals s is x =
     (if sig_due s is x then signalled (ucast (evsigcaught (sig s) (nat (ev_fd (evs s x))))) (evs s x) else evs s x)"

lemma after_signals_skip: "evsigcaught (sig s) i = 0 \<Longrightarrow> after_signals s (i # is) = after_signals s is"
  by (simp add: after_signals_def sig_due_def fun_eq_iff)

lemma after_signals_step:
  assumes ok: "base_ok s" and i: "i \<notin> set is" and c: "evsigcaught (sig s) i \<noteq> 0"
    and ev: "\<And>x. evs t x = (if x \<in> set (sigq s i) then signalled (ucast (evsigcaught (sig s) i)) (evs s x) else evs s x)"
    and q: "\<And>j. j \<noteq> i \<Longrightarrow> sigq t j = sigq s j" and caught: "\<And>j. j \<noteq> i \<Longrightarrow> evsigcaught (sig t) j = evsigcaught (sig s) j"
  shows "after_signals t is x = after_signals s (i # is) x"
proof -
  have fd: "nat (ev_fd (evs s x)) = j" if "x \<in> set (sigq s j)" for j using that sigq_iff [OF ok] by auto
  have "\<And>j. j \<in> set is \<Longrightarrow> x \<in> set (sigq t j) \<and> evsigcaught (sig t) j \<noteq> 0 \<longleftrightarrow> x \<in> set (sigq s j) \<and> evsigcaught (sig s) j \<noteq> 0"
    using q caught i by metis
  then have due: "sig_due t is x \<longleftrightarrow> sig_due s is x" by (simp add: sig_due_def)
  show ?thesis
  proof (cases "x \<in> set (sigq s i)")
    case True
    have "\<not> sig_due s is x" using fd [OF True] fd i by (auto simp: sig_due_def)
    moreover have "sig_due s (i # is) x" using True c by (auto simp: sig_due_def)
    ultimately show ?thesis using True fd [OF True] by (simp add: after_signals_def due ev)
  next
    case False
    then have "sig_due s (i # is) x \<longleftrightarrow> sig_due s is x" by (auto simp: sig_due_def)
    moreover have "nat (ev_fd (evs s x)) \<noteq> i" if "sig_due s is x" using that fd i by (auto simp: sig_due_def)
    ultimately show ?thesis using False by (simp add: after_signals_def due ev caught)
  qed
qed

text \<open>One caught signal: its counter is cleared and its events are activated.\<close>

definition clear_caught :: "nat \<Rightarrow> 'b epoll_world_scheme \<Rightarrow> 'b epoll_world_scheme" where
  "clear_caught i s = s\<lparr>sig := (sig s)\<lparr>evsigcaught := (evsigcaught (sig s))(i := 0), evsignal_caught := evsignal_caught (sig s)\<rparr>\<rparr>"

lemma process_signal:
  assumes ok: "base_ok s" and rdy: "all_ready s"
  obtains t where "evsignal_activate (epollops (Suc (Suc l))) (evsigcaught (sig s) i)
        (tqh_first (evsigevents (sig (clear_caught i s))) i) (clear_caught i s) = Some t"
    and "base_ok t" and "all_ready t" and "lib_frame s t"
    and "\<And>x. evs t x = (if x \<in> set (sigq s i) then signalled (ucast (evsigcaught (sig s) i)) (evs s x) else evs s x)"
    and "\<And>j. j \<noteq> i \<Longrightarrow> sigq t j = sigq s j" and "evsigcaught (sig t) = (evsigcaught (sig s))(i := 0)"
    and "evsignal_caught (sig t) = evsignal_caught (sig s)" and "epoll_own t = epoll_own s"
proof -
  let ?c = "evsigcaught (sig s) i"
  note B = base_ok_sig [OF ok clear_caught_def [of i s]]
  have ev1: "evs (clear_caught i s) = evs s" "lib_frame s (clear_caught i s)"
    by (simp_all add: clear_caught_def lib_frame_def lib_rest_def)
  have rdy1: "ready (clear_caught i s) x = ready s x" for x by (rule ready_cong) (simp_all add: ev1)
  have "\<forall>x\<in>set (sigq (clear_caught i s) i). ready (clear_caught i s) x"
    using rdy sigq_iff [OF ok] by (auto simp: B(3) rdy1 all_ready_def)
  then obtain t where t: "evsignal_activate (epollops (Suc (Suc l))) ?c
        (case sigq (clear_caught i s) i of [] \<Rightarrow> None | x # _ \<Rightarrow> Some x) (clear_caught i s) = Some t"
    "base_ok t" "lib_frame (clear_caught i s) t"
    "evs t = (\<lambda>x. if x \<in> set (sigq (clear_caught i s) i) then signalled (ucast ?c) (evs (clear_caught i s) x) else evs (clear_caught i s) x)"
    "\<And>j. j \<noteq> i \<Longrightarrow> sigq t j = sigq (clear_caught i s) j"
    "evsigcaught (sig t) = evsigcaught (sig (clear_caught i s))" "evsignal_caught (sig t) = evsignal_caught (sig (clear_caught i s))"
    "epoll_own t = epoll_own (clear_caught i s)"
    using evsignal_activate_ok [OF B(1), of i "[]" "sigq (clear_caught i s) i" l ?c] by auto
  have lib: "lib_frame s t" using lib_frame_trans [OF ev1(2) t(3)] .
  have evs: "evs t x = (if x \<in> set (sigq s i) then signalled (ucast ?c) (evs s x) else evs s x)" for x
    by (simp add: t(4) ev1(1) B(3))
  have "all_ready t"
  proof (rule all_ready_upd [OF rdy lib])
    fix x assume "evs t x \<noteq> evs s x"
    then have "x \<in> set (sigq s i)" by (auto simp: evs split: if_splits)
    then show "ready s x \<and> ev_pri (evs t x) = ev_pri (evs s x) \<and> (ev_pncalls (evs t x) = None \<or>
        ev_pncalls (evs t x) = ev_pncalls (evs s x) \<and> ev_ncalls (evs t x) = ev_ncalls (evs s x))"
      using sigq_iff [OF ok] all_readyD [OF rdy] signalled_sel(8) [of "ucast ?c" "evs s x"] by (simp add: evs)
  qed
  moreover have "tqh_first (evsigevents (sig (clear_caught i s))) i =
      (case sigq (clear_caught i s) i of [] \<Rightarrow> None | x # _ \<Rightarrow> Some x)"
    using tq.first_lists [OF sig_okD(1), of "clear_caught i s" "{x. inserted (clear_caught i s) x}" i] base_okD(2) [OF B(1)]
    by (simp add: epoll_inv_def sigq_def)
  ultimately show thesis
    using that [of t] t(1,2,5-8) lib evs B(2,3) by (simp add: clear_caught_def)
qed

lemma evsignal_process_from_ok:
  assumes "base_ok s" and "all_ready s" and "distinct is"
  obtains s' where "evsignal_process_from (epollops (Suc (Suc l))) is s = Some s'" and "base_ok s'" and "all_ready s'" and "lib_frame s s'"
    and "evs s' = after_signals s is" and "evsigcaught (sig s') = (\<lambda>i. if i \<in> set is then 0 else evsigcaught (sig s) i)"
    and "evsignal_caught (sig s') = evsignal_caught (sig s)" and "epoll_own s' = epoll_own s"
  using assms
proof (induction "is" arbitrary: s thesis)
  case Nil
  have "after_signals s [] = evs s" by (simp add: after_signals_def sig_due_def fun_eq_iff)
  then show thesis by (intro Nil(1) [of s]) (use Nil in simp_all)
next
  case (Cons i "is")
  note ok = Cons.prems(2) and rdy = Cons.prems(3)
  show thesis
  proof (cases "evsigcaught (sig s) i = 0")
    case True
    obtain s' where s': "evsignal_process_from (epollops (Suc (Suc l))) is s = Some s'" "base_ok s'" "all_ready s'" "lib_frame s s'"
      "evs s' = after_signals s is" "evsigcaught (sig s') = (\<lambda>i. if i \<in> set is then 0 else evsigcaught (sig s) i)"
      "evsignal_caught (sig s') = evsignal_caught (sig s)" "epoll_own s' = epoll_own s"
      by (rule Cons.IH [OF _ ok rdy]) (use Cons.prems(4) in simp_all)
    show thesis
      by (rule Cons.prems(1) [of s']) (use s' True in \<open>auto simp: after_signals_skip fun_eq_iff\<close>)
  next
    case False
    obtain t where t: "evsignal_activate (epollops (Suc (Suc l))) (evsigcaught (sig s) i)
        (tqh_first (evsigevents (sig (clear_caught i s))) i) (clear_caught i s) = Some t"
      "base_ok t" "all_ready t" "lib_frame s t"
      "\<And>x. evs t x = (if x \<in> set (sigq s i) then signalled (ucast (evsigcaught (sig s) i)) (evs s x) else evs s x)"
      "\<And>j. j \<noteq> i \<Longrightarrow> sigq t j = sigq s j" "evsigcaught (sig t) = (evsigcaught (sig s))(i := 0)"
      "evsignal_caught (sig t) = evsignal_caught (sig s)" "epoll_own t = epoll_own s"
      by (rule process_signal [OF ok rdy, of l i]) blast
    obtain s' where s': "evsignal_process_from (epollops (Suc (Suc l))) is t = Some s'" "base_ok s'" "all_ready s'" "lib_frame t s'"
      "evs s' = after_signals t is" "evsigcaught (sig s') = (\<lambda>i. if i \<in> set is then 0 else evsigcaught (sig t) i)"
      "evsignal_caught (sig s') = evsignal_caught (sig t)" "epoll_own s' = epoll_own t"
      by (rule Cons.IH [OF _ t(2,3)]) (use Cons.prems(4) in simp_all)
    have lists: "evsig_lists (sig s)" using base_okD(2) [OF ok] sig_okD(6) by (auto simp: epoll_inv_def)
    have "upd_sig (\<lambda>g. g\<lparr>evsigcaught := (evsigcaught g)(i := evsigcaught g i - evsigcaught (sig s) i)\<rparr>) s = clear_caught i s"
      by (simp add: upd_sig_def clear_caught_def)
    then have run: "evsignal_process_from (epollops (Suc (Suc l))) (i # is) s = Some s'"
      using False t(1) s'(1) lists by (simp add: Let_def)
    have "evs s' = after_signals s (i # is)"
      using after_signals_step [OF ok _ False t(5,6), of "is"] Cons.prems(4) by (simp add: s'(5) t(7) fun_eq_iff)
    then show thesis
      by (intro Cons.prems(1) [OF run s'(2,3) lib_frame_trans [OF t(4) s'(4)]])
        (use s'(6-8) t(7-9) in \<open>auto simp: fun_eq_iff\<close>)
  qed
qed

lemma evsignal_process_base:
  assumes ok: "base_ok s" and rdy: "all_ready s"
  shows "\<exists>s'. evsignal_process (epollops (Suc (Suc l))) s = Some s' \<and> base_ok s' \<and> all_ready s' \<and> lib_frame s s' \<and>
    evs s' = after_signals s [1..<NSIG] \<and> \<not> evsignal_caught (sig s') \<and>
    evsigcaught (sig s') = (\<lambda>i. if 1 \<le> i \<and> i < NSIG then 0 else evsigcaught (sig s) i) \<and>
    epoll_own s' = epoll_own s"
proof -
  define s0 where "s0 = s\<lparr>sig := (sig s)\<lparr>evsigcaught := evsigcaught (sig s), evsignal_caught := False\<rparr>\<rparr>"
  note B = base_ok_sig [OF ok s0_def]
  have ev0: "evs s0 = evs s" "lib_frame s s0" by (simp_all add: s0_def lib_frame_def lib_rest_def)
  have "ready s0 x = ready s x" for x by (rule ready_cong) (simp_all add: ev0)
  then have rdy0: "all_ready s0" using rdy by (simp add: all_ready_def flags_bit ev0(1))
  obtain s' where s': "evsignal_process_from (epollops (Suc (Suc l))) [1..<NSIG] s0 = Some s'" "base_ok s'"
    "all_ready s'" "lib_frame s0 s'" "evs s' = after_signals s0 [1..<NSIG]"
    "evsigcaught (sig s') = (\<lambda>i. if i \<in> set [1..<NSIG] then 0 else evsigcaught (sig s0) i)"
    "evsignal_caught (sig s') = evsignal_caught (sig s0)" "epoll_own s' = epoll_own s0"
    by (rule evsignal_process_from_ok [OF B(1) rdy0, of "[1..<NSIG]" l]) simp_all
  have "sig_due s0 [1..<NSIG] = sig_due s [1..<NSIG]"
    unfolding sig_due_def fun_eq_iff B(3) by (simp add: s0_def)
  moreover have c0: "evsigcaught (sig s0) = evsigcaught (sig s)" by (simp add: s0_def)
  ultimately have "after_signals s0 [1..<NSIG] = after_signals s [1..<NSIG]"
    unfolding fun_eq_iff after_signals_def ev0(1) by simp
  moreover have "evsignal_process (epollops (Suc (Suc l))) s = Some s'"
    using s'(1) by (simp add: evsignal_process_def upd_sig_def s0_def)
  moreover have "\<not> evsignal_caught (sig s0)" by (simp add: s0_def)
  ultimately show ?thesis
    using s' lib_frame_trans [OF ev0(2) s'(4)] B(2) by (intro exI [of _ s']) (simp add: c0 cong: if_cong)
qed

text \<open>
  C15. \<open>evsignal_process\<close> turns every signal that has been caught since the last call into activations: each
  event that waits for it becomes active with the reason \<open>EV_SIGNAL\<close> and the number of times the signal was
  caught (kept as \<open>short\<close>), a non-persistent one is taken off every queue first, and one that stays active from before only
  has the reason added; the counters of the signals and the flag \<open>evsignal_caught\<close> are cleared. No other event changes.
\<close>

theorem evsignal_process_spec:
  assumes "base_ok s" and "all_ready s"
  shows "\<exists>s'. evsignal_process (epollops (Suc (Suc l))) s = Some s' \<and> base_ok s' \<and> all_ready s' \<and> lib_frame s s' \<and>
    evs s' = after_signals s [1..<NSIG] \<and> \<not> evsignal_caught (sig s') \<and>
    evsigcaught (sig s') = (\<lambda>i. if 1 \<le> i \<and> i < NSIG then 0 else evsigcaught (sig s) i)"
  using evsignal_process_base [OF assms] by blast

text \<open>The persistent event 7 waits for signal 10, which has been caught three times.\<close>

definition demo_armed :: epoll_world where
  "demo_armed = snd (the (event_add ops demo_signals 7 None))"

lemma demo_armed:
  shows "base_ok demo_armed" and "all_ready demo_armed" and "7 \<in> set (sigq demo_armed 10)" and "\<not> active demo_armed 7"
    and "ev_fd (evs demo_armed 7) = 10" and "has (ev_events (evs demo_armed 7)) EV_PERSIST"
proof -
  have "map_option (\<lambda>(r, s). (r, evs s 0)) (event_add ops demo_signals 7 None) =
      Some (0, (evs demo_signals 0)\<lparr>ev_flags := EVLIST_INIT OR EVLIST_INTERNAL OR EVLIST_INSERTED\<rparr>)"
    by (simp add: signal_eval eval_defs flag_defs demo_signals_def demo_defs)
  then obtain s where s: "event_add ops demo_signals 7 None = Some (0, s)"
    "evs s 0 = (evs demo_signals 0)\<lparr>ev_flags := EVLIST_INIT OR EVLIST_INTERNAL OR EVLIST_INSERTED\<rparr>" by auto
  have own: "epoll_own demo_signals = {0}" by (simp add: epoll_own_def demo_signals_def demo_world_def demo_sig_def)
  obtain r s' where S: "event_add ops demo_signals 7 None = Some (r, s')" "base_ok s'" "lib_frame demo_signals s'"
    "if r = -1 then True else added {0} demo_signals 7 None s'"
    using event_add_base [OF demo_signals(1,2,6), of 7 None] unfolding own by (auto split: if_splits)
  then have ok: "base_ok s" "lib_frame demo_signals s" "added {0} demo_signals 7 None s" using s(1) by simp_all
  have wants: "wants_io (evs demo_signals 7)" by (simp add: demo_signals(5) demo_event_def wants_io_def flag_defs)
  have ev7: "evs s 7 = (evs demo_signals 7)\<lparr>ev_flags := ev_flags (evs demo_signals 7) OR EVLIST_INSERTED\<rparr>"
    using ok(3) wants demo_signals(4) [of 7] by (simp add: added_def Let_def)
  have rest: "evs s x = evs demo_signals x" if "x \<noteq> 7" "x \<noteq> 0" for x using ok(3) that by (simp add: added_def)
  have arm: "s = demo_armed" using s(1) by (simp add: demo_armed_def)
  have pri: "ev_pri (evs s x) = 0 \<and> ev_pncalls (evs s x) = None" for x
    using rest [of x] s(2) ev7 by (cases "x = 7"; cases "x = 0") (simp_all add: demo_signals_def demo_defs)
  have "nactivequeues s = 1" using lib_frameD(3) [OF ok(2)] by (simp add: demo_signals_def demo_world_def)
  then show "all_ready demo_armed" using pri arm by (simp add: all_ready_def ready_iff)
  show "base_ok demo_armed" using ok(1) arm by simp
  show fd: "ev_fd (evs demo_armed 7) = 10" and "has (ev_events (evs demo_armed 7)) EV_PERSIST" and na: "\<not> active demo_armed 7"
    using ev7 arm demo_signals(4) [of 7]
    by (simp_all add: demo_signals(5) demo_event_def active_def flag_defs)
  have "inserted s 7" "has (ev_events (evs s 7)) EV_SIGNAL"
    by (simp_all add: inserted_def ev7 demo_signals(5) demo_event_def flag_defs)
  then show "7 \<in> set (sigq demo_armed 10)" using sigq_iff [OF ok(1), of 7 10] fd arm by simp
qed

definition demo_caught :: epoll_world where
  "demo_caught = demo_armed\<lparr>sig := (sig demo_armed)\<lparr>evsigcaught := (\<lambda>i. if i = 10 then 3 else 0), evsignal_caught := True\<rparr>\<rparr>"

theorem evsignal_process_spec_witness:
  "\<exists>s'. evsignal_process (epollops (Suc (Suc 0))) demo_caught = Some s' \<and> base_ok s' \<and> evsigcaught (sig s') 10 = 0 \<and>
     active s' 7 \<and> ev_ncalls (evs s' 7) = 3 \<and> ev_res (evs s' 7) = EV_SIGNAL"
proof -
  have ok: "base_ok demo_caught" "sigq demo_caught = sigq demo_armed" by (rule base_ok_sig [OF demo_armed(1) demo_caught_def])+
  have evs: "evs demo_caught = evs demo_armed" by (simp add: demo_caught_def)
  have "all_ready demo_caught"
    using demo_armed(2) by (simp add: all_ready_def flags_bit ready_iff evs) (simp add: demo_caught_def)
  then obtain s' where s': "evsignal_process (epollops (Suc (Suc 0))) demo_caught = Some s'" "base_ok s'"
    "evs s' = after_signals demo_caught [1..<NSIG]" "evsigcaught (sig s') 10 = 0"
    using evsignal_process_spec [OF ok(1), of 0] by (auto simp: NSIG_def)
  have "sig_due demo_caught [1..<NSIG] 7"
    unfolding sig_due_def ok(2) using demo_armed(3) by (intro bexI [of _ 10]) (simp_all add: demo_caught_def NSIG_def)
  then have "evs s' 7 = signalled 3 (evs demo_armed 7)"
    by (simp add: s'(3) after_signals_def evs demo_armed(5)) (simp add: demo_caught_def)
  then show ?thesis
    using s'(1,2,4) demo_armed(4,6) by (simp add: signalled_def active_def) (simp add: has_EVLIST has_EV bit_or_iff bit_EVLIST)
qed

subsection \<open>From ready descriptors to active events\<close>

lemma epoll_inv_table: "base_ok s \<Longrightarrow> table_ok s {x. inserted s x}"
  by (simp add: base_ok_def epoll_inv_def)

definition activated :: "32 word \<Rightarrow> 16 word \<Rightarrow> event \<Rightarrow> event" where
  "activated res n v =
     (if has (ev_flags v) EVLIST_ACTIVE then v\<lparr>ev_res := ev_res v OR res\<rparr>
      else v\<lparr>ev_res := res, ev_ncalls := n, ev_pncalls := None, ev_flags := ev_flags v OR EVLIST_ACTIVE\<rparr>)"

lemma activated_sel [simp]:
  "ev_pri (activated r n v) = ev_pri v" "ev_events (activated r n v) = ev_events v" "ev_fd (activated r n v) = ev_fd v"
  "ev_timeout (activated r n v) = ev_timeout v" "bit (ev_flags (activated r n v)) 3"
  "bit (ev_flags (activated r n v)) (Suc 0) = bit (ev_flags v) (Suc 0)"
  "bit (ev_flags (activated r n v)) 0 = bit (ev_flags v) 0"
  "ev_pncalls (activated r n v) = None \<or> ev_pncalls (activated r n v) = ev_pncalls v \<and> ev_ncalls (activated r n v) = ev_ncalls v"
  by (auto simp: activated_def flag_simps split: if_splits)

lemma has_or_left: "has (f OR g) r \<longleftrightarrow> has f r \<or> has g r"
  using has_or [of r f g] by (simp add: has_def and.commute)

lemma activated_reason: "has r r \<Longrightarrow> has (ev_res (activated r n v)) r"
  by (simp add: activated_def has_or_left)

lemma activate_inserted:
  assumes ok: "base_ok s" and rdy: "all_ready s" and e: "inserted s e"
  obtains s' where "event_active s e res n = Some s'" and "base_ok s'" and "all_ready s'" and "queues_only s s'"
    and "evs s' = (evs s)(e := activated res n (evs s e))" and "inserted s' = inserted s"
proof -
  have r: "ready s e" using all_readyD [OF rdy] e by blast
  obtain s' where s': "event_active s e res n = Some s'" "base_ok s'" "queues_only s s'"
    "if active s e then evs s' = (evs s)(e := (evs s e)\<lparr>ev_res := ev_res (evs s e) OR res\<rparr>)
     else evs s' = (evs s)(e := (evs s e)\<lparr>ev_res := res, ev_ncalls := n, ev_pncalls := None,
            ev_flags := ev_flags (evs s e) OR EVLIST_ACTIVE\<rparr>)"
    using event_active_base [OF ok queued_base [OF ok e], of res n] r e by (auto simp: ready_def split: if_splits)
  have ev: "evs s' = (evs s)(e := activated res n (evs s e))"
    using s'(4) by (cases "active s e") (simp_all add: activated_def active_def)
  have ins: "inserted s' = inserted s" by (simp add: fun_eq_iff flags_bit ev)
  have "all_ready s'"
    by (rule all_ready_upd [OF rdy queues_only_lib [OF s'(3)]])
      (use r activated_sel(8) [of res n "evs s e"] in \<open>auto simp: ev split: if_splits\<close>)
  then show thesis using that s' ev ins by blast
qed

lemma activated_adds: "bit (ev_flags v) 3 \<Longrightarrow> has (ev_res v) q \<Longrightarrow> has (ev_res (activated r n v)) q"
  by (simp add: activated_def has_or_left has_EVLIST)

text \<open>Whether the kernel's report \<open>what\<close> for \<open>fd\<close> concerns the event \<open>e\<close> as a reader, or as a writer.\<close>

definition reads_for :: "'b epoll_world_scheme \<Rightarrow> int \<Rightarrow> 32 word \<Rightarrow> eid \<Rightarrow> bool" where
  "reads_for s fd what e \<longleftrightarrow> 0 \<le> fd \<and> evread (tab s (nat fd)) = Some e \<and>
     (has what EPOLLIN \<or> has what (EPOLLHUP OR EPOLLERR))"

definition writes_for :: "'b epoll_world_scheme \<Rightarrow> int \<Rightarrow> 32 word \<Rightarrow> eid \<Rightarrow> bool" where
  "writes_for s fd what e \<longleftrightarrow> 0 \<le> fd \<and> evwrite (tab s (nat fd)) = Some e \<and>
     (has what EPOLLOUT \<or> has what (EPOLLHUP OR EPOLLERR))"

lemma epoll_activate_base:
  assumes ok: "base_ok s" and rdy: "all_ready s"
  obtains s' where "epoll_activate s (fd, what) = Some s'" and "base_ok s'" and "all_ready s'" and "queues_only s s'"
    and "inserted s' = inserted s"
    and "evs s' = (\<lambda>e. (if writes_for s fd what e then activated EV_WRITE 1 else id)
                       ((if reads_for s fd what e then activated EV_READ 1 else id) (evs s e)))"
proof (cases "fd < 0 \<or> fd \<ge> ep_nfds s")
  case True
  have "\<not> reads_for s fd what e" "\<not> writes_for s fd what e" for e
    using True epoll_inv_table [OF ok] by (auto simp: reads_for_def writes_for_def table_ok_def tab_def no_events_def)
  moreover have "epoll_activate s (fd, what) = Some s" using True by (simp add: epoll_activate_def)
  ultimately show thesis using that [of s] ok rdy by simp
next
  case False
  have n: "ep_nfds s = int (length (ep_fds s))" using epoll_inv_table [OF ok] by (simp add: table_ok_def)
  define i where "i = nat fd"
  have i: "fd = int i" "i < length (ep_fds s)" using False n by (auto simp: i_def)
  have p: "ep_fds s ! i = tab s i" using i by (simp add: tab_def)
  have entry: "entry_ok s {x. inserted s x} i (tab s i)" using epoll_inv_table [OF ok] by (simp add: table_ok_def)
  define r where "r = (if has what (EPOLLHUP OR EPOLLERR) \<or> has what EPOLLIN then evread (tab s i) else None)"
  define w where "w = (if has what (EPOLLHUP OR EPOLLERR) \<or> has what EPOLLOUT then evwrite (tab s i) else None)"
  have rw: "reads_for s fd what e \<longleftrightarrow> r = Some e" "writes_for s fd what e \<longleftrightarrow> w = Some e" for e
    by (auto simp: reads_for_def writes_for_def r_def w_def i(1))
  have ins: "inserted s e" if "r = Some e \<or> w = Some e" for e
    using that entry by (auto simp: r_def w_def entry_ok_def waits_def split: if_splits)
  have act: "epoll_activate s (fd, what) = do {
      s1 \<leftarrow> (case r of None \<Rightarrow> Some s | Some e \<Rightarrow> event_active s e EV_READ 1);
      (case w of None \<Rightarrow> Some s1 | Some e \<Rightarrow> event_active s1 e EV_WRITE 1) }"
    using i n by (simp add: epoll_activate_def p Let_def r_def w_def)
  obtain s1 where s1: "(case r of None \<Rightarrow> Some s | Some e \<Rightarrow> event_active s e EV_READ 1) = Some s1" "base_ok s1"
    "all_ready s1" "queues_only s s1" "inserted s1 = inserted s"
    "evs s1 = (\<lambda>e. (if r = Some e then activated EV_READ 1 else id) (evs s e))"
  proof (cases r)
    case None
    then show thesis using that [of s] ok rdy by simp
  next
    case (Some e)
    obtain s' where "event_active s e EV_READ 1 = Some s'" "base_ok s'" "all_ready s'" "queues_only s s'"
      "evs s' = (evs s)(e := activated EV_READ 1 (evs s e))" "inserted s' = inserted s"
      by (rule activate_inserted [OF ok rdy ins]) (use Some in auto)
    then show thesis using that [of s'] Some by (auto simp: fun_eq_iff)
  qed
  obtain s2 where s2: "(case w of None \<Rightarrow> Some s1 | Some e \<Rightarrow> event_active s1 e EV_WRITE 1) = Some s2" "base_ok s2"
    "all_ready s2" "queues_only s1 s2" "inserted s2 = inserted s1"
    "evs s2 = (\<lambda>e. (if w = Some e then activated EV_WRITE 1 else id) (evs s1 e))"
  proof (cases w)
    case None
    then show thesis using that [of s1] s1 by simp
  next
    case (Some e)
    obtain s' where "event_active s1 e EV_WRITE 1 = Some s'" "base_ok s'" "all_ready s'" "queues_only s1 s'"
      "evs s' = (evs s1)(e := activated EV_WRITE 1 (evs s1 e))" "inserted s' = inserted s1"
      by (rule activate_inserted [OF s1(2,3)]) (use ins Some s1(5) in auto)
    then show thesis using that [of s'] Some by (auto simp: fun_eq_iff)
  qed
  show thesis
  proof (rule that [of s2])
    show "epoll_activate s (fd, what) = Some s2" using act s1(1) s2(1) by simp
    show "queues_only s s2" using s1(4) s2(4) queues_only_trans by blast
    show "inserted s2 = inserted s" using s1(5) s2(5) by simp
    show "evs s2 = (\<lambda>e. (if writes_for s fd what e then activated EV_WRITE 1 else id)
                       ((if reads_for s fd what e then activated EV_READ 1 else id) (evs s e)))"
      by (simp add: s2(6) s1(6) rw)
  qed (use s2 in simp_all)
qed

text \<open>
  C16. A report of the kernel for a descriptor activates exactly the events of the table it concerns: the
  reader if the descriptor is readable, the writer if it is writable, both on an error or a hang-up,
  each with its own reason. A report for a descriptor outside the table is ignored, and no other event changes.
\<close>

theorem epoll_activate_spec:
  assumes "base_ok s" and "all_ready s"
  shows "\<exists>s'. epoll_activate s (fd, what) = Some s' \<and> base_ok s' \<and> all_ready s' \<and>
    (\<forall>e. reads_for s fd what e \<longrightarrow> active s' e \<and> has (ev_res (evs s' e)) EV_READ) \<and>
    (\<forall>e. writes_for s fd what e \<longrightarrow> active s' e \<and> has (ev_res (evs s' e)) EV_WRITE) \<and>
    (\<forall>e. \<not> reads_for s fd what e \<and> \<not> writes_for s fd what e \<longrightarrow> evs s' e = evs s e)"
proof -
  obtain s' where s': "epoll_activate s (fd, what) = Some s'" "base_ok s'" "all_ready s'"
    "evs s' = (\<lambda>e. (if writes_for s fd what e then activated EV_WRITE 1 else id)
                   ((if reads_for s fd what e then activated EV_READ 1 else id) (evs s e)))"
    by (rule epoll_activate_base [OF assms])
  have "has EV_READ (EV_READ :: 32 word)" "has EV_WRITE (EV_WRITE :: 32 word)"
    by (simp_all add: has_def EV_READ_def EV_WRITE_def)
  then have "has (ev_res (activated EV_READ 1 v)) EV_READ" "has (ev_res (activated EV_WRITE 1 v)) EV_WRITE"
    "has (ev_res (activated EV_WRITE 1 (activated EV_READ 1 v))) EV_READ" for v
    by (simp_all only: activated_reason activated_adds activated_sel)
  then show ?thesis using s' by (intro exI [of _ s']) (auto simp: flags_bit)
qed

theorem epoll_activate_spec_witness:
  "\<exists>s s' r. event_add ops demo 7 None = Some (r, s) \<and> epoll_activate s (7, EPOLLIN) = Some s' \<and>
     active s' 7 \<and> has (ev_res (evs s' 7)) EV_READ"
proof -
  obtain r s where s: "event_add ops demo 7 None = Some (r, s)" "base_ok s" "lib_frame demo s" "r = -1 \<or> added {0} demo 7 None s"
    by (rule demo_added [of 7]) auto
  have "map_option (\<lambda>(r, s). (r, evread (tab s 7))) (event_add ops demo 7 None) = Some (0, Some 7)"
    by (simp add: tab_def eval_defs flag_defs demo_defs)
  then have r: "r = 0" "evread (tab s 7) = Some 7" using s(1) by simp_all
  then have add: "added {0} demo 7 None s" using s(4) by simp
  have "ready s x" if x: "inserted s x \<or> timed s x \<or> active s x" for x
  proof -
    have pn: "ev_pncalls (evs demo y) = None \<and> ev_pri (evs demo y) = 0" for y
      by (simp add: demo_defs)
    have "map_option (\<lambda>(r, s). evs s 0) (event_add ops demo 7 None) = Some (evs demo 0)"
      by (simp add: eval_defs flag_defs demo_defs)
    then have "evs s 0 = evs demo 0" using s(1) by simp
    moreover have "\<exists>f. evs s 7 = (evs demo 7)\<lparr>ev_flags := f\<rparr>"
      using add unfolding added_def Let_def by (simp only: option.case) blast
    moreover have "evs s x = evs demo x" if "x \<noteq> 7" "x \<noteq> 0" using add that by (simp add: added_def)
    ultimately have "ev_pncalls (evs s x) = None \<and> ev_pri (evs s x) = 0"
      using pn [of x] by (cases "x = 7"; cases "x = 0") auto
    moreover have "nactivequeues s = 1" using lib_frameD(3) [OF s(3)] by (simp add: demo_defs)
    ultimately show ?thesis by (simp add: ready_iff)
  qed
  then have "all_ready s" by (simp add: all_ready_def)
  moreover have "reads_for s 7 EPOLLIN 7" using r(2) by (simp add: reads_for_def has_def EPOLLIN_def)
  ultimately show ?thesis using epoll_activate_spec [OF s(2), of 7 EPOLLIN] s(1) by blast
qed

subsection \<open>One call of the backend's dispatch\<close>

text \<open>What dispatching events never changes of an event.\<close>

definition same_event :: "event \<Rightarrow> event \<Rightarrow> bool" where
  "same_event v w \<longleftrightarrow> ev_base w = ev_base v \<and> ev_fd w = ev_fd v \<and> ev_events w = ev_events v \<and> ev_timeout w = ev_timeout v \<and>
     ev_pri w = ev_pri v \<and> ev_callback w = ev_callback v \<and> ev_arg w = ev_arg v \<and>
     (bit (ev_flags w) 0 \<longrightarrow> bit (ev_flags v) 0) \<and> (bit (ev_flags w) 1 \<longrightarrow> bit (ev_flags v) 1) \<and>
     (bit (ev_flags w) 3 \<longrightarrow> bit (ev_flags v) 0 \<or> bit (ev_flags v) 1 \<or> bit (ev_flags v) 3) \<and>
     (ev_ncalls w = ev_ncalls v \<or> ev_ncalls w = 1 \<or> has (ev_events v) EV_SIGNAL)"

definition dispatched :: "'a event_core_scheme \<Rightarrow> 'a event_core_scheme \<Rightarrow> bool" where
  "dispatched s s' \<longleftrightarrow> lib_frame s s' \<and> (\<forall>x. same_event (evs s x) (evs s' x))"

lemma dispatched_refl [simp]: "dispatched s s"
  by (simp add: dispatched_def same_event_def)

lemma same_event_trans: "same_event u v \<Longrightarrow> same_event v w \<Longrightarrow> same_event u w"
  unfolding same_event_def by (elim conjE, intro conjI; (simp; fail)?) metis+

lemma dispatched_trans [trans]: "dispatched s t \<Longrightarrow> dispatched t u \<Longrightarrow> dispatched s u"
  unfolding dispatched_def by (blast intro: lib_frame_trans same_event_trans)

lemma dispatchedI: "lib_frame s s' \<Longrightarrow> (\<And>x. same_event (evs s x) (evs s' x)) \<Longrightarrow> dispatched s s'"
  by (simp add: dispatched_def)

lemma same_event_refl [simp]: "same_event v v"
  by (simp add: same_event_def)

lemma same_event_signalled: "bit (ev_flags v) 1 \<Longrightarrow> has (ev_events v) EV_SIGNAL \<Longrightarrow> same_event v (signalled n v)"
  unfolding same_event_def signalled_def by simp

lemma same_event_activated: "same_event v w \<Longrightarrow> bit (ev_flags w) 1 \<Longrightarrow> same_event v (activated r 1 w)"
  unfolding same_event_def activated_def by simp

lemma watcher_inserted:
  assumes ok: "base_ok s" and w: "reads_for s fd what e \<or> writes_for s fd what e"
  shows "bit (ev_flags (evs s e)) 1"
proof -
  have fd: "0 \<le> fd" and e: "evread (tab s (nat fd)) = Some e \<or> evwrite (tab s (nat fd)) = Some e"
    using w by (auto simp: reads_for_def writes_for_def)
  have "nat fd < length (ep_fds s)" using e by (auto simp: tab_def no_events_def split: if_splits)
  then have "entry_ok s {x. inserted s x} (nat fd) (tab s (nat fd))"
    using epoll_inv_table [OF ok] by (simp add: table_ok_def)
  then show ?thesis using e by (auto simp: entry_ok_def waits_def flags_bit split: if_splits)
qed

lemma epoll_activate_all_ok:
  assumes "base_ok s" and "all_ready s"
  shows "\<exists>s'. epoll_activate_all s rs = Some s' \<and> base_ok s' \<and> all_ready s' \<and> dispatched s s' \<and> sig s' = sig s \<and>
    event_core.more s' = event_core.more s"
  using assms
proof (induction rs arbitrary: s)
  case (Cons r rs)
  obtain fd what where r: "r = (fd, what)" by fastforce
  obtain s1 where s1: "epoll_activate s (fd, what) = Some s1" "base_ok s1" "all_ready s1" "queues_only s s1"
    "evs s1 = (\<lambda>e. (if writes_for s fd what e then activated EV_WRITE 1 else id)
                   ((if reads_for s fd what e then activated EV_READ 1 else id) (evs s e)))"
    by (rule epoll_activate_base [OF Cons.prems, of fd what])
  have d: "dispatched s s1"
  proof (rule dispatchedI [OF queues_only_lib [OF s1(4)]])
    fix x
    have "same_event (evs s x) (activated EV_READ 1 (evs s x))" if "reads_for s fd what x"
      using watcher_inserted [OF Cons.prems(1)] that by (blast intro: same_event_activated same_event_refl)
    then have v: "same_event (evs s x) ((if reads_for s fd what x then activated EV_READ 1 else id) (evs s x))"
      (is "same_event _ ?v") by simp
    have "bit (ev_flags (activated EV_READ 1 v)) 1 = bit (ev_flags v) 1" for v
      by (simp add: activated_def)
    then have "bit (ev_flags ?v) 1" if "writes_for s fd what x"
      using watcher_inserted [OF Cons.prems(1), of fd what x] that by simp
    then show "same_event (evs s x) (evs s1 x)"
      using v same_event_activated [OF v] by (simp only: s1(5)) (simp split: if_splits)
  qed
  obtain s' where s': "epoll_activate_all s1 rs = Some s'" "base_ok s'" "all_ready s'" "dispatched s1 s'" "sig s' = sig s1"
    "event_core.more s' = event_core.more s1"
    using Cons.IH [OF s1(2,3)] by blast
  show ?case
    using s' s1(1) dispatched_trans [OF d s'(4)] queues_onlyD(4,17) [OF s1(4)]
    by (intro exI [of _ s']) (simp add: r)
qed simp

text \<open>The state is consistent whatever the kernel's call counter and the size of the array of reports are.\<close>

lemma base_ok_kernel:
  assumes ok: "base_ok s" and k: "k_interest k = k_interest (ker s)" "k_handler k = k_handler (ker s)"
    "k_env k = k_env (ker s)" and s': "s' = s\<lparr>tick := t, ep_nevents := n, ker := k\<rparr>"
  shows "base_ok s'" and "dispatched s s'" and "all_ready s' = all_ready s" and "epoll_own s' = epoll_own s"
proof -
  have evs: "evs s' = evs s" "inserted s' = inserted s" "lib_frame s s'"
    by (simp_all add: s' inserted_def fun_eq_iff lib_frame_def lib_rest_def)
  then show "dispatched s s'" by (intro dispatchedI) simp_all
  have "ready s' x = ready s x" for x by (rule ready_cong) (simp_all add: evs)
  then show "all_ready s' = all_ready s" by (simp add: all_ready_def flags_bit evs(1))
  show own: "epoll_own s' = epoll_own s" by (simp add: epoll_own_def s')
  note B = base_okD [OF ok]
  have "table_ok s' {x. inserted s x}"
    by (rule table_ok_cong) (use B(2) in \<open>simp_all add: epoll_inv_def s'\<close>)
  moreover have "sig_ok s' {x. inserted s x}"
    by (rule sig_ok_cong) (use B(2) k in \<open>simp_all add: epoll_inv_def s'\<close>)
  moreover have "watched s' = watched s" by (rule watched_cong) (simp_all add: s' k)
  ultimately have "epoll_inv s' {x. inserted s' x}" using B(2) by (simp add: epoll_inv_def evs)
  moreover have "core_ok s'" using core_ok_ker(1) B(1)
    by (subst core_ok_cong [of s' s]) (simp_all add: s')
  moreover have "own_ok (epoll_own s) s'" using B(3) by (simp add: own_ok_def flags_bit evs(1))
  ultimately show "base_ok s'" by (simp add: base_ok_def own)
qed

text \<open>The signals of a wait are counted, and then turned into activations.\<close>

lemma deliver_ok:
  assumes ok: "base_ok s" and rdy: "all_ready s" and valid: "\<forall>n\<in>set sigs. n < NSIG"
  obtains s1 where "deliver_signals (s\<lparr>ker := (ker s)\<lparr>k_tick := k_tick (ker s) + 1\<rparr>\<rparr>) sigs = Some s1"
    and "base_ok s1" and "all_ready s1" and "dispatched s s1"
proof -
  define s0 where "s0 = s\<lparr>tick := tick s, ep_nevents := ep_nevents s, ker := (ker s)\<lparr>k_tick := k_tick (ker s) + 1\<rparr>\<rparr>"
  have B0: "base_ok s0" "dispatched s s0" "all_ready s0"
    using base_ok_kernel [OF ok _ _ _ s0_def] rdy by simp_all
  obtain c b where d: "deliver_signals s0 sigs = Some (s0\<lparr>sig := (sig s0)\<lparr>evsigcaught := c, evsignal_caught := b\<rparr>\<rparr>)"
    using deliver_signals_ok [OF valid, of s0] by blast
  let ?s1 = "s0\<lparr>sig := (sig s0)\<lparr>evsigcaught := c, evsignal_caught := b\<rparr>\<rparr>"
  have l: "lib_frame s0 ?s1" by (simp add: lib_frame_def lib_rest_def)
  have "ready ?s1 x = ready s0 x" for x by (rule ready_cong) (simp_all add: l)
  then have "all_ready ?s1" using B0(3) by (simp add: all_ready_def flags_bit)
  moreover have "dispatched s0 ?s1" using l by (intro dispatchedI) simp_all
  ultimately show thesis
    using that [of ?s1] d base_ok_sig(1) [OF B0(1) refl] dispatched_trans [OF B0(2)] by (simp add: s0_def)
qed

lemma process_dispatched:
  assumes ok: "base_ok s" and rdy: "all_ready s"
  obtains s' where "evsignal_process (epollops (Suc (Suc l))) s = Some s'" and "base_ok s'" and "all_ready s'" and "dispatched s s'"
proof -
  obtain s' where s': "evsignal_process (epollops (Suc (Suc l))) s = Some s'" "base_ok s'" "all_ready s'" "lib_frame s s'"
    "evs s' = after_signals s [1..<NSIG]"
    using evsignal_process_base [OF ok rdy, of l] by blast
  have "same_event (evs s x) (evs s' x)" for x
    using sigq_iff [OF ok, of x]
    by (auto simp: s'(5) after_signals_def sig_due_def flags_bit intro!: same_event_signalled)
  then show thesis using that s' dispatchedI [OF s'(4)] by blast
qed

text \<open>The array of reports may be doubled at the end.\<close>

lemma grow_reports_ok:
  assumes ok: "base_ok s" and rdy: "all_ready s"
  obtains s' where "(if full \<and> ep_nevents s < MAX_NEVENTS then
           let s4 = s\<lparr>tick := tick s + 1\<rparr>
           in if os_alloc (os s) (tick s) (nat (ep_nevents s * 2) * 12)
              then Some (0 :: int, s4\<lparr>ep_nevents := ep_nevents s * 2\<rparr>) else Some (0, s4)
         else Some (0, s)) = Some (0, s')" and "base_ok s'" and "all_ready s'" and "dispatched s s'"
proof -
  have grown: "base_ok (s\<lparr>tick := t, ep_nevents := n\<rparr>)" "dispatched s (s\<lparr>tick := t, ep_nevents := n\<rparr>)"
    "all_ready (s\<lparr>tick := t, ep_nevents := n\<rparr>)" for t n
    using base_ok_kernel [OF ok, of "ker s" "s\<lparr>tick := t, ep_nevents := n\<rparr>" n t] rdy by simp_all
  let ?last = "if full \<and> ep_nevents s < MAX_NEVENTS then
           let s4 = s\<lparr>tick := tick s + 1\<rparr>
           in if os_alloc (os s) (tick s) (nat (ep_nevents s * 2) * 12)
              then Some (0 :: int, s4\<lparr>ep_nevents := ep_nevents s * 2\<rparr>) else Some (0, s4)
         else Some (0, s)"
  have "?last = Some (0, s\<lparr>tick := tick s + 1, ep_nevents := ep_nevents s * 2\<rparr>) \<or>
      ?last = Some (0, s\<lparr>tick := tick s, ep_nevents := ep_nevents s\<rparr>) \<or>
      ?last = Some (0, s\<lparr>tick := tick s + 1, ep_nevents := ep_nevents s\<rparr>)"
    by (simp add: Let_def)
  then show thesis using that grown by blast
qed

lemma epoll_dispatch_ok:
  assumes ok: "base_ok s" and rdy: "all_ready s"
  shows "\<exists>r s'. epoll_dispatch (epollops (Suc (Suc l))) s tv = Some (r, s') \<and>
    r = (if snd (k_wait (ker s) (k_tick (ker s)) (epoll_timeout tv)) = WaitFail False then -1 else 0) \<and> base_ok s' \<and>
    all_ready s' \<and> dispatched s s'"
proof -
  obtain sigs res where w: "k_wait (ker s) (k_tick (ker s)) (epoll_timeout tv) = (sigs, res)" by fastforce
  have "\<forall>n\<in>set sigs. n < NSIG"
    using base_okD(2) [OF ok] w unfolding epoll_inv_def watched_def signals_valid_def NSIG_def by (metis fst_conv)
  then obtain s1 where s1: "deliver_signals (s\<lparr>ker := (ker s)\<lparr>k_tick := k_tick (ker s) + 1\<rparr>\<rparr>) sigs = Some s1"
    "base_ok s1" "all_ready s1" "dispatched s s1"
    by (rule deliver_ok [OF ok rdy])
  obtain s2 where s2: "evsignal_process (epollops (Suc (Suc l))) s1 = Some s2" "base_ok s2" "all_ready s2" "dispatched s1 s2"
    by (rule process_dispatched [OF s1(2,3)])
  note d2 = dispatched_trans [OF s1(4) s2(4)]
  show ?thesis
  proof (cases res)
    case (WaitFail eintr)
    have "epoll_dispatch (epollops (Suc (Suc l))) s tv = (if \<not> eintr then Some (-1, s1) else Some (0, s2))"
      using w s1(1) s2(1) by (simp add: epoll_dispatch_def WaitFail)
    then show ?thesis using s1 s2 d2 w by (cases eintr) (simp_all add: WaitFail)
  next
    case (WaitReady rs)
    obtain s3 where s3: "(if evsignal_caught (sig s1) then evsignal_process (epollops (Suc (Suc l))) s1 else Some s1) = Some s3"
      "base_ok s3" "all_ready s3" "dispatched s s3"
      using that [of s2] that [of s1] s1(2-4) s2(1-3) d2 by (cases "evsignal_caught (sig s1)") simp_all
    let ?rs = "take (nat (ep_nevents s1)) rs"
    obtain s4 where s4: "epoll_activate_all s3 ?rs = Some s4" "base_ok s4" "all_ready s4" "dispatched s3 s4"
      using epoll_activate_all_ok [OF s3(2,3)] by blast
    obtain s' where s': "(if int (length ?rs) = ep_nevents s4 \<and> ep_nevents s4 < MAX_NEVENTS then
           let s5 = s4\<lparr>tick := tick s4 + 1\<rparr>
           in if os_alloc (os s4) (tick s4) (nat (ep_nevents s4 * 2) * 12)
              then Some (0 :: int, s5\<lparr>ep_nevents := ep_nevents s4 * 2\<rparr>) else Some (0, s5)
         else Some (0, s4)) = Some (0, s')" "base_ok s'" "all_ready s'" "dispatched s4 s'"
      by (rule grow_reports_ok [OF s4(2,3)])
    have "epoll_dispatch (epollops (Suc (Suc l))) s tv = Some (0, s')"
      using w s1(1) s3(1) s4(1) s'(1) unfolding epoll_dispatch_def WaitReady by (simp add: WaitReady Let_def cong: if_cong)
    then show ?thesis
      using s'(2-4) dispatched_trans [OF s3(4) dispatched_trans [OF s4(4) s'(4)]] w by (simp add: WaitReady)
  qed
qed

end
