(* ===== verification/Rounds.thy ===== *)
theory Rounds
  imports Dispatch
begin

text \<open>
  The rounds of the event loop, for any backend whose dispatch keeps the contract \<open>event_dispatcher\<close>, and for
  \<open>epollops\<close>: no call inside the library fails, the loop returns for the reasons it documents, and the
  active events of the most urgent priority are called in order.
\<close>

subsection \<open>What the library itself changes in a round\<close>

definition queued :: "'a event_core_scheme \<Rightarrow> eid \<Rightarrow> bool" where
  "queued s x \<longleftrightarrow> inserted s x \<or> timed s x \<or> active s x"

text \<open>
  Between the callbacks no event is registered, no callback is exchanged, no \<open>struct event_once\<close> is freed and
  the control flags stay as they are; an event that becomes active is called once unless it is a signal event.
\<close>

definition quiet_event :: "event \<Rightarrow> event \<Rightarrow> bool" where
  "quiet_event v w \<longleftrightarrow> ev_events w = ev_events v \<and> ev_callback w = ev_callback v \<and> ev_arg w = ev_arg v \<and>
     (ev_ncalls w = ev_ncalls v \<or> ev_ncalls w = 1 \<or> has (ev_events v) EV_SIGNAL)"

definition quiet :: "'a event_core_scheme \<Rightarrow> 'a event_core_scheme \<Rightarrow> bool" where
  "quiet s s' \<longleftrightarrow> onces s' = onces s \<and> next_frame s' = next_frame s \<and> (\<forall>p. frames s' p = None \<longleftrightarrow> frames s p = None) \<and>
     event_break s' = event_break s \<and> event_gotsig s' = event_gotsig s \<and>
     (\<forall>x. (queued s' x \<longrightarrow> queued s x) \<and> quiet_event (evs s x) (evs s' x))"

lemma quiet_event_refl [simp]: "quiet_event v v"
  by (simp add: quiet_event_def)

lemma quiet_event_trans: "quiet_event u v \<Longrightarrow> quiet_event v w \<Longrightarrow> quiet_event u w"
  unfolding quiet_event_def by metis

lemma quiet_trans [trans]: "quiet s t \<Longrightarrow> quiet t u \<Longrightarrow> quiet s u"
  unfolding quiet_def by (blast intro: quiet_event_trans trans)

lemma quiet_dispatched:
  assumes "dispatched s s'"
  shows "quiet s s'"
proof -
  have lib: "lib_frame s s'" and ev: "same_event (evs s x) (evs s' x)" for x using assms by (simp_all add: dispatched_def)
  have "(queued s' x \<longrightarrow> queued s x) \<and> quiet_event (evs s x) (evs s' x)" for x
    using ev [of x] by (auto simp: same_event_def quiet_event_def queued_def flags_bit)
  then show ?thesis using lib_frameD [OF lib] by (simp add: quiet_def)
qed

lemma quiet_upd:
  assumes "onces s' = onces s" "next_frame s' = next_frame s" "frames s' = frames s"
    "event_break s' = event_break s" "event_gotsig s' = event_gotsig s"
    and "\<And>x. ev_flags (evs s' x) = ev_flags (evs s x) \<and> quiet_event (evs s x) (evs s' x)"
  shows "quiet s s'"
  using assms by (simp add: quiet_def queued_def flags_bit)

subsection \<open>The limit of the wait\<close>

text \<open>
  The limit that a round gives to the backend: none without a timer, 0 if an event is active already or the loop must
  not block, and otherwise a time; on a system with a monotonic clock exactly what is left until the earliest deadline.
\<close>

definition wait_limit :: "32 word \<Rightarrow> 'a event_core_scheme \<Rightarrow> timeval option \<Rightarrow> bool" where
  "wait_limit flags s lim \<longleftrightarrow>
     (if event_count_active s \<noteq> 0 \<or> has flags EVLOOP_NONBLOCK then lim = Some timerclear
      else if tmq s = [] then lim = None
      else \<exists>t. lim = Some t \<and> tv_ok t \<and>
        (use_monotonic s \<longrightarrow> (\<exists>e now n. timed s e \<and> (\<forall>x. timed s x \<longrightarrow> deadline s e \<le> deadline s x) \<and>
           fst (gettime (s\<lparr>tick := n\<rparr>)) = Some now \<and> usecs t = max 0 (usecs (deadline s e) - usecs now))))"

subsection \<open>The contract of dispatch\<close>

locale event_dispatcher = event_backend +
  assumes dispatch_ok: "core_ok s \<Longrightarrow> binv s {x. inserted s x} \<Longrightarrow> own_ok (own s) s \<Longrightarrow> all_ready s \<Longrightarrow>
      \<exists>r s'. op_dispatch ops tv s = Some (r, s') \<and> (r = 0 \<or> r = -1) \<and> core_ok s' \<and> binv s' {x. inserted s' x} \<and>
        own_ok (own s') s' \<and> all_ready s' \<and> dispatched s s'"
begin

text \<open>The state between two steps of the loop.\<close>

definition sane :: "'a event_core_scheme \<Rightarrow> bool" where
  "sane s \<longleftrightarrow> core_ok s \<and> binv s {x. inserted s x} \<and> own_ok (own s) s \<and> all_ready s \<and>
     clock_ok s \<and> deadlines_ok s \<and> tv_ok (event_tv s)"

lemma saneD:
  assumes "sane s"
  shows "core_ok s" "binv s {x. inserted s x}" "own_ok (own s) s" "all_ready s" "clock_ok s" "deadlines_ok s"
    "tv_ok (event_tv s)"
  using assms by (simp_all add: sane_def)

text \<open>Reading the clock, and storing times in the base.\<close>

lemma sane_upd:
  assumes ok: "sane s" and tv: "tv_ok c" "tv_ok t"
    and s': "s' = s\<lparr>tick := n, tv_cache := c, event_tv := t, event_gotterm := g, event_break := b, event_gotsig := h,
      evsignal_base := eb\<rparr>"
  shows "sane s'"
proof -
  have evs: "evs s' = evs s" by (simp add: s')
  then have ins: "inserted s' = inserted s" by (simp add: inserted_def fun_eq_iff)
  have "binv s' {x. inserted s' x}" "own s' = own s"
    unfolding ins using stable [OF saneD(2) [OF ok], of s'] by (simp_all add: s')
  moreover have "own_ok (own s) s'" using saneD(3) [OF ok] own_ok_cong [of "own s" s' s] by (simp add: evs)
  moreover have "all_ready s'"
    using saneD(4) [OF ok] by (simp add: all_ready_def flags_bit ready_iff evs) (simp add: s')
  moreover have "core_ok s'" using saneD(1) [OF ok] core_ok_cong [of s' s] by (simp add: s')
  moreover have "clock_ok s'" using saneD(5) [OF ok] tv by (simp add: clock_ok_def s')
  moreover have "deadlines_ok s'" using saneD(6) [OF ok] by (simp add: deadlines_ok_def flags_bit deadline_def evs)
  ultimately show ?thesis using tv by (simp add: sane_def s')
qed

lemma sane_dispatched:
  assumes ok: "sane s" and d: "dispatched s s'" and new: "core_ok s'" "binv s' {x. inserted s' x}" "own_ok (own s') s'" "all_ready s'"
  shows "sane s'"
proof -
  have lib: "lib_frame s s'" and ev: "same_event (evs s x) (evs s' x)" for x using d by (simp_all add: dispatched_def)
  have "deadlines_ok s'"
    unfolding deadlines_ok_def
  proof (intro allI impI)
    fix x assume "timed s' x"
    then have "timed s x" "deadline s' x = deadline s x"
      using ev [of x] by (simp_all add: same_event_def flags_bit deadline_def)
    then show "tv_ok (deadline s' x)" using saneD(6) [OF ok] by (simp add: deadlines_ok_def)
  qed
  moreover have "clock_ok s'" using saneD(5) [OF ok] clock_ok_lib [OF lib] by simp
  moreover have "tv_ok (event_tv s')" using saneD(7) [OF ok] lib_frameD(4) [OF lib] by simp
  ultimately show ?thesis using new by (simp add: sane_def)
qed

lemma sane_gettime:
  assumes "sane s"
  obtains now n where "gettime s = (Some now, s\<lparr>tick := n\<rparr>)" and "tv_ok now" and "sane (s\<lparr>tick := n\<rparr>)"
proof -
  obtain now n where now: "gettime s = (Some now, s\<lparr>tick := n\<rparr>)" "tv_ok now"
    by (rule gettime_ok [OF saneD(5) [OF assms]])
  have "tv_ok (tv_cache s)" using saneD(5) [OF assms] by (simp add: clock_ok_def)
  then have "sane (s\<lparr>tick := n\<rparr>)"
    by (rule sane_upd [OF assms _ saneD(7) [OF assms], where n = n and g = "event_gotterm s" and b = "event_break s"
        and h = "event_gotsig s" and eb = "evsignal_base s"]) simp
  then show thesis using that now by blast
qed

lemma sane_shift:
  assumes ok: "sane s" and new: "core_ok s'" "deadlines_ok s'" and tv: "tv_ok t"
    and s': "s' = s\<lparr>tick := n, event_tv := t, evs := f\<rparr>" and f: "\<And>x. \<exists>d. f x = (evs s x)\<lparr>ev_timeout := d\<rparr>"
  shows "sane s'"
proof -
  have fields: "ev_flags (evs s' x) = ev_flags (evs s x)" "ev_pri (evs s' x) = ev_pri (evs s x)"
    "ev_pncalls (evs s' x) = ev_pncalls (evs s x)" "ev_ncalls (evs s' x) = ev_ncalls (evs s x)"
    "ev_view (evs s' x) = ev_view (evs s x)" for x
    using f [of x] by (auto simp: s' ev_view_def)
  have ins: "inserted s' = inserted s" by (simp add: fun_eq_iff flags_bit fields)
  have "binv s' {x. inserted s x}" "own s' = own s"
    using stable [OF saneD(2) [OF ok], of s'] fields(5) by (simp_all add: s')
  moreover have "own_ok (own s) s'" using saneD(3) [OF ok] by (simp add: own_ok_def flags_bit fields)
  moreover have "all_ready s'"
    using saneD(4) [OF ok] by (simp add: all_ready_def flags_bit ready_iff fields) (simp add: s')
  moreover have "clock_ok s'" using saneD(5) [OF ok] by (simp add: clock_ok_def s')
  ultimately show ?thesis using new tv by (simp add: sane_def ins) (simp add: s')
qed

lemma timeout_correct_sane:
  assumes ok: "sane s"
  obtains tv' s' where "timeout_correct s tv0 = Some (tv', s')" and "sane s'" and "event_count s' = event_count s"
    and "event_count_active s' = event_count_active s" and "quiet s s'" and "event_core.more s' = event_core.more s"
    and "tmq s' = tmq s" and "use_monotonic s \<Longrightarrow> s' = s"
proof -
  obtain tv' s' where c: "timeout_correct s tv0 = Some (tv', s')" "core_ok s'" "deadlines_ok s'"
    "if use_monotonic s then s' = s \<and> tv' = tv0
     else \<exists>now n. fst (gettime s) = Some now \<and> tv' = Some now \<and>
       s' = s\<lparr>tick := n, event_tv := now, evs := (if event_tv s \<le> now then evs s
         else (\<lambda>x. if timed s x
           then (evs s x)\<lparr>ev_timeout := timersub (ev_timeout (evs s x)) (timersub (event_tv s) now)\<rparr>
           else evs s x))\<rparr>"
    using timeout_correct_ok [OF saneD(1,5,6,7) [OF ok], of tv0] by auto
  show thesis
  proof (cases "use_monotonic s")
    case True
    moreover have "quiet s s" by (rule quiet_upd) simp_all
    ultimately show thesis using that c ok by simp
  next
    case False
    then obtain now n where now: "fst (gettime s) = Some now"
      "s' = s\<lparr>tick := n, event_tv := now, evs := (if event_tv s \<le> now then evs s
         else (\<lambda>x. if timed s x
           then (evs s x)\<lparr>ev_timeout := timersub (ev_timeout (evs s x)) (timersub (event_tv s) now)\<rparr>
           else evs s x))\<rparr>"
      using c(4) by auto
    have t: "tv_ok now" using now(1) sane_gettime [OF ok] by (metis fst_conv option.inject)
    have keep: "\<exists>d. v = v\<lparr>ev_timeout := d\<rparr>" for v :: event by (rule exI [of _ "ev_timeout v"]) simp
    have "sane s'"
      by (rule sane_shift [OF ok c(2,3) t now(2)]) (use keep in auto)
    moreover have "quiet s s'" by (rule quiet_upd) (simp_all add: now(2) quiet_event_def)
    moreover have "tmq s' = tmq s" by (simp add: now(2) tmq_def)
    ultimately show thesis using that c(1) False by (simp add: now(2))
  qed
qed

lemma next_limit:
  assumes ok: "sane s1" and same: "event_count_active s1 = event_count_active s" "tmq s1 = tmq s" "use_monotonic s \<Longrightarrow> s1 = s"
  obtains tvp lim n where "(if event_count_active s1 = 0 \<and> \<not> has flags EVLOOP_NONBLOCK
      then do { (r, tvp, s') \<leftarrow> timeout_next s1 tv1; Some (tvp, s') }
      else Some (Some (Some timerclear), s1)) = Some (tvp, s1\<lparr>tick := n\<rparr>)"
    and "(case tvp of None \<Rightarrow> Some None | Some None \<Rightarrow> None | Some (Some t) \<Rightarrow> Some (Some t)) = Some lim" and "wait_limit flags s lim"
proof (cases "event_count_active s1 = 0 \<and> \<not> has flags EVLOOP_NONBLOCK")
  case True
  obtain tvp n where t: "timeout_next s1 tv1 = Some (0, tvp, s1\<lparr>tick := n\<rparr>)" "if tmq s1 = [] then tvp = None
     else \<exists>e now t. timed s1 e \<and> (\<forall>x. timed s1 x \<longrightarrow> deadline s1 e \<le> deadline s1 x) \<and>
       (\<exists>n. fst (gettime (s1\<lparr>tick := n\<rparr>)) = Some now) \<and> tvp = Some (Some t) \<and> tv_ok t \<and>
       usecs t = max 0 (usecs (deadline s1 e) - usecs now)"
    using timeout_next_ok [OF saneD(1,5,6) [OF ok], of tv1] by blast
  show thesis
  proof (cases "tmq s1 = []")
    case none: True
    then show thesis using that [of None n None] True t same(1,2) by (simp add: wait_limit_def)
  next
    case some: False
    then obtain e now t where e: "timed s1 e" "\<forall>x. timed s1 x \<longrightarrow> deadline s1 e \<le> deadline s1 x"
      "\<exists>n. fst (gettime (s1\<lparr>tick := n\<rparr>)) = Some now" "tvp = Some (Some t)" "tv_ok t"
      "usecs t = max 0 (usecs (deadline s1 e) - usecs now)"
      using t(2) by auto
    have "wait_limit flags s (Some t)" using e True some same unfolding wait_limit_def by (auto split: if_splits)
    then show thesis using that [of tvp n "Some t"] True t(1) e(4) by simp
  qed
next
  case False
  then show thesis using that [of "Some (Some timerclear)" "tick s1" "Some timerclear"] same(1) by (auto simp: wait_limit_def)
qed

text \<open>
  \<open>loop_wait\<close>: never fails; it ends the loop with 1 exactly if no event of the user is registered or active;
  otherwise it calls the backend once, and ends the loop with -1 exactly if that failed.
\<close>

lemma loop_wait_sane:
  assumes ok: "sane s"
  obtains ret tv' s' where "loop_wait ops flags tv s = Some (ret, tv', s')" and "sane s'" and "quiet s s'"
    and "event_count s \<le> 0 \<longrightarrow> ret = Some (Ret 1) \<and> event_core.more s' = event_core.more s"
    and "0 < event_count s \<longrightarrow> (\<exists>lim s3 r. sane s3 \<and> event_core.more s3 = event_core.more s \<and> wait_limit flags s lim \<and>
      op_dispatch ops lim s3 = Some (r, s') \<and> ret = (if r = -1 then Some (Ret (-1)) else None))"
proof -
  obtain tv1 s1 where s1: "timeout_correct s tv = Some (tv1, s1)" "sane s1" "event_count s1 = event_count s"
    "event_count_active s1 = event_count_active s" "quiet s s1" "event_core.more s1 = event_core.more s" "tmq s1 = tmq s"
    "use_monotonic s \<Longrightarrow> s1 = s"
    by (rule timeout_correct_sane [OF ok, of tv]) blast
  obtain tvp lim n where s2: "(if event_count_active s1 = 0 \<and> \<not> has flags EVLOOP_NONBLOCK
      then do { (r, tvp, s') \<leftarrow> timeout_next s1 tv1; Some (tvp, s') }
      else Some (Some (Some timerclear), s1)) = Some (tvp, s1\<lparr>tick := n\<rparr>)"
    "(case tvp of None \<Rightarrow> Some None | Some None \<Rightarrow> None | Some (Some t) \<Rightarrow> Some (Some t)) = Some lim" "wait_limit flags s lim"
    by (rule next_limit [OF s1(2,4,7,8)])
  let ?s2 = "s1\<lparr>tick := n\<rparr>"
  have tc: "tv_ok (tv_cache s1)" using saneD(5) [OF s1(2)] by (simp add: clock_ok_def)
  have sane2: "sane ?s2"
    by (rule sane_upd [OF s1(2) tc saneD(7) [OF s1(2)], where n = n and g = "event_gotterm s1" and b = "event_break s1"
        and h = "event_gotsig s1" and eb = "evsignal_base s1"]) simp
  have quiet2: "quiet s ?s2" by (rule quiet_trans [OF s1(5)], rule quiet_upd) simp_all
  define tv' where "tv' = (case tvp of None \<Rightarrow> tv1 | Some c \<Rightarrow> c)"
  show thesis
  proof (cases "event_count s \<le> 0")
    case True
    then have "loop_wait ops flags tv s = Some (Some (Ret 1), tv', ?s2)"
      using s1(1,3) s2(1) by (simp add: loop_wait_def event_haveevents_def tv'_def)
    then show thesis by (rule that [OF _ sane2 quiet2]) (use True s1(6) in simp_all)
  next
    case False
    obtain now m where now: "gettime ?s2 = (Some now, ?s2\<lparr>tick := m\<rparr>)" "tv_ok now"
      by (rule sane_gettime [OF sane2])
    define s3 where "s3 = clear_cache (?s2\<lparr>tick := m, event_tv := now\<rparr>)"
    have c0: "tv_ok (Timeval 0 (tv_usec (tv_cache s1)))" using tc by (simp add: tv_ok_def)
    have sane3: "sane s3"
      by (rule sane_upd [OF s1(2) c0 now(2), where n = m and g = "event_gotterm s1" and b = "event_break s1"
          and h = "event_gotsig s1" and eb = "evsignal_base s1"]) (simp add: s3_def clear_cache_def)
    obtain r s4 where s4: "op_dispatch ops lim s3 = Some (r, s4)" "r = 0 \<or> r = -1" "core_ok s4"
      "binv s4 {x. inserted s4 x}" "own_ok (own s4) s4" "all_ready s4" "dispatched s3 s4"
      using dispatch_ok [OF saneD(1-4) [OF sane3]] by blast
    have "quiet s1 s3" by (rule quiet_upd) (simp_all add: s3_def clear_cache_def)
    then have q: "quiet s s4" using quiet_trans [OF s1(5)] quiet_trans quiet_dispatched [OF s4(7)] by blast
    have sane4: "sane s4" by (rule sane_dispatched [OF sane3 s4(7,3-6)])
    have more3: "event_core.more s3 = event_core.more s" by (simp add: s3_def clear_cache_def s1(6))
    have "loop_wait ops flags tv s = Some (if r = -1 then Some (Ret (-1)) else None, tv', s4)"
      using False s1(1,3) s2(1,2) now(1) s4(1)
      by (simp add: loop_wait_def event_haveevents_def tv'_def s3_def)
    then show thesis by (rule that [OF _ sane4 q]) (use False sane3 more3 s2(3) s4(1) in auto)
  qed
qed

text \<open>The timeouts after the dispatch.\<close>

lemma timeout_process_sane:
  assumes ok: "sane s"
  obtains s' where "timeout_process ops s = Some s'" and "sane s'" and "dispatched s s'"
proof -
  have rdy: "ready s x" if "timed s x" for x using all_readyD [OF saneD(4) [OF ok]] that by blast
  obtain s' now n xs where s': "timeout_process ops s = Some s'" "core_ok s'" "binv s' {x. inserted s' x}" "own s' = own s"
    "expired s now xs" "fired_all s xs s'"
    using timeout_process_backend [OF saneD(1,2,5) [OF ok] rdy] by blast
  have F: "lib_frame s s'" "evs s' = (\<lambda>x. if x \<in> set xs then fired (evs s x) else evs s x)"
    using s'(6) by (simp_all add: fired_all_def)
  have xs: "timed s x" if "x \<in> set xs" for x using that s'(5) by (simp add: expired_def)
  have "same_event (evs s x) (evs s' x)" for x
    using xs [of x] by (simp add: F(2) same_event_def fired_def flags_bit)
  then have "dispatched s s'" using F(1) by (intro dispatchedI)
  moreover have "own_ok (own s') s'"
  proof -
    have "evs s' x = evs s x" if "x \<in> own s" for x
      using that xs [of x] saneD(3) [OF ok] by (auto simp: F(2) own_ok_def)
    then show ?thesis using own_ok_cong [of "own s" s' s] saneD(3) [OF ok] s'(4) by simp
  qed
  moreover have "all_ready s'"
    by (rule all_ready_upd [OF saneD(4) [OF ok] F(1)]) (use rdy xs in \<open>auto simp: F(2) fired_def split: if_splits\<close>)
  ultimately have "sane s'" "dispatched s s'" using sane_dispatched [OF ok _ s'(2,3)] by blast+
  then show thesis using that s'(1) by blast
qed

end

interpretation el: event_dispatcher "epollops (Suc (Suc (Suc n)))" epoll_inv epoll_own epoll_fit
proof
  fix s :: "'b epoll_world_scheme" and tv
  assume "core_ok s" "epoll_inv s {x. inserted s x}" "own_ok (epoll_own s) s" and rdy: "all_ready s"
  then have "base_ok s" by (simp add: base_ok_def)
  from epoll_dispatch_ok [OF this rdy, of n tv]
  show "\<exists>r s'. op_dispatch (epollops (Suc (Suc (Suc n)))) tv s = Some (r, s') \<and> (r = 0 \<or> r = -1) \<and> core_ok s' \<and>
      epoll_inv s' {x. inserted s' x} \<and> own_ok (epoll_own s') s' \<and> all_ready s' \<and> dispatched s s'"
    by (auto simp: base_ok_def)
qed

end
