(* ===== verification/Callbacks.thy ===== *)
theory Callbacks
  imports Rounds
begin

text \<open>
  \<open>event_process_active\<close> and the rounds of \<open>event_base_loop\<close> for a client whose callbacks keep a contract:
  they return, keep the base consistent and activate no event themselves.
\<close>

subsection \<open>The contract of the callbacks\<close>

text \<open>
  A \<open>struct event_once\<close> is intact: its event is passed its own address, is called at most once per
  activation, and the client's function in it is one of the client.
\<close>

definition once_event :: "'a event_core_scheme \<Rightarrow> eid \<Rightarrow> bool" where
  "once_event s x \<longleftrightarrow> ev_arg (evs s x) = x \<and> ev_ncalls (evs s x) \<le> 1 \<and>
     \<not> has (ev_events (evs s x)) EV_SIGNAL \<and> \<not> has (ev_events (evs s x)) EV_PERSIST \<and>
     (\<exists>eo. onces s x = Some eo \<and> eo_cb eo \<noteq> OnceCb)"

definition onces_ok :: "'a event_core_scheme \<Rightarrow> bool" where
  "onces_ok s \<longleftrightarrow> (\<forall>x. queued s x \<and> ev_callback (evs s x) = OnceCb \<longrightarrow> once_event s x)"

definition frames_ok :: "'a event_core_scheme \<Rightarrow> bool" where
  "frames_ok s \<longleftrightarrow> (\<forall>p. next_frame s \<le> p \<longrightarrow> frames s p = None)"

text \<open>
  What a callback may do to the state it is called in. It may delete events, which can set a counter
  of remaining calls to 0, and register events, also new ones; it activates none. An event that is deleted in
  the middle of its calls is not registered again before they are over and its memory is not used
  otherwise while calls remain, and while calls of a registered event remain the loop is not broken.
\<close>

definition called :: "'a event_core_scheme \<Rightarrow> 'a event_core_scheme \<Rightarrow> bool" where
  "called s s' \<longleftrightarrow>
     aq_gen s' = aq_gen s \<and> next_frame s' = next_frame s \<and>
     (\<forall>p. frames s' p = frames s p \<or> frames s' p = Some 0 \<and> frames s p \<noteq> None) \<and>
     (\<forall>x. active s' x \<longrightarrow> active s x) \<and> (\<forall>q. actq s' q = filter (active s') (actq s q)) \<and>
     (\<forall>x p. queued s' x \<and> ev_pncalls (evs s' x) = Some p \<and> ev_ncalls (evs s' x) \<noteq> 0 \<longrightarrow>
        queued s x \<and> ev_pncalls (evs s x) = Some p \<and> ev_ncalls (evs s' x) = ev_ncalls (evs s x) \<and>
        frames s' p = frames s p \<and> \<not> event_break s' \<and> \<not> event_gotsig s') \<and>
     (\<forall>x p. ev_pncalls (evs s x) = Some p \<and> frames s' p \<noteq> None \<and> frames s' p \<noteq> Some 0 \<longrightarrow>
        ev_pncalls (evs s' x) = Some p \<and> ev_callback (evs s' x) = ev_callback (evs s x))"

text \<open>The client does not touch the \<open>struct event_once\<close>s of the library.\<close>

definition kept :: "'a event_core_scheme \<Rightarrow> 'a event_core_scheme \<Rightarrow> bool" where
  "kept s s' \<longleftrightarrow> called s s' \<and> onces s \<subseteq>\<^sub>m onces s' \<and> (\<forall>x. onces s x \<noteq> None \<and> \<not> queued s x \<longrightarrow> \<not> queued s' x)"

definition gentle :: "('a event_core_scheme \<Rightarrow> bool) \<Rightarrow> ('a event_core_scheme) client \<Rightarrow> bool" where
  "gentle P cl \<longleftrightarrow>
     (\<forall>n fd what arg s. P s \<and> \<not> event_break s \<and> \<not> event_gotsig s \<longrightarrow> (\<exists>s'. cl_call cl n fd what arg s = Some s' \<and> P s' \<and> kept s s')) \<and>
     (\<forall>f s. P s \<and> \<not> event_gotsig s \<longrightarrow>
        (\<exists>r s'. cl_sigcb cl f s = Some (r, s') \<and> P s' \<and> \<not> event_break s' \<and> \<not> event_gotsig s'))"

lemma calledD:
  assumes "called s s'"
  shows "aq_gen s' = aq_gen s" and "next_frame s' = next_frame s"
    and "frames s' p = frames s p \<or> frames s' p = Some 0 \<and> frames s p \<noteq> None"
    and "active s' x \<Longrightarrow> active s x" and "actq s' q = filter (active s') (actq s q)"
    and "queued s' x \<Longrightarrow> ev_pncalls (evs s' x) = Some p \<Longrightarrow> ev_ncalls (evs s' x) \<noteq> 0 \<Longrightarrow>
        queued s x \<and> ev_pncalls (evs s x) = Some p \<and> ev_ncalls (evs s' x) = ev_ncalls (evs s x) \<and>
        frames s' p = frames s p \<and> \<not> event_break s' \<and> \<not> event_gotsig s'"
    and "ev_pncalls (evs s x) = Some p \<Longrightarrow> frames s' p \<noteq> None \<Longrightarrow> frames s' p \<noteq> Some 0 \<Longrightarrow>
        ev_pncalls (evs s' x) = Some p \<and> ev_callback (evs s' x) = ev_callback (evs s x)"
  using assms unfolding called_def by blast+

lemma keptD:
  assumes "kept s s'"
  shows "called s s'" and "onces s \<subseteq>\<^sub>m onces s'" and "onces s x \<noteq> None \<Longrightarrow> \<not> queued s x \<Longrightarrow> \<not> queued s' x"
  using assms unfolding kept_def by blast+

lemma gentleD:
  assumes "gentle P cl" and "P s"
  shows "\<not> event_break s \<Longrightarrow> \<not> event_gotsig s \<Longrightarrow> \<exists>s'. cl_call cl n fd what arg s = Some s' \<and> P s' \<and> kept s s'"
    and "\<not> event_gotsig s \<Longrightarrow> \<exists>r s'. cl_sigcb cl f s = Some (r, s') \<and> P s' \<and> \<not> event_break s' \<and> \<not> event_gotsig s'"
  using assms unfolding gentle_def by blast+

lemma kept_quit:
  assumes "core_ok s" and "\<not> event_break s" and "\<not> event_gotsig s"
  shows "kept s (s\<lparr>event_gotterm := g\<rparr>)"
proof -
  have "filter (active s) (actq s q) = actq s q" for q
    using core_okD(6) [OF assms(1)] by (intro filter_True) blast
  moreover have "active (s\<lparr>event_gotterm := g\<rparr>) = active s" "queued (s\<lparr>event_gotterm := g\<rparr>) = queued s"
    by (simp_all add: fun_eq_iff queued_def flags_bit)
  ultimately show ?thesis using assms(2,3) by (simp add: kept_def called_def actq_def)
qed

lemma queued_cong: "(\<And>x. ev_flags (evs s' x) = ev_flags (evs s x)) \<Longrightarrow> queued s' = queued s"
  by (simp add: fun_eq_iff queued_def flags_bit)

lemma all_ready_calls:
  assumes rdy: "all_ready s" and n: "nactivequeues s' = nactivequeues s"
    and ev: "\<And>x. ev_flags (evs s' x) = ev_flags (evs s x) \<and> ev_pri (evs s' x) = ev_pri (evs s x)"
    and calls: "\<And>x p. queued s x \<Longrightarrow> ev_pncalls (evs s' x) = Some p \<Longrightarrow> ev_ncalls (evs s' x) \<noteq> 0 \<Longrightarrow> frames s' p \<noteq> None"
  shows "all_ready s'"
  unfolding all_ready_def
proof (intro allI impI)
  fix x assume "inserted s' x \<or> timed s' x \<or> active s' x"
  then have q: "queued s x" using ev [of x] by (simp add: queued_def flags_bit)
  then have "ready s x" using all_readyD [OF rdy] by (simp add: queued_def)
  then show "ready s' x" using calls [OF q] ev [of x] n unfolding ready_iff by simp
qed

lemma ready_frame:
  assumes "all_ready s" and "queued s x" and "ev_pncalls (evs s x) = Some p" and "ev_ncalls (evs s x) \<noteq> 0"
  shows "frames s p \<noteq> None"
  using all_readyD [OF assms(1), of x] assms(2-) by (simp add: queued_def ready_iff)

text \<open>The registered events whose calls are counted in the frame \<open>fr\<close>: none, or only the running one.\<close>

definition idle :: "'a event_core_scheme \<Rightarrow> nat \<Rightarrow> bool" where
  "idle s fr \<longleftrightarrow> (\<forall>x. queued s x \<and> ev_pncalls (evs s x) = Some fr \<longrightarrow> ev_ncalls (evs s x) = 0)"

definition counting :: "'a event_core_scheme \<Rightarrow> nat \<Rightarrow> eid \<Rightarrow> bool" where
  "counting s fr e \<longleftrightarrow> (\<forall>x. queued s x \<and> ev_pncalls (evs s x) = Some fr \<and> ev_ncalls (evs s x) \<noteq> 0 \<longrightarrow>
     x = e \<and> frames s fr = Some (ev_ncalls (evs s x)))"

definition running :: "'a event_core_scheme \<Rightarrow> nat \<Rightarrow> eid \<Rightarrow> bool" where
  "running s fr e \<longleftrightarrow> (frames s fr \<noteq> Some 0 \<longrightarrow> ev_pncalls (evs s e) = Some fr \<and>
     (ev_callback (evs s e) = OnceCb \<longrightarrow> \<not> queued s e \<and> once_event s e \<and> frames s fr = Some 1))"

text \<open>
  The reference for the calls of an event that was activated \<open>k\<close> times: its callback is called \<open>k\<close> times, or until one of the calls clears
  the counter (by deleting the event) or asks to leave the loop.
\<close>

definition calling :: "nat \<Rightarrow> eid \<Rightarrow> 16 word \<Rightarrow> 'a event_core_scheme \<Rightarrow> 'a event_core_scheme" where
  "calling fr e m s = upd_ev e (\<lambda>v. v\<lparr>ev_ncalls := m\<rparr>) (s\<lparr>frames := (frames s)(fr := Some m)\<rparr>)"

fun call_times ::
  "('a event_core_scheme) client \<Rightarrow> nat \<Rightarrow> eid \<Rightarrow> nat \<Rightarrow> 'a event_core_scheme \<Rightarrow> (bool \<times> 'a event_core_scheme) option" where
  "call_times cl fr e 0 s = Some (False, s)"
| "call_times cl fr e (Suc k) s =
     (if frames s fr = Some 0 then Some (False, s)
      else do {
        s2 \<leftarrow> run_callback cl (ev_callback (evs s e)) (ev_fd (evs s e)) (ucast (ev_res (evs s e))) (ev_arg (evs s e))
                (calling fr e (of_nat k) s);
        if event_gotsig s2 \<or> event_break s2 then Some (True, s2) else call_times cl fr e k s2 })"

text \<open>
  The reference for a queue of active events: each event that was on it, in that order, unless it has been
  deactivated by then, is taken off (one that is not persistent off everything) and called as often as it was activated.
\<close>

definition taken_off ::
  "('a event_core_scheme) eventop \<Rightarrow> nat \<Rightarrow> eid \<Rightarrow> 'a event_core_scheme \<Rightarrow> 'a event_core_scheme option" where
  "taken_off evsel fr e s =
     map_option (\<lambda>s1. upd_ev e (\<lambda>v. v\<lparr>ev_pncalls := Some fr\<rparr>) (s1\<lparr>frames := (frames s1)(fr := Some (ev_ncalls (evs s e)))\<rparr>))
       (if has (ev_events (evs s e)) EV_PERSIST then event_queue_remove s e EVLIST_ACTIVE
        else map_option snd (event_del evsel s e))"

fun call_events ::
  "('a event_core_scheme) eventop \<Rightarrow> ('a event_core_scheme) client \<Rightarrow> nat \<Rightarrow> eid list \<Rightarrow>
     'a event_core_scheme \<Rightarrow> 'a event_core_scheme option" where
  "call_events evsel cl fr [] s = Some s"
| "call_events evsel cl fr (e # es) s =
     (if active s e then do {
        s1 \<leftarrow> taken_off evsel fr e s;
        (stop, s2) \<leftarrow> call_times cl fr e (unat (ev_ncalls (evs s e))) s1;
        if stop then Some s2 else call_events evsel cl fr es s2 }
      else call_events evsel cl fr es s)"

text \<open>
  The loop, cut off after so many rounds: its return value and the state, or the state (and the local
  variable \<open>tv\<close>) before the next round.
\<close>

fun loop_rounds ::
  "nat \<Rightarrow> ('a event_core_scheme) eventop \<Rightarrow> ('a event_core_scheme) client \<Rightarrow> 32 word \<Rightarrow> timeval option \<Rightarrow>
     'a event_core_scheme \<Rightarrow> (int \<times> 'a event_core_scheme + timeval option \<times> 'a event_core_scheme) option" where
  "loop_rounds 0 evsel cl flags tv s = Some (Inr (tv, s))"
| "loop_rounds (Suc k) evsel cl flags tv s =
     do { (fin, tv', s') \<leftarrow> loop_round evsel cl flags tv s;
          case fin of
            Ret r \<Rightarrow> Some (Inl (r, s'))
          | Brk \<Rightarrow> Some (Inl (0, clear_cache s'))
          | Done d \<Rightarrow> if d then Some (Inl (0, clear_cache s')) else loop_rounds k evsel cl flags tv' s' }"

lemma loop_rounds_run:
  "loop_rounds k evsel cl flags tv s = Some (Inl res) \<Longrightarrow> loop_run evsel cl flags tv s = Some res"
proof (induction k arbitrary: tv s)
  case (Suc k)
  obtain fin tv' s' where r: "loop_round evsel cl flags tv s = Some (fin, tv', s')"
    using Suc.prems by (cases "loop_round evsel cl flags tv s") auto
  show ?case
    using Suc.prems Suc.IH [of tv' s'] r
    by (subst loop_run.simps) (cases fin; simp split: if_splits)
qed simp

lemma first_active:
  assumes ok: "core_ok s"
  shows "tqh_first (activequeues s) q = (case actq s q of [] \<Rightarrow> None | e # _ \<Rightarrow> Some e)"
  using tq.first_lists [OF core_okD(2) [OF ok], of q] by (simp add: actq_def)

context event_dispatcher
begin

definition live :: "'a event_core_scheme \<Rightarrow> bool" where
  "live s \<longleftrightarrow> sane s \<and> onces_ok s \<and> frames_ok s"

lemma liveD:
  assumes "live s"
  shows "sane s" "onces_ok s" "frames_ok s" "core_ok s" "all_ready s"
  using assms saneD [of s] by (simp_all add: live_def)

text \<open>Changing what the library keeps about calls.\<close>

lemma sane_same:
  assumes ok: "sane s" and new: "core_ok s'" "all_ready s'"
    and same: "sig s' = sig s" "event_core.more s' = event_core.more s" "event_tv s' = event_tv s" "tv_cache s' = tv_cache s"
      "os s' = os s"
    and ev: "\<And>x. ev_view (evs s' x) = ev_view (evs s x) \<and> ev_flags (evs s' x) = ev_flags (evs s x) \<and>
      ev_timeout (evs s' x) = ev_timeout (evs s x)"
  shows "sane s'"
proof -
  have "inserted s' = inserted s" by (simp add: fun_eq_iff flags_bit ev)
  then have "binv s' {x. inserted s' x}" "own s' = own s"
    using stable [OF saneD(2) [OF ok], of s'] ev same by simp_all
  moreover have "own_ok (own s) s'" using saneD(3) [OF ok] ev by (simp add: own_ok_def flags_bit)
  moreover have "clock_ok s'" using saneD(5) [OF ok] same by (simp add: clock_ok_def)
  moreover have "deadlines_ok s'" using saneD(6) [OF ok] ev by (simp add: deadlines_ok_def flags_bit deadline_def)
  ultimately show ?thesis using new saneD(7) [OF ok] same by (simp add: sane_def)
qed

text \<open>
  \<open>take_active\<close> takes the event off its queue, one that is not persistent off everything, and from then on its
  calls are counted in the frame.
\<close>

lemma drop_active_ok:
  assumes ok: "sane s" and e: "active s e"
  obtains s0 f where "(if has (ev_events (evs s e)) EV_PERSIST then event_queue_remove s e EVLIST_ACTIVE
      else do { (r, s') \<leftarrow> event_del ops s e; Some s' }) = Some s0"
    and "sane s0" and "dispatched s s0" and "evs s0 = with_flags e f s" and "\<not> bit f 3"
    and "\<not> has (ev_events (evs s e)) EV_PERSIST \<Longrightarrow> f = off_queues (ev_flags (evs s e))"
    and "actq s0 = (\<lambda>q. remove1 e (actq s q))"
proof -
  note S = saneD [OF ok]
  have rdy: "ready s e" using all_readyD [OF S(4)] e by blast
  have same: "same_event v (v\<lparr>ev_flags := f\<rparr>)" if "\<And>n. bit f n \<Longrightarrow> bit (ev_flags v) n" for v f
    using that by (simp add: same_event_def)
  have still: "sane s0" if "core_ok s0" "binv s0 {x. inserted s0 x}" "own s0 = own s" "dispatched s s0"
      "evs s0 = with_flags e f s" "\<not> bit f 3" "\<not> bit f 0 \<or> bit f 0 = bit (ev_flags (evs s e)) 0" for s0 f
  proof -
    have "own_ok (own s0) s0" using S(3) that by (auto simp: own_ok_def flags_bit with_flags_def)
    moreover have "all_ready s0"
      by (rule all_ready_upd [OF S(4)])
        (use that(4,5) rdy in \<open>auto simp: dispatched_def with_flags_def split: if_splits\<close>)
    ultimately show ?thesis using sane_dispatched [OF ok that(4) that(1,2)] by blast
  qed
  show thesis
  proof (cases "has (ev_events (evs s e)) EV_PERSIST")
    case True
    obtain s0 where s0: "(if has (ev_flags (evs s e)) EVLIST_ACTIVE then event_queue_remove s e EVLIST_ACTIVE
        else Some s) = Some s0" "moves s e (ev_flags (evs s e) AND NOT EVLIST_ACTIVE) s0"
      "actq s0 = (\<lambda>p. remove1 e (actq s p))"
      by (rule drop_active [OF S(1)])
    note M = movesD [OF s0(2)]
    have ins: "inserted s0 = inserted s" by (simp add: fun_eq_iff flags_bit M(3) with_flags_def)
    have b: "binv s0 {x. inserted s0 x}" "own s0 = own s"
      using stable_moves [OF S(2) s0(2)] by (simp_all add: ins)
    have d: "dispatched s s0"
      by (rule dispatchedI [OF queues_only_lib [OF M(2)]]) (auto simp: M(3) with_flags_def intro!: same)
    show thesis
      by (rule that [of s0, OF _ still [OF M(1) b d M(3)] d M(3)])
        (use True e s0 in \<open>simp_all add: active_def\<close>)
  next
    case False
    have base: "ev_base (evs s e) = Base" using core_okD(11) [OF S(1)] e by blast
    obtain r s0 where s0: "event_del ops s e = Some (r, s0)" "core_ok s0" "binv s0 {x. inserted s0 x}"
      "own s0 = own s" "deleted s e s0"
      by (rule event_del_backend [OF S(1,2) base]) (use rdy in \<open>auto simp: ready_def\<close>)
    have D: "lib_frame s s0" "evs s0 = with_flags e (off_queues (ev_flags (evs s e))) s"
      "actq s0 = (\<lambda>p. remove1 e (actq s p))"
      using s0(5) by (simp_all add: deleted_def)
    have d: "dispatched s s0"
      by (rule dispatchedI [OF D(1)]) (auto simp: D(2) with_flags_def intro!: same)
    show thesis
      by (rule that [of s0, OF _ still [OF s0(2-4) d D(2)] d D(2)]) (use False s0(1) D(3) in simp_all)
  qed
qed

lemma take_active_ok:
  assumes ok: "live s" and e: "active s e" and fr: "frames s fr \<noteq> None" and idle: "idle s fr"
  obtains s1 where "take_active ops fr s e = Some s1" and "live s1" and "counting s1 fr e" and "running s1 fr e"
    and "frames s1 fr \<noteq> None" and "aq_gen s1 = aq_gen s" and "event_break s1 = event_break s" and "event_gotsig s1 = event_gotsig s"
    and "\<And>x. active s1 x \<longleftrightarrow> active s x \<and> x \<noteq> e" and "actq s1 = (\<lambda>q. remove1 e (actq s q))"
    and "frames s1 fr = Some (ev_ncalls (evs s e))" and "onces s1 = onces s"
    and "\<exists>f. evs s1 = (evs s)(e := (evs s e)\<lparr>ev_flags := f, ev_pncalls := Some fr\<rparr>)"
    and "taken_off ops fr e s = Some s1"
proof -
  note L = liveD [OF ok]
  obtain s0 f where s0: "(if has (ev_events (evs s e)) EV_PERSIST then event_queue_remove s e EVLIST_ACTIVE
      else do { (r, s') \<leftarrow> event_del ops s e; Some s' }) = Some s0"
    "sane s0" "dispatched s s0" "evs s0 = with_flags e f s" "\<not> bit f 3"
    "\<not> has (ev_events (evs s e)) EV_PERSIST \<Longrightarrow> f = off_queues (ev_flags (evs s e))"
    "actq s0 = (\<lambda>q. remove1 e (actq s q))"
    by (rule drop_active_ok [OF L(1) e]) blast
  have lib: "lib_frame s s0" using s0(3) by (simp add: dispatched_def)
  have q0: "queued s x" if "queued s0 x" for x
    using quiet_dispatched [OF s0(3)] that by (simp add: quiet_def)
  have frames0: "frames s0 p = None \<longleftrightarrow> frames s p = None" for p using lib_frameD(14) [OF lib] .
  define c where "c = ev_ncalls (evs s e)"
  define s1 where "s1 = upd_ev e (\<lambda>v. v\<lparr>ev_pncalls := Some fr\<rparr>) (s0\<lparr>frames := (frames s0)(fr := Some c)\<rparr>)"
  have evs1: "evs s1 = (evs s)(e := (evs s e)\<lparr>ev_flags := f, ev_pncalls := Some fr\<rparr>)"
    by (simp add: s1_def s0(4) with_flags_def)
  have flags1: "ev_flags (evs s1 x) = ev_flags (evs s0 x)" for x by (simp add: s1_def)
  then have q1: "queued s1 = queued s0" by (rule queued_cong)
  have "take_active ops fr s e = Some s1"
    using s0(1) by (simp add: take_active_def s1_def c_def s0(4) with_flags_def split: if_splits)
  moreover have "sane s1"
  proof (rule sane_same [OF s0(2)])
    show "core_ok s1" unfolding s1_def by (rule core_ok_upd_ev) (use saneD(1) [OF s0(2)] in simp_all)
    show "all_ready s1"
    proof (rule all_ready_calls [OF saneD(4) [OF s0(2)]])
      fix x p assume x: "queued s0 x" "ev_pncalls (evs s1 x) = Some p" "ev_ncalls (evs s1 x) \<noteq> 0"
      show "frames s1 p \<noteq> None"
        using ready_frame [OF saneD(4) [OF s0(2)] x(1)] x(2,3) by (auto simp: s1_def upd_ev_def split: if_splits)
    qed (simp_all add: s1_def)
  qed (simp_all add: s1_def upd_ev_def ev_view_def)
  moreover have "onces_ok s1"
    unfolding onces_ok_def
  proof (intro allI impI)
    fix x assume x: "queued s1 x \<and> ev_callback (evs s1 x) = OnceCb"
    then have "once_event s x" using q0 [of x] L(2) by (simp add: q1 onces_ok_def evs1 split: if_splits)
    then show "once_event s1 x" using lib_frameD(12) [OF lib] by (auto simp: once_event_def evs1) (auto simp: s1_def upd_ev_def)
  qed
  moreover have "frames_ok s1"
    using L(3) fr lib_frameD(11) [OF lib] frames0 by (auto simp: frames_ok_def s1_def upd_ev_def)
  moreover have "counting s1 fr e"
    using idle q0 by (auto simp: counting_def idle_def evs1 q1 c_def) (simp_all add: s1_def upd_ev_def c_def)
  moreover have "running s1 fr e"
    unfolding running_def
  proof (intro impI conjI)
    assume c: "frames s1 fr \<noteq> Some 0" and "ev_callback (evs s1 e) = OnceCb"
    then have o: "once_event s e" using L(2) e by (simp add: onces_ok_def queued_def evs1)
    then have "f = off_queues (ev_flags (evs s e))" using s0(6) by (simp add: once_event_def)
    then show "\<not> queued s1 e" by (simp add: queued_def flags_bit evs1)
    show "once_event s1 e" using o lib_frameD(12) [OF lib] by (simp add: once_event_def evs1) (simp add: s1_def upd_ev_def)
    have "c \<noteq> 0" using c by (simp add: s1_def upd_ev_def)
    moreover have "c \<le> 1" using o by (simp add: once_event_def c_def)
    ultimately have "c = 1" using inc_le [of 0 c] by (simp add: word_gt_0)
    then show "frames s1 fr = Some 1" by (simp add: s1_def upd_ev_def)
  qed (simp add: evs1)
  moreover have "active s1 x \<longleftrightarrow> active s x \<and> x \<noteq> e" for x
    using s0(5) by (simp add: flags_bit evs1)
  moreover have "taken_off ops fr e s = Some s1"
    using s0(1) unfolding taken_off_def s1_def c_def by (auto simp: bind_eq_Some_conv split: if_splits)
  moreover have "\<exists>f. evs s1 = (evs s)(e := (evs s e)\<lparr>ev_flags := f, ev_pncalls := Some fr\<rparr>)" using evs1 by blast
  ultimately show thesis
    using lib_frameD [OF lib] s0(7) by (intro that [of s1]) (simp_all add: live_def s1_def upd_ev_def actq_def c_def)
qed

lemma live_quit: "live s \<Longrightarrow> live (s\<lparr>event_gotterm := g\<rparr>)"
proof -
  assume ok: "live s"
  note L = liveD [OF ok]
  have "sane (s\<lparr>event_gotterm := g\<rparr>)"
    by (rule sane_same [OF L(1)]) (use L(4,5) in \<open>simp_all add: all_ready_def flags_bit ready_iff\<close>)
  then show ?thesis
    using L(2,3) by (simp add: live_def onces_ok_def once_event_def frames_ok_def queued_def flags_bit)
qed

lemma run_plain_ok:
  assumes ok: "live s" and cl: "gentle live cl" and go: "\<not> event_break s" "\<not> event_gotsig s" and cb: "cb \<noteq> OnceCb"
  shows "\<exists>s'. run_plain cl cb fd what arg s = Some s' \<and> live s' \<and> kept s s'"
proof (cases cb)
  case (User n)
  then show ?thesis using gentleD(1) [OF cl ok] go by (simp add: run_plain_def)
next
  case LoopexitCb
  then show ?thesis
    using live_quit [OF ok] kept_quit [OF liveD(4) [OF ok] go] by (simp add: run_plain_def event_loopexit_cb_def)
next
  case EvsignalCb
  have "kept s s" using kept_quit [OF liveD(4) [OF ok] go, of "event_gotterm s"] by simp
  then show ?thesis using ok EvsignalCb by (simp add: run_plain_def)
qed (use cb in simp)

lemma run_callback_ok:
  assumes ok: "live s" and cl: "gentle live cl" and go: "\<not> event_break s" "\<not> event_gotsig s"
    and once: "ev_callback (evs s e) = OnceCb \<Longrightarrow> \<not> queued s e \<and> once_event s e"
  shows "\<exists>s'. run_callback cl (ev_callback (evs s e)) fd what (ev_arg (evs s e)) s = Some s' \<and> live s' \<and> called s s'"
proof (cases "ev_callback (evs s e) = OnceCb")
  case False
  then show ?thesis using run_plain_ok [OF ok cl go False] keptD(1) by (fastforce simp: run_callback_def)
next
  case True
  then obtain eo where eo: "onces s e = Some eo" "eo_cb eo \<noteq> OnceCb" and arg: "ev_arg (evs s e) = e" and q: "\<not> queued s e"
    using once by (auto simp: once_event_def)
  obtain s1 where s1: "run_plain cl (eo_cb eo) fd what (eo_arg eo) s = Some s1" "live s1" "kept s s1"
    using run_plain_ok [OF ok cl go eo(2)] by blast
  note K = keptD [OF s1(3)] and L = liveD [OF s1(2)]
  have e1: "onces s1 e = Some eo" using K(2) eo(1) by (metis domI map_le_def)
  have q1: "\<not> queued s1 e" using K(3) eo(1) q by blast
  let ?s' = "s1\<lparr>onces := (onces s1)(e := None)\<rparr>"
  have "event_once_cb cl fd what e s = Some ?s'" using eo(1) s1(1) e1 by (simp add: event_once_cb_def)
  moreover have "sane ?s'"
    by (rule sane_same [OF L(1)]) (use L(4,5) in \<open>simp_all add: all_ready_def flags_bit ready_iff\<close>)
  moreover have "onces_ok ?s'"
    using L(2) q1 by (auto simp: onces_ok_def once_event_def queued_def flags_bit)
  moreover have "frames_ok ?s'" using L(3) by (simp add: frames_ok_def)
  moreover have "called s ?s'"
  proof -
    have "active ?s' = active s1" "queued ?s' = queued s1" "actq ?s' = actq s1"
      by (simp_all add: fun_eq_iff queued_def flags_bit actq_def)
    then have "called s ?s' = called s s1" by (simp add: called_def)
    then show ?thesis using K(1) by simp
  qed
  ultimately show ?thesis using True arg by (simp add: run_callback_def live_def)
qed

text \<open>
  The calls of one event: they end, and unless the loop is to be left or an exception applies, no call
  of a registered event remains counted in the frame.
\<close>

lemma calling_sel [simp]:
  "evs (calling fr e m s) = (evs s)(e := (evs s e)\<lparr>ev_ncalls := m\<rparr>)" "frames (calling fr e m s) = (frames s)(fr := Some m)"
  "queued (calling fr e m s) = queued s" "active (calling fr e m s) = active s" "actq (calling fr e m s) = actq s"
  "onces (calling fr e m s) = onces s" "aq_gen (calling fr e m s) = aq_gen s" "event_break (calling fr e m s) = event_break s"
  "event_gotsig (calling fr e m s) = event_gotsig s" "next_frame (calling fr e m s) = next_frame s"
  by (auto simp: calling_def upd_ev_def actq_def fun_eq_iff queued_def flags_bit)

lemma live_calling:
  assumes ok: "live s" and run: "running s fr e" "frames s fr = Some n" "n \<noteq> 0"
  shows "live (calling fr e (n - 1) s)"
proof -
  note L = liveD [OF ok]
  let ?s = "calling fr e (n - 1) s"
  have pn: "ev_pncalls (evs s e) = Some fr" and once: "ev_callback (evs s e) = OnceCb \<Longrightarrow> \<not> queued s e"
    using run by (auto simp: running_def)
  have ready1: "all_ready ?s"
  proof (rule all_ready_calls [OF L(5)])
    fix x p assume "queued s x" "ev_pncalls (evs ?s x) = Some p" "ev_ncalls (evs ?s x) \<noteq> 0"
    then show "frames ?s p \<noteq> None"
      using ready_frame [OF L(5), of x p] pn by (auto split: if_splits)
  qed (simp_all add: calling_def)
  have "sane ?s"
  proof (rule sane_same [OF L(1) _ ready1])
    show "core_ok ?s" unfolding calling_def by (rule core_ok_upd_ev) (use L(4) in simp_all)
  qed (simp_all add: calling_def upd_ev_def ev_view_def)
  moreover have "onces_ok ?s" using L(2) once by (auto simp: onces_ok_def once_event_def)
  moreover have "frames_ok ?s" using L(3) run(2) by (auto simp: frames_ok_def)
  ultimately show ?thesis by (simp add: live_def)
qed

lemma call_ok:
  assumes cl: "gentle live cl" and ok: "live s" and counting: "counting s fr e" and running: "running s fr e"
    and fr: "frames s fr = Some n" "n \<noteq> 0" and go: "\<not> event_break s" "\<not> event_gotsig s"
  obtains s2 where "run_callback cl (ev_callback (evs s e)) (ev_fd (evs s e)) (ucast (ev_res (evs s e))) (ev_arg (evs s e))
      (calling fr e (n - 1) s) = Some s2"
    and "live s2" and "counting s2 fr e" and "running s2 fr e" and "frames s2 fr = Some (n - 1) \<or> frames s2 fr = Some 0"
    and "aq_gen s2 = aq_gen s" and "event_gotsig s2 \<or> event_break s2 \<longrightarrow> idle s2 fr"
    and "\<forall>x. active s2 x \<longrightarrow> active s x" and "\<forall>q. actq s2 q = filter (active s2) (actq s q)"
proof -
  let ?s1 = "calling fr e (n - 1) s"
  have live1: "live ?s1" by (rule live_calling [OF ok running fr])
  have pn: "ev_pncalls (evs s e) = Some fr"
    and once: "ev_callback (evs s e) = OnceCb \<Longrightarrow> \<not> queued s e \<and> once_event s e \<and> n = 1"
    using running fr by (auto simp: running_def)
  have once1: "\<not> queued ?s1 e \<and> once_event ?s1 e" if "ev_callback (evs ?s1 e) = OnceCb"
    using once that by (auto simp: once_event_def)
  obtain s2 where s2: "run_callback cl (ev_callback (evs ?s1 e)) (ev_fd (evs ?s1 e)) (ucast (ev_res (evs ?s1 e)))
      (ev_arg (evs ?s1 e)) ?s1 = Some s2" "live s2" "called ?s1 s2"
    using run_callback_ok [OF live1 cl _ _ once1] go by auto
  note C = calledD [OF s2(3)]
  have fr2: "frames s2 fr = Some (n - 1) \<or> frames s2 fr = Some 0" using C(3) [of fr] by auto
  have counted1: "x = e \<and> frames ?s1 fr = Some (ev_ncalls (evs ?s1 x))"
    if "queued ?s1 x" "ev_pncalls (evs ?s1 x) = Some fr" "ev_ncalls (evs ?s1 x) \<noteq> 0" for x
    using that counting by (auto simp: counting_def split: if_splits)
  have counting2: "counting s2 fr e"
    unfolding counting_def
  proof (intro allI impI)
    fix x assume x: "queued s2 x \<and> ev_pncalls (evs s2 x) = Some fr \<and> ev_ncalls (evs s2 x) \<noteq> 0"
    then have "queued ?s1 x" "ev_pncalls (evs ?s1 x) = Some fr" "ev_ncalls (evs s2 x) = ev_ncalls (evs ?s1 x)"
      "frames s2 fr = frames ?s1 fr"
      using C(6) by blast+
    then show "x = e \<and> frames s2 fr = Some (ev_ncalls (evs s2 x))" using counted1 [of x] x by (simp del: calling_sel)
  qed
  have running2: "running s2 fr e"
    unfolding running_def
  proof
    assume nz: "frames s2 fr \<noteq> Some 0"
    then have keep: "ev_pncalls (evs s2 e) = Some fr" "ev_callback (evs s2 e) = ev_callback (evs s e)"
      using C(7) [of e fr] fr2 pn by simp_all
    have "ev_callback (evs s e) \<noteq> OnceCb" using once nz fr2 by auto
    then show "ev_pncalls (evs s2 e) = Some fr \<and> (ev_callback (evs s2 e) = OnceCb \<longrightarrow>
        \<not> queued s2 e \<and> once_event s2 e \<and> frames s2 fr = Some 1)"
      using keep by simp
  qed
  have "event_gotsig s2 \<or> event_break s2 \<longrightarrow> idle s2 fr" using C(6) by (auto simp: idle_def)
  then show thesis using that s2(1,2) counting2 running2 fr2 C(1,4,5) by simp
qed

lemma no_calls:
  assumes "live s" and "counting s fr e" and "frames s fr = Some 0"
  shows "run_calls cl fr e s = Some (False, s)" and "call_times cl fr e k s = Some (False, s)" and "idle s fr"
    and "filter (active s) (actq s q) = actq s q"
proof -
  show "call_times cl fr e k s = Some (False, s)" using assms(3) by (cases k) simp_all
  show "filter (active s) (actq s q) = actq s q" using core_okD(6) [OF liveD(4) [OF assms(1)]] by (intro filter_True) blast
qed (use assms in \<open>auto simp: run_calls.simps [of _ _ _ s] idle_def counting_def\<close>)

lemma run_calls_ok:
  assumes cl: "gentle live cl"
    and "live s" and "counting s fr e" and "running s fr e" and "frames s fr = Some n" and "n = 0 \<or> unat n = k"
    and "\<not> event_break s" and "\<not> event_gotsig s"
  shows "\<exists>stop s'. run_calls cl fr e s = Some (stop, s') \<and> call_times cl fr e k s = Some (stop, s') \<and> live s' \<and> idle s' fr \<and>
    frames s' fr \<noteq> None \<and> aq_gen s' = aq_gen s \<and> stop = (event_break s' \<or> event_gotsig s') \<and>
    (\<forall>x. active s' x \<longrightarrow> active s x) \<and> (\<forall>q. actq s' q = filter (active s') (actq s q))"
  using assms(2-)
proof (induction k arbitrary: s n)
  case 0
  then have "n = 0" by (simp add: unat_eq_0)
  then show ?case using no_calls [OF 0(1,2)] 0 by auto
  next
  case (Suc k)
  note go = Suc.prems(6,7)
  show ?case
  proof (cases "n = 0")
    case True
    then show ?thesis using no_calls [OF Suc.prems(1,2)] Suc.prems by auto
  next
    case False
    then have n: "unat n = Suc k" using Suc.prems(5) by blast
    have "of_nat (unat n) = n" by simp
    then have k: "of_nat k = n - 1" "unat (n - 1) = k" using n False by (simp_all add: unat_minus_one) (metis add_diff_cancel_left')
    obtain s2 where s2: "run_callback cl (ev_callback (evs s e)) (ev_fd (evs s e)) (ucast (ev_res (evs s e))) (ev_arg (evs s e))
        (calling fr e (n - 1) s) = Some s2"
      "live s2" "counting s2 fr e" "running s2 fr e" "frames s2 fr = Some (n - 1) \<or> frames s2 fr = Some 0"
      "aq_gen s2 = aq_gen s" "event_gotsig s2 \<or> event_break s2 \<longrightarrow> idle s2 fr"
      "\<forall>x. active s2 x \<longrightarrow> active s x" "\<forall>q. actq s2 q = filter (active s2) (actq s q)"
      by (rule call_ok [OF cl Suc.prems(1-4) False go])
    have run: "run_calls cl fr e s = (if event_gotsig s2 \<or> event_break s2 then Some (True, s2) else run_calls cl fr e s2)"
      using Suc.prems(4) False s2(1) by (subst run_calls.simps) (simp add: Let_def flip: calling_def)
    have ref: "call_times cl fr e (Suc k) s = (if event_gotsig s2 \<or> event_break s2 then Some (True, s2) else call_times cl fr e k s2)"
      using Suc.prems(4) False s2(1) k(1) by simp
    show ?thesis
    proof (cases "event_gotsig s2 \<or> event_break s2")
      case True
      then show ?thesis using run ref s2 by (intro exI [of _ True] exI [of _ s2]) auto
    next
      case go2: False
      obtain m where m: "frames s2 fr = Some m" "m = 0 \<or> unat m = k" using s2(5) k(2) by blast
      obtain stop s' where s': "run_calls cl fr e s2 = Some (stop, s')" "call_times cl fr e k s2 = Some (stop, s')" "live s'" "idle s' fr"
        "frames s' fr \<noteq> None" "aq_gen s' = aq_gen s2" "stop = (event_break s' \<or> event_gotsig s')" "\<forall>x. active s' x \<longrightarrow> active s2 x"
        "\<forall>q. actq s' q = filter (active s') (actq s2 q)"
        using Suc.IH [OF s2(2-4) m] go2 by blast
      have "actq s' q = filter (active s') (actq s q)" for q
        using s'(8,9) s2(9) by simp (metis (mono_tags, lifting) filter_cong)
      then show ?thesis
        using run ref go2 s' s2(6,8) by (intro exI [of _ stop] exI [of _ s']) simp
    qed
  qed
qed

lemma process_queue_ok:
  assumes cl: "gentle live cl"
    and "live s" and "idle s fr" and "frames s fr \<noteq> None" and "aq_gen s = gen"
    and "\<not> event_break s" and "\<not> event_gotsig s" and "actq s q = filter (active s) es"
  shows "\<exists>s'. call_events ops cl fr es s = Some s' \<and> process_queue ops cl fr gen q s = Some s' \<and> live s' \<and> idle s' fr \<and>
    (event_break s' \<or> event_gotsig s' \<or> actq s' q = [])"
  using assms(2-)
proof (induction es arbitrary: s)
  case Nil
  then have "tqh_first (activequeues s) q = None" using first_active [OF liveD(4) [OF Nil(1)], of q] by simp
  then show ?case using Nil by (simp add: process_queue.simps [of _ _ _ _ _ s])
next
  case (Cons e es)
  note L = liveD [OF Cons.prems(1)]
  show ?case
  proof (cases "active s e")
    case False
    then show ?thesis using Cons.IH [OF Cons.prems(1-6)] Cons.prems(7) by simp
  next
    case True
    then have q: "actq s q = e # filter (active s) es" using Cons.prems(7) by simp
    then have first: "tqh_first (activequeues s) q = Some e" using first_active [OF L(4), of q] by simp
    obtain s1 where s1: "take_active ops fr s e = Some s1" "live s1" "counting s1 fr e" "running s1 fr e"
      "frames s1 fr \<noteq> None" "aq_gen s1 = aq_gen s" "event_break s1 = event_break s" "event_gotsig s1 = event_gotsig s"
      "\<And>x. active s1 x \<longleftrightarrow> active s x \<and> x \<noteq> e" "actq s1 = (\<lambda>q. remove1 e (actq s q))"
      "frames s1 fr = Some (ev_ncalls (evs s e))"
      "taken_off ops fr e s = Some s1"
      by (rule take_active_ok [OF Cons.prems(1) True Cons.prems(3,2)]) blast
    obtain stop s2 where s2: "run_calls cl fr e s1 = Some (stop, s2)" "live s2" "idle s2 fr" "frames s2 fr \<noteq> None"
      "aq_gen s2 = aq_gen s1" "stop = (event_break s2 \<or> event_gotsig s2)" "\<forall>x. active s2 x \<longrightarrow> active s1 x"
      "\<forall>q. actq s2 q = filter (active s2) (actq s1 q)" "call_times cl fr e (unat (ev_ncalls (evs s e))) s1 = Some (stop, s2)"
      using run_calls_ok [OF cl s1(2-4,11) disjI2 [OF refl]] Cons.prems(5,6) s1(7,8) by auto
    have both: "call_events ops cl fr (e # es) s = (if stop then Some s2 else call_events ops cl fr es s2)"
      "process_queue ops cl fr gen q s = (if stop then Some s2 else process_queue ops cl fr gen q s2)"
      using True s1(1,12) s2(1,9) Cons.prems(4) first by (simp_all add: process_queue.simps [of _ _ _ _ _ s])
    show ?thesis
    proof (cases stop)
      case True
      then show ?thesis using both s2 by auto
    next
      case False
      have "actq s2 q = filter (active s2) (filter (active s) es)"
        using s2(8) by (simp add: s1(10) q)
      also have "\<dots> = filter (active s2) es"
        using s2(7) s1(9) by (auto intro: filter_cong)
      finally have rest: "actq s2 q = filter (active s2) es" .
      show ?thesis
        using Cons.IH [OF s2(2,3,4) _ _ _ rest] both False s2(5,6) s1(6) Cons.prems(4) by simp
    qed
  qed
qed

lemma most_urgent:
  assumes ok: "core_ok s" and n: "event_count_active s \<noteq> 0"
  obtains q where "find (\<lambda>i. tqh_first (activequeues s) i \<noteq> None) [0..<nat (nactivequeues s)] = Some q"
    and "actq s q \<noteq> []" and "\<forall>p<q. actq s p = []"
proof -
  have first: "tqh_first (activequeues s) i \<noteq> None \<longleftrightarrow> actq s i \<noteq> []" for i
    using first_active [OF ok, of i] by (simp split: list.splits)
  have "card {e. active s e} \<noteq> 0" using core_okD(9) [OF ok] n by simp
  then obtain e where e: "active s e" by (metis card.empty empty_Collect_eq)
  let ?i = "nat (ev_pri (evs s e))"
  have "actq s ?i \<noteq> []" using active_queue [OF ok e] by auto
  moreover have "?i < nat (nactivequeues s)" using core_okD(7) [OF ok e] by (simp add: pri_ok_def)
  ultimately have "\<exists>i<nat (nactivequeues s). actq s i \<noteq> []" by blast
  then have "find (\<lambda>i. actq s i \<noteq> []) [0..<nat (nactivequeues s)] \<noteq> None"
    by (simp add: find_None_iff)
  then obtain q where q: "find (\<lambda>i. actq s i \<noteq> []) [0..<nat (nactivequeues s)] = Some q" by blast
  then have "actq s q \<noteq> [] \<and> (\<forall>p<q. actq s p = [])"
    by (auto simp: find_Some_iff)
  then show thesis using that [of q] q by (simp only: first) blast
qed

text \<open>
  \<open>event_process_active\<close> works off the queue of the most urgent priority; the frame holds its local
  variable \<open>ncalls\<close>.
\<close>

lemma process_active_ok:
  assumes cl: "gentle live cl" and ok: "live s" and n: "event_count_active s \<noteq> 0"
    and go: "\<not> event_break s" "\<not> event_gotsig s"
  shows "\<exists>q s1. actq s q \<noteq> [] \<and> (\<forall>p<q. actq s p = []) \<and>
    call_events ops cl (next_frame s) (actq s q)
      (s\<lparr>next_frame := next_frame s + 1, frames := (frames s)(next_frame s := Some 0)\<rparr>) = Some s1 \<and>
    event_process_active ops cl s = Some (s1\<lparr>frames := (frames s1)(next_frame s := None)\<rparr>) \<and>
    live (s1\<lparr>frames := (frames s1)(next_frame s := None)\<rparr>) \<and>
    (event_break s1 \<or> event_gotsig s1 \<or> actq s1 q = []) \<and>
    live (s\<lparr>next_frame := next_frame s + 1, frames := (frames s)(next_frame s := Some 0)\<rparr>) \<and>
    idle (s\<lparr>next_frame := next_frame s + 1, frames := (frames s)(next_frame s := Some 0)\<rparr>) (next_frame s)"
proof -
  note L = liveD [OF ok]
  define fr where "fr = next_frame s"
  obtain q where q: "find (\<lambda>i. tqh_first (activequeues s) i \<noteq> None) [0..<nat (nactivequeues s)] = Some q"
    "actq s q \<noteq> []" "\<forall>p<q. actq s p = []"
    by (rule most_urgent [OF L(4) n])
  define s0 where "s0 = s\<lparr>next_frame := fr + 1, frames := (frames s)(fr := Some 0)\<rparr>"
  have q0: "queued s0 = queued s" "active s0 = active s" "actq s0 = actq s"
    by (simp_all add: s0_def fun_eq_iff queued_def flags_bit actq_def)
  have fresh: "frames s fr = None" using L(3) by (simp add: frames_ok_def fr_def)
  have "all_ready s0"
    by (rule all_ready_calls [OF L(5)]) (use ready_frame [OF L(5)] in \<open>auto simp: s0_def\<close>)
  then have "sane s0"
    by (rule sane_same [OF L(1), rotated]) (use L(4) in \<open>simp_all add: s0_def\<close>)
  moreover have "onces_ok s0" using L(2) unfolding onces_ok_def q0 by (simp add: once_event_def s0_def)
  moreover have "frames_ok s0" using L(3) by (simp add: frames_ok_def s0_def fr_def)
  ultimately have live0: "live s0" by (simp add: live_def)
  have idle0: "idle s0 fr"
    unfolding idle_def q0 using ready_frame [OF L(5), of _ fr] fresh by (auto simp: s0_def simp del: not_None_eq)
  have self: "actq s0 q = filter (active s0) (actq s q)"
    unfolding q0 using core_okD(6) [OF L(4)] by (intro filter_True [symmetric]) blast
  have "\<exists>s1. call_events ops cl fr (actq s q) s0 = Some s1 \<and> process_queue ops cl fr (aq_gen s) q s0 = Some s1 \<and> live s1 \<and>
      idle s1 fr \<and> (event_break s1 \<or> event_gotsig s1 \<or> actq s1 q = [])"
    by (rule process_queue_ok [OF cl live0 idle0 _ _ _ _ self]) (use go in \<open>simp_all add: s0_def\<close>)
  then obtain s1 where s1: "call_events ops cl fr (actq s q) s0 = Some s1" "process_queue ops cl fr (aq_gen s) q s0 = Some s1"
    "live s1" "idle s1 fr" "event_break s1 \<or> event_gotsig s1 \<or> actq s1 q = []"
    by blast
  let ?s2 = "s1\<lparr>frames := (frames s1)(fr := None)\<rparr>"
  note L1 = liveD [OF s1(3)]
  have "all_ready ?s2"
    by (rule all_ready_calls [OF L1(5)]) (use ready_frame [OF L1(5)] s1(4) in \<open>auto simp: idle_def\<close>)
  then have "sane ?s2"
    by (rule sane_same [OF L1(1), rotated]) (use L1(4) in simp_all)
  moreover have "onces_ok ?s2" using L1(2) by (simp add: onces_ok_def once_event_def queued_def)
  moreover have "frames_ok ?s2" using L1(3) by (simp add: frames_ok_def)
  ultimately have "live ?s2" by (simp add: live_def)
  moreover have "event_process_active ops cl s = Some ?s2"
    using q(1) s1(2) by (simp add: event_process_active_def Let_def fr_def s0_def)
  ultimately show ?thesis
    using q(2,3) s1(1,5) live0 idle0 by (intro exI [of _ q] exI [of _ s1]) (simp add: fr_def s0_def)
qed

text \<open>
  One round never fails: it ends the loop for a reason of the interface, or leaves a consistent state for the
  next round.
\<close>

lemma live_quiet:
  assumes ok: "live s" and sane: "sane s'" and q: "quiet s s'"
  shows "live s'"
proof -
  have Q: "onces s' = onces s" "next_frame s' = next_frame s" "\<And>p. frames s' p = None \<longleftrightarrow> frames s p = None"
    "\<And>x. queued s' x \<Longrightarrow> queued s x" "\<And>x. quiet_event (evs s x) (evs s' x)"
    using q by (auto simp: quiet_def)
  have "once_event s' x" if "once_event s x" for x
    using that Q(5) [of x] Q(1) by (auto simp: once_event_def quiet_event_def)
  then have "onces_ok s'"
    using liveD(2) [OF ok] Q(4,5) by (simp add: onces_ok_def quiet_event_def)
  moreover have "frames_ok s'" using liveD(3) [OF ok] Q(2,3) by (simp add: frames_ok_def)
  ultimately show ?thesis using sane by (simp add: live_def)
qed

lemma live_upd:
  assumes ok: "live s" and tv: "tv_ok c"
    and s': "s' = s\<lparr>tick := n, tv_cache := c, event_gotterm := g, event_break := b, event_gotsig := h, evsignal_base := eb\<rparr>"
  shows "live s'"
proof -
  have "sane s'"
    by (rule sane_upd [OF liveD(1) [OF ok] tv saneD(7) [OF liveD(1) [OF ok]], where n = n and g = g and b = b and h = h and eb = eb])
      (simp add: s')
  then show ?thesis
    using liveD(2,3) [OF ok] by (simp add: live_def onces_ok_def once_event_def frames_ok_def queued_def flags_bit s')
qed

lemma live_cache: "live s \<Longrightarrow> tv_ok (tv_cache s)"
  using saneD(5) [OF liveD(1)] by (auto simp: clock_ok_def)

lemma live_clear:
  assumes ok: "live s"
  shows "live (clear_cache s)"
proof -
  have "tv_ok (Timeval 0 (tv_usec (tv_cache s)))" using live_cache [OF ok] by (simp add: tv_ok_def)
  then show ?thesis
    by (rule live_upd [OF ok, where n = "tick s" and g = "event_gotterm s" and b = "event_break s" and h = "event_gotsig s"
        and eb = "evsignal_base s"]) (simp add: clear_cache_def)
qed

lemma loop_signals_ok:
  assumes cl: "gentle live cl" and ok: "live s" and go: "\<not> event_break s"
  shows "\<exists>early s'. loop_signals cl s = Some (early, s') \<and> live s' \<and> \<not> event_break s' \<and> \<not> event_gotsig s'"
proof (cases "event_gotsig s")
  case False
  then have "loop_signals cl s = Some (False, s)" by (simp add: loop_signals.simps [of _ s])
  then show ?thesis using ok go False by blast
next
  case True
  let ?s1 = "s\<lparr>event_gotsig := False\<rparr>"
  have ok1: "live ?s1"
    by (rule live_upd [OF ok live_cache [OF ok], where n = "tick s" and g = "event_gotterm s" and b = "event_break s" and h = False
        and eb = "evsignal_base s"]) simp
  have stop: "loop_signals cl t = Some (False, t)" if "\<not> event_gotsig t" for t
    using that by (simp add: loop_signals.simps [of _ t])
  show ?thesis
  proof (cases "event_sigcb s")
    case None
    then have "loop_signals cl s = Some (False, ?s1)" using True stop [of ?s1] by (simp add: loop_signals.simps [of _ s])
    then show ?thesis using ok1 go by (intro exI [of _ False] exI [of _ ?s1]) simp
  next
    case (Some f)
    obtain r s2 where s2: "cl_sigcb cl f ?s1 = Some (r, s2)" "live s2" "\<not> event_break s2" "\<not> event_gotsig s2"
      using gentleD(2) [OF cl ok1, of f] by auto
    then have "loop_signals cl s = Some (r = -1, s2)"
      using True Some stop [of s2] by (simp add: loop_signals.simps [of _ s] Let_def)
    then show ?thesis using s2 by blast
  qed
qed

lemma loop_round_ok:
  assumes cl: "gentle live cl" and ok: "live s"
  shows "\<exists>fin tv' s'. loop_round ops cl flags tv s = Some (fin, tv', s') \<and> live s' \<and>
    (\<forall>r. fin = Ret r \<longrightarrow> r = -1 \<or> r = 1) \<and> (fin = Brk \<longleftrightarrow> event_gotterm s \<or> event_break s)"
proof -
  consider (quit) "event_gotterm s" | (brk) "\<not> event_gotterm s" "event_break s" | (go) "\<not> event_gotterm s" "\<not> event_break s"
    by blast
  then show ?thesis
  proof cases
    case quit
    have "live (s\<lparr>event_gotterm := False\<rparr>)" by (rule live_quit [OF ok])
    with quit show ?thesis by (simp add: loop_round_def)
  next
    case brk
    have "live (s\<lparr>event_break := False\<rparr>)"
      by (rule live_upd [OF ok live_cache [OF ok], where n = "tick s" and g = "event_gotterm s" and b = False and h = "event_gotsig s"
        and eb = "evsignal_base s"]) simp
    with brk show ?thesis by (simp add: loop_round_def)
  next
    case go
    obtain early s1 where s1: "loop_signals cl s = Some (early, s1)" "live s1" "\<not> event_break s1" "\<not> event_gotsig s1"
      using loop_signals_ok [OF cl ok go(2)] by blast
    obtain ret tv' s2 where s2: "loop_wait ops flags tv s1 = Some (ret, tv', s2)" "sane s2" "quiet s1 s2"
      "ret = None \<or> ret = Some (Ret (-1)) \<or> ret = Some (Ret 1)"
      by (rule loop_wait_sane [OF liveD(1) [OF s1(2)], of flags tv]) (metis not_le)
    have live2: "live s2" by (rule live_quiet [OF s1(2) s2(2,3)])
    show ?thesis
    proof (cases "early \<or> ret \<noteq> None")
      case True
      then show ?thesis
        using go s1(1,2) s2(1,4) live2 by (cases early) (auto simp: loop_round_def)
    next
      case False
      obtain now n where now: "gettime s2 = (Some now, s2\<lparr>tick := n\<rparr>)" "tv_ok now"
        by (rule sane_gettime [OF s2(2)])
      let ?s3 = "s2\<lparr>tick := n, tv_cache := now\<rparr>"
      have live3: "live ?s3"
        by (rule live_upd [OF live2 now(2), where n = n and g = "event_gotterm s2" and b = "event_break s2" and h = "event_gotsig s2"
          and eb = "evsignal_base s2"]) simp
      obtain s4 where s4: "timeout_process ops ?s3 = Some s4" "sane s4" "dispatched ?s3 s4"
        by (rule timeout_process_sane [OF liveD(1) [OF live3]])
      have live4: "live s4" by (rule live_quiet [OF live3 s4(2) quiet_dispatched [OF s4(3)]])
      have go4: "\<not> event_break s4" "\<not> event_gotsig s4"
        using s1(3,4) s2(3) quiet_dispatched [OF s4(3)] by (simp_all add: quiet_def)
      have round: "loop_round ops cl flags tv s = (if event_count_active s4 \<noteq> 0
          then do { s5 \<leftarrow> event_process_active ops cl s4;
                    Some (Done (event_count_active s5 = 0 \<and> has flags EVLOOP_ONCE), tv', s5) }
          else Some (Done (has flags EVLOOP_NONBLOCK), tv', s4))"
        using False go s1(1) s2(1) now(1) s4(1) by (simp add: loop_round_def cong: if_cong)
      show ?thesis
      proof (cases "event_count_active s4 = 0")
        case True
        then show ?thesis using round live4 go by simp
      next
        case act: False
        obtain s5 where "event_process_active ops cl s4 = Some s5" "live s5"
          using process_active_ok [OF cl live4 act go4] by blast
        then show ?thesis using round act go by simp
      qed
    qed
  qed
qed

lemma loop_rounds_ok:
  assumes cl: "gentle live cl" and "live s"
  shows "\<exists>out. loop_rounds k ops cl flags tv s = Some out \<and>
    (case out of Inl (r, s') \<Rightarrow> live s' \<and> (r = -1 \<or> r = 0 \<or> r = 1) | Inr (tv', s') \<Rightarrow> live s')"
  using assms(2)
proof (induction k arbitrary: tv s)
  case (Suc k)
  obtain fin tv' s' where r: "loop_round ops cl flags tv s = Some (fin, tv', s')" "live s'" "\<forall>r. fin = Ret r \<longrightarrow> r = -1 \<or> r = 1"
    using loop_round_ok [OF cl Suc.prems] by blast
  show ?case
  proof (cases fin)
    case (Ret i)
    then show ?thesis using r by auto
  next
    case Brk
    then show ?thesis using r live_clear by auto
  next
    case (Done d)
    then show ?thesis using r live_clear [OF r(2)] Suc.IH [OF r(2), of tv'] by (cases d) auto
  qed
qed simp

end

end
