(* ===== verification/LoopSpec.thy ===== *)
theory LoopSpec
  imports Callbacks
begin

text \<open>
  What the event loop guarantees on the epoll backend: the wait, the callbacks, the rounds and the ways to
  end the loop.
\<close>

text \<open>The state of the library between two rounds.\<close>

definition loop_ok :: "'b epoll_world_scheme \<Rightarrow> bool" where
  "loop_ok s \<longleftrightarrow> base_ok s \<and> all_ready s \<and> clock_ok s \<and> deadlines_ok s \<and> tv_ok (event_tv s) \<and> onces_ok s \<and> frames_ok s"

lemma live_loop: "el.live = loop_ok"
  unfolding fun_eq_iff el.live_def el.sane_def loop_ok_def base_ok_def by blast

lemma loop_okD:
  assumes "loop_ok s"
  shows "base_ok s" "all_ready s" "clock_ok s" "deadlines_ok s" "tv_ok (event_tv s)" "onces_ok s" "frames_ok s"
    "core_ok s" "el.sane s"
  using assms base_okD(1) el.liveD(1) [of s] by (auto simp: loop_ok_def live_loop)

subsection \<open>Witness states\<close>

lemma demo_loop: "loop_ok demo"
proof -
  have "\<not> queued demo x" for x using demo_okD(8) [of x] by (simp add: queued_def)
  then show ?thesis
    using demo_okD(1,2,8)
    by (simp add: loop_ok_def all_ready_def deadlines_ok_def onces_ok_def frames_ok_def queued_def)
      (simp add: demo_defs tv_ok_def)
qed

text \<open>A state in which the event 7 is active for reading.\<close>

definition demo_act :: epoll_world where
  "demo_act = the (event_active demo 7 EV_READ 1)"

lemma demo_act:
  shows "event_active demo 7 EV_READ 1 = Some demo_act" and "loop_ok demo_act" and "actq demo_act 0 = [7]"
    and "event_count_active demo_act \<noteq> 0" and "\<not> event_break demo_act" and "\<not> event_gotsig demo_act"
    and "\<not> event_gotterm demo_act" and "0 < event_count demo_act"
    and "ev_base (evs demo_act 7) = Base" and "ev_pncalls (evs demo_act 7) = None" and "epoll_own demo_act = {0}"
    and "active demo_act 7" and "queued demo_act x \<longleftrightarrow> x = 7" and "ev_pncalls (evs demo_act x) = None"
    and "\<not> internal demo_act 7" and "ker demo_act = ker demo"
    and "evs demo_act = (evs demo)(7 := (evs demo 7)\<lparr>ev_res := EV_READ, ev_ncalls := 1, ev_pncalls := None,
        ev_flags := ev_flags (evs demo 7) OR EVLIST_ACTIVE\<rparr>)"
proof -
  have "pri_ok demo 7" "ev_base (evs demo 7) = Base"
    by (simp_all add: pri_ok_def demo_evs demo_event_def zero_event_def) (simp add: demo_defs)
  then obtain s where s: "event_active demo 7 EV_READ 1 = Some s" "base_ok s" "queues_only demo s"
    "inq s = []" "tmq s = []" "evs s = (evs demo)(7 := (evs demo 7)\<lparr>ev_res := EV_READ, ev_ncalls := 1, ev_pncalls := None,
        ev_flags := ev_flags (evs demo 7) OR EVLIST_ACTIVE\<rparr>)" "actq s = (actq demo)(0 := actq demo 0 @ [7])"
    using event_active_base [OF demo_okD(1), of 7 EV_READ 1] demo_okD(4,6) demo_okD(8) [of 7]
    by (auto simp: demo_okD(7) demo_evs demo_event_def zero_event_def)
  note Q = queues_onlyD [OF s(3)] and ok = base_okD(1) [OF s(2)]
  have act: "active s x \<longleftrightarrow> x = 7" "queued s x \<longleftrightarrow> x = 7" "\<not> timed s x" for x
    using demo_okD(8) [of x] demo_okD(8) [of 7] by (auto simp: queued_def flags_bit s(6))
  have dem: "nactivequeues demo = 1" "\<not> event_break demo" "\<not> event_gotsig demo" "\<not> event_gotterm demo" "frames demo = (\<lambda>_. None)"
    "tv_ok (event_tv demo)"
    by (simp_all add: demo_defs tv_ok_def)
  have "all_ready s"
    unfolding all_ready_def
  proof (intro allI impI)
    fix x assume "inserted s x \<or> timed s x \<or> active s x"
    then have "x = 7" using act(2) [of x] by (simp add: queued_def)
    then show "ready s x"
      using demo_okD(8) [of 7] by (simp add: ready_iff s(6) Q dem demo_evs demo_event_def zero_event_def)
  qed
  moreover have "clock_ok s" using demo_okD(2) clock_ok_lib [OF queues_only_lib [OF s(3)]] by simp
  moreover have "onces_ok s" by (simp add: onces_ok_def act s(6) demo_evs demo_event_def zero_event_def)
  ultimately have "loop_ok s"
    using s(2) by (simp add: loop_ok_def deadlines_ok_def act Q dem frames_ok_def)
  moreover have "event_count_active s = 1" using core_okD(9) [OF ok] by (simp add: act)
  moreover have "event_count s = 1"
  proof -
    have "inserted s x \<longleftrightarrow> False" for x using core_okD(4) [OF ok, of x] by (simp add: s(4))
    moreover have "\<not> internal s 7" by (simp add: flags_bit s(6) demo_evs demo_event_def zero_event_def demo_flags)
    then have "{e. active s e \<and> \<not> internal s e} = {7}" by (auto simp: act)
    ultimately show ?thesis using core_okD(8) [OF ok] by (simp add: counted_def act)
  qed
  moreover have "epoll_own s = {0}" using demo_okD(7) by (simp add: epoll_own_def Q)
  moreover have "\<not> event_break s" "\<not> event_gotsig s" "\<not> event_gotterm s" using dem by (simp_all add: Q)
  moreover have "s = demo_act" using s(1) by (simp add: demo_act_def)
  ultimately show "event_active demo 7 EV_READ 1 = Some demo_act" and "loop_ok demo_act" and "actq demo_act 0 = [7]"
    and "event_count_active demo_act \<noteq> 0" and "\<not> event_break demo_act" and "\<not> event_gotsig demo_act"
    and "\<not> event_gotterm demo_act" and "0 < event_count demo_act"
    and "ev_base (evs demo_act 7) = Base" and "ev_pncalls (evs demo_act 7) = None" and "epoll_own demo_act = {0}"
    and "active demo_act 7" and "queued demo_act x \<longleftrightarrow> x = 7" and "\<not> internal demo_act 7"
    using s(1,6,7) act(1,2) by (simp_all add: Q dem demo_okD(5) demo_evs demo_event_def flags_bit demo_flags)
  show "ker demo_act = ker demo" using more_sel(5) [OF queues_onlyD(17) [OF s(3)]] \<open>s = demo_act\<close> by simp
  show "evs demo_act = (evs demo)(7 := (evs demo 7)\<lparr>ev_res := EV_READ, ev_ncalls := 1, ev_pncalls := None,
        ev_flags := ev_flags (evs demo 7) OR EVLIST_ACTIVE\<rparr>)"
    using s(6) \<open>s = demo_act\<close> by simp
  show "ev_pncalls (evs demo_act x) = None"
    using s(6) \<open>s = demo_act\<close> by (auto simp: demo_defs)
qed

text \<open>A client each of whose callbacks asks the loop to end.\<close>

definition quitter :: "epoll_world client" where
  "quitter = \<lparr>cl_call = (\<lambda>_ _ _ _ s. Some (s\<lparr>event_gotterm := True\<rparr>)), cl_sigcb = (\<lambda>_ s. Some (0, s\<lparr>event_break := False\<rparr>))\<rparr>"

lemma quitter_gentle: "gentle loop_ok quitter"
proof -
  have "loop_ok (s\<lparr>event_gotterm := True\<rparr>)" if "loop_ok s" for s :: epoll_world
    using that el.live_quit [of s True] by (simp add: live_loop)
  moreover have "kept s (s\<lparr>event_gotterm := True\<rparr>)" if "loop_ok s" "\<not> event_break s" "\<not> event_gotsig s" for s :: epoll_world
    using that kept_quit loop_okD(8) by blast
  moreover have "loop_ok (s\<lparr>event_break := False\<rparr>)" if ok: "loop_ok s" for s :: epoll_world
    unfolding live_loop [symmetric]
    by (rule el.live_upd [where n = "tick s" and g = "event_gotterm s" and b = False and h = "event_gotsig s"
          and eb = "evsignal_base s" and c = "tv_cache s" and s = s])
      (use ok el.live_cache [of s] in \<open>simp_all add: live_loop\<close>)
  ultimately show ?thesis by (simp add: gentle_def quitter_def)
qed

subsection \<open>Waiting\<close>

text \<open>
  \<open>timeout_next\<close> gives the backend no limit if there is no timer, the limit 0 if the earliest deadline has passed, and
  otherwise exactly the time that is left until the earliest deadline.
\<close>

theorem timeout_next_spec:
  assumes "loop_ok s"
  shows "\<exists>tvp n. timeout_next s tv = Some (0, tvp, s\<lparr>tick := n\<rparr>) \<and>
    (if tmq s = [] then tvp = None
     else \<exists>e now t. timed s e \<and> (\<forall>x. timed s x \<longrightarrow> deadline s e \<le> deadline s x) \<and>
       (\<exists>n. fst (gettime (s\<lparr>tick := n\<rparr>)) = Some now) \<and> tvp = Some (Some t) \<and> tv_ok t \<and>
       usecs t = max 0 (usecs (deadline s e) - usecs now))"
  using timeout_next_ok [OF loop_okD(8,3,4) [OF assms]] .

theorem timeout_next_spec_witness: "\<exists>n. timeout_next demo None = Some (0, None, demo\<lparr>tick := n\<rparr>)"
  using timeout_next_spec [OF demo_loop, of None] by (auto simp: demo_okD(6))

text \<open>
  C11. \<open>timeout_correct\<close>: with a clock that can be set, a time earlier than the one of the last round moves every
  deadline back by the difference, so that the time left is the same, and the order of the heap is kept. With a
  monotonic clock nothing changes.
\<close>

theorem timeout_correct_spec:
  assumes "loop_ok s"
  shows "\<exists>tv' s'. timeout_correct s tv = Some (tv', s') \<and> loop_ok s' \<and>
    (if use_monotonic s then s' = s \<and> tv' = tv
     else \<exists>now n. fst (gettime s) = Some now \<and> tv' = Some now \<and>
       s' = s\<lparr>tick := n, event_tv := now, evs := (if event_tv s \<le> now then evs s
         else (\<lambda>x. if timed s x
           then (evs s x)\<lparr>ev_timeout := timersub (ev_timeout (evs s x)) (timersub (event_tv s) now)\<rparr>
           else evs s x))\<rparr>)"
proof -
  obtain tv' s' where c: "timeout_correct s tv = Some (tv', s')" "el.sane s'" "quiet s s'"
    using el.timeout_correct_sane [OF loop_okD(9) [OF assms], of tv] by blast
  have "loop_ok s'" using el.live_quiet [OF _ c(2,3)] assms by (simp add: live_loop)
  moreover obtain tv2 s2 where t: "timeout_correct s tv = Some (tv2, s2)"
    "if use_monotonic s then s2 = s \<and> tv2 = tv
     else \<exists>now n. fst (gettime s) = Some now \<and> tv2 = Some now \<and>
       s2 = s\<lparr>tick := n, event_tv := now, evs := (if event_tv s \<le> now then evs s
         else (\<lambda>x. if timed s x
           then (evs s x)\<lparr>ev_timeout := timersub (ev_timeout (evs s x)) (timersub (event_tv s) now)\<rparr>
           else evs s x))\<rparr>"
    using timeout_correct_ok [OF loop_okD(8,3,4,5) [OF assms], of tv] by blast
  ultimately have "loop_ok s2" using c(1) by simp
  with t show ?thesis by blast
qed

theorem timeout_correct_spec_witness:
  "\<exists>tv' s'. timeout_correct (demo\<lparr>use_monotonic := False, event_tv := Timeval 2000 0\<rparr>) None = Some (tv', s') \<and> event_tv s' = Timeval 1000 0"
proof -
  let ?s = "demo\<lparr>use_monotonic := False, event_tv := Timeval 2000 0\<rparr>"
  have "el.sane ?s"
  proof (rule el.sane_same)
    show "el.sane (demo\<lparr>event_tv := Timeval 2000 0\<rparr>)"
      by (rule el.sane_upd [OF loop_okD(9) [OF demo_loop], where n = "tick demo" and c = "tv_cache demo" and t = "Timeval 2000 0"
            and g = "event_gotterm demo" and b = "event_break demo" and h = "event_gotsig demo" and eb = "evsignal_base demo"])
        (simp_all add: tv_ok_def demo_defs)
    show "core_ok ?s" using core_ok_cong [of ?s demo] loop_okD(8) [OF demo_loop] by simp
    show "all_ready ?s" using loop_okD(2) [OF demo_loop] by (simp add: all_ready_def flags_bit ready_iff)
  qed simp_all
  then have "loop_ok ?s"
    using loop_okD(6,7) [OF demo_loop]
    by (simp add: el.live_def onces_ok_def once_event_def frames_ok_def queued_def flags_bit flip: live_loop)
  then show ?thesis
    using timeout_correct_spec [of ?s None] by (auto simp: gettime_def clock_now_def demo_defs)
qed

text \<open>
  C10. The part of a round from the computation of the timeout to the return of the backend never fails and keeps
  the state consistent, whatever the kernel reports. It ends the loop with 1 exactly if no event of the user is
  registered or active, and then without a system call to wait. Otherwise it waits once, no longer than the limit of the round allows (none
  without a timer, 0 if an event is active or the loop must not block, with a monotonic clock what is left until the earliest deadline), and ends the loop with -1
  exactly if that \<open>epoll_wait\<close> failed for another reason than a signal.
\<close>

theorem loop_wait_spec:
  assumes "loop_ok s"
  shows "\<exists>ret tv' s'. loop_wait ops flags tv s = Some (ret, tv', s') \<and> loop_ok s' \<and> quiet s s' \<and>
    (if event_count s \<le> 0 then ret = Some (Ret 1) \<and> ker s' = ker s
     else \<exists>lim. wait_limit flags s lim \<and>
       ret = (if snd (k_wait (ker s) (k_tick (ker s)) (epoll_timeout lim)) = WaitFail False then Some (Ret (-1)) else None))"
proof -
  obtain ret tv' s' where w: "loop_wait ops flags tv s = Some (ret, tv', s')" "el.sane s'" "quiet s s'"
    "event_count s \<le> 0 \<longrightarrow> ret = Some (Ret 1) \<and> event_core.more s' = event_core.more s"
    "0 < event_count s \<longrightarrow> (\<exists>lim s3 r. el.sane s3 \<and> event_core.more s3 = event_core.more s \<and> wait_limit flags s lim \<and>
      op_dispatch ops lim s3 = Some (r, s') \<and> ret = (if r = -1 then Some (Ret (-1)) else None))"
    by (rule el.loop_wait_sane [OF loop_okD(9) [OF assms], where flags = flags and tv = tv and n = 0]) blast
  have ok: "loop_ok s'" using el.live_quiet [OF _ w(2,3)] assms by (simp add: live_loop)
  show ?thesis
  proof (cases "event_count s \<le> 0")
    case True
    then show ?thesis using w(1,3,4) ok more_sel(5) [of s' s] by auto
  next
    case False
    then obtain lim s3 r where l: "el.sane s3" "event_core.more s3 = event_core.more s" "wait_limit flags s lim"
      "op_dispatch ops lim s3 = Some (r, s')" "ret = (if r = -1 then Some (Ret (-1)) else None)"
      using w(5) by auto
    have "base_ok s3" "all_ready s3" using el.saneD [OF l(1)] by (simp_all add: base_ok_def)
    then have "r = (if snd (k_wait (ker s3) (k_tick (ker s3)) (epoll_timeout lim)) = WaitFail False then -1 else 0)"
      using epoll_dispatch_ok [of s3 0 lim] l(4) by auto
    moreover have "ker s3 = ker s" by (rule more_sel(5) [OF l(2)])
    ultimately have "ret = (if snd (k_wait (ker s) (k_tick (ker s)) (epoll_timeout lim)) = WaitFail False then Some (Ret (-1)) else None)"
      using l(5) by simp
    then show ?thesis using w(1,3) ok False l(3) by auto
  qed
qed

theorem loop_wait_spec_witness:
  "(\<exists>tv' s'. loop_wait ops 0 None demo = Some (Some (Ret 1), tv', s')) \<and>
   (\<exists>tv' s'. loop_wait ops 0 None demo_act = Some (None, tv', s') \<and> loop_ok s')"
proof -
  have "event_count demo \<le> 0" by (simp add: demo_defs)
  moreover have "snd (k_wait (ker demo_act) t m) \<noteq> WaitFail False" for t m
    using demo_act(16) by (simp add: demo_defs)
  ultimately show ?thesis
    using loop_wait_spec [OF demo_loop, of 0 None] loop_wait_spec [OF demo_act(2), of 0 None] demo_act(8) by auto
qed

text \<open>
  C9. \<open>epoll_dispatch\<close> returns on every consistent base, whatever signals and reports the kernel delivers, -1 exactly if \<open>epoll_wait\<close> failed for
  another reason than a signal and 0 otherwise: it never reads or writes outside the table, keeps every invariant, and changes the library's events only by activating
  or (one-shot signal events) deleting registered ones.
\<close>

theorem epoll_dispatch_spec:
  assumes "base_ok s" and "all_ready s"
  shows "\<exists>r s'. epoll_dispatch (epollops (Suc (Suc l))) s tv = Some (r, s') \<and>
    r = (if snd (k_wait (ker s) (k_tick (ker s)) (epoll_timeout tv)) = WaitFail False then -1 else 0) \<and> base_ok s' \<and>
    all_ready s' \<and> dispatched s s'"
  using epoll_dispatch_ok [OF assms] .

theorem epoll_dispatch_spec_witness:
  "\<exists>r s'. epoll_dispatch (epollops (Suc (Suc 0))) demo_act None = Some (r, s') \<and> r = 0 \<and> base_ok s'"
  using epoll_dispatch_spec [OF loop_okD(1,2) [OF demo_act(2)], of 0 None] demo_act(16) by (auto simp: demo_defs)

subsection \<open>The callbacks\<close>

text \<open>
  C12. Deleting an event from a callback keeps the contract the loop expects of its client: if no calls of the event are
  outstanding, \<open>event_del\<close> leaves the base consistent, activates nothing, and touches no counter of remaining calls.
\<close>

theorem callback_may_delete:
  assumes ok: "loop_ok s" and e: "ev_base (evs s e) = Base" "e \<notin> epoll_own s"
    and calls: "ev_pncalls (evs s e) = None \<or> ev_ncalls (evs s e) = 0" and go: "\<not> event_break s" "\<not> event_gotsig s"
  shows "\<exists>r s'. event_del ops s e = Some (r, s') \<and> loop_ok s' \<and> kept s s' \<and> \<not> queued s' e"
proof -
  note L = loop_okD [OF ok]
  have safe: "clear_ncalls s e \<noteq> None" using calls by (auto simp: clear_ncalls_safe simp del: not_None_eq)
  obtain r s' where s': "event_del ops s e = Some (r, s')" "core_ok s'" "epoll_inv s' {x. inserted s' x}"
    "epoll_own s' = epoll_own s" "deleted s e s'"
    by (rule ep.event_del_backend [OF base_okD(1,2) [OF L(1)] e(1) safe])
  have D: "lib_frame s s'" "evs s' = with_flags e (off_queues (ev_flags (evs s e))) s"
    "actq s' = (\<lambda>p. remove1 e (actq s p))" "frames s' = frames s"
    using s'(5) calls by (simp_all add: deleted_def)
  note F = lib_frameD [OF D(1)]
  have off: "active s' x \<longleftrightarrow> active s x \<and> x \<noteq> e" "timed s' x \<longleftrightarrow> timed s x \<and> x \<noteq> e" "queued s' x \<longleftrightarrow> queued s x \<and> x \<noteq> e" for x
    by (auto simp: flags_bit queued_def D(2) with_flags_def)
  have "evs s' x = evs s x" if "x \<in> epoll_own s" for x
    using that e(2) by (auto simp: D(2) with_flags_def)
  then have "own_ok (epoll_own s) s'"
    using base_okD(3) [OF L(1)] ep.own_ok_cong [of "epoll_own s" s' s] by simp
  then have base: "base_ok s'" using s' by (simp add: base_ok_def)
  have "all_ready s'"
    unfolding all_ready_def
  proof (intro allI impI)
    fix x assume "inserted s' x \<or> timed s' x \<or> active s' x"
    then have x: "queued s x" "x \<noteq> e" using off(3) [of x] by (auto simp: queued_def)
    then have "ready s x" using all_readyD [OF L(2)] by (simp add: queued_def)
    then show "ready s' x" using x(2) ready_cong [of s' x s] D(1,2) by (simp add: with_flags_def)
  qed
  moreover have "clock_ok s'" using L(3) clock_ok_lib [OF D(1)] by simp
  moreover have "deadlines_ok s'" using L(4) by (auto simp: deadlines_ok_def off deadline_def D(2) with_flags_def)
  moreover have "onces_ok s'" using L(6) by (auto simp: onces_ok_def off once_event_def D(2) F(12) with_flags_def)
  moreover have "frames_ok s'" using L(7) by (simp add: frames_ok_def D(4) F(11))
  ultimately have "loop_ok s'" using base L(5) F(4) by (simp add: loop_ok_def)
  moreover have "actq s' q = filter (active s') (actq s q)" for q
  proof -
    have "active s x" if "x \<in> set (actq s q)" for x using core_okD(6) [OF L(8)] that by blast
    then have "filter (active s') (actq s q) = filter (\<lambda>x. x \<noteq> e) (actq s q)"
      by (intro filter_cong) (simp_all add: off)
    then show ?thesis
      using actq_distinct [OF L(8), of q] by (simp add: D(3) distinct_remove1_removeAll removeAll_filter_not_eq)
        (metis (mono_tags, lifting))
  qed
  then have "called s s'"
    using go off by (auto simp: called_def F D(4)) (auto simp: D(2) with_flags_def split: if_splits)
  then have "kept s s'" using off(3) by (simp add: kept_def F)
  ultimately show ?thesis using s'(1) off(3) by blast
qed

theorem callback_may_delete_witness:
  "\<exists>r s'. event_del ops demo_act 7 = Some (r, s') \<and> loop_ok s' \<and> kept demo_act s'"
  using callback_may_delete [OF demo_act(2,9) _ _ demo_act(5,6)] demo_act(10,11) by auto

subsection \<open>The rounds\<close>

text \<open>The state in which \<open>event_base_loop\<close> enters its loop.\<close>

definition loop_start :: "'a event_core_scheme \<Rightarrow> 'a event_core_scheme" where
  "loop_start s = (if ev_signal_added (sig s) then (clear_cache s)\<lparr>evsignal_base := Base\<rparr> else clear_cache s)"

lemma event_base_loop_start: "event_base_loop evsel cl s Base flags = loop_run evsel cl flags None (loop_start s)"
proof -
  have "ev_signal_added (sig (clear_cache s)) = ev_signal_added (sig s)" by (simp add: clear_cache_def)
  then show ?thesis by (simp add: event_base_loop_def loop_start_def Let_def)
qed

lemma loop_ok_start:
  assumes "loop_ok s"
  shows "loop_ok (loop_start s)"
proof -
  have c: "loop_ok (clear_cache s)" using el.live_clear [of s] assms by (simp add: live_loop)
  have "loop_ok ((clear_cache s)\<lparr>evsignal_base := Base\<rparr>)"
    unfolding live_loop [symmetric]
    by (rule el.live_upd [where s = "clear_cache s" and n = "tick (clear_cache s)" and g = "event_gotterm (clear_cache s)"
          and b = "event_break (clear_cache s)" and h = "event_gotsig (clear_cache s)" and eb = Base and c = "tv_cache (clear_cache s)"])
      (use c el.live_cache [of "clear_cache s"] in \<open>simp_all add: live_loop\<close>)
  then show ?thesis using c by (simp add: loop_start_def)
qed

text \<open>
  C6. The loop is never stuck: for a client that keeps its contract, after any number of rounds on any system the loop has either
  returned 0, 1 or -1, which is then the result of \<open>event_base_loop\<close>, or stands before the next round in a consistent state. No
  round fails, hits an assertion, or uses a dangling pointer.
\<close>

theorem loop_never_stuck:
  assumes "gentle loop_ok cl" and "loop_ok s"
  shows "\<exists>out. loop_rounds k ops cl flags None (loop_start s) = Some out \<and>
    (case out of
       Inl (r, s') \<Rightarrow> event_base_loop ops cl s Base flags = Some (r, s') \<and> loop_ok s' \<and> (r = -1 \<or> r = 0 \<or> r = 1)
     | Inr (tv', s') \<Rightarrow> loop_ok s')"
proof -
  obtain out where out: "loop_rounds k ops cl flags None (loop_start s) = Some out"
    "case out of Inl (r, s') \<Rightarrow> loop_ok s' \<and> (r = -1 \<or> r = 0 \<or> r = 1) | Inr (tv', s') \<Rightarrow> loop_ok s'"
    using el.loop_rounds_ok [of cl "loop_start s" k 0 flags None] assms(1) loop_ok_start [OF assms(2)]
    unfolding live_loop by blast
  then show ?thesis
    using loop_rounds_run [of k ops cl flags None "loop_start s"]
    by (intro exI [of _ out]) (auto simp: event_base_loop_start split: sum.splits)
qed

theorem loop_never_stuck_witness:
  "\<exists>out. loop_rounds 5 ops quitter 0 None (loop_start demo_act) = Some out \<and>
    (case out of
       Inl (r, s') \<Rightarrow> event_base_loop ops quitter demo_act Base 0 = Some (r, s') \<and> loop_ok s' \<and> (r = -1 \<or> r = 0 \<or> r = 1)
     | Inr (tv', s') \<Rightarrow> loop_ok s')"
  by (rule loop_never_stuck [OF quitter_gentle demo_act(2)])

text \<open>
  C13. \<open>event_loopbreak\<close> ends the loop: the next test of the loop returns 0 and consumes the request, before any wait and any
  callback, for any client and backend; a pending \<open>event_loopexit\<close> is consumed first.
\<close>

theorem loopbreak_ends_loop:
  "event_base_loop evsel cl (snd (event_base_loopbreak s Base)) Base flags =
    Some (0, if event_gotterm s then (loop_start s)\<lparr>event_break := True, event_gotterm := False\<rparr>
             else (loop_start s)\<lparr>event_break := False\<rparr>)"
proof -
  have start: "loop_start (s\<lparr>event_break := True\<rparr>) = (loop_start s)\<lparr>event_break := True\<rparr>"
    by (simp add: loop_start_def clear_cache_def)
  have "event_gotterm (loop_start s) = event_gotterm s" by (simp add: loop_start_def clear_cache_def)
  then have "loop_round evsel cl flags None ((loop_start s)\<lparr>event_break := True\<rparr>) =
      Some (Brk, None, if event_gotterm s then (loop_start s)\<lparr>event_break := True, event_gotterm := False\<rparr>
        else (loop_start s)\<lparr>event_break := False\<rparr>)"
    by (simp add: loop_round_def)
  moreover have "clear_cache ((loop_start s)\<lparr>event_break := b, event_gotterm := g\<rparr>) = (loop_start s)\<lparr>event_break := b, event_gotterm := g\<rparr>"
    "clear_cache ((loop_start s)\<lparr>event_break := b\<rparr>) = (loop_start s)\<lparr>event_break := b\<rparr>" for b g
    by (simp_all add: loop_start_def clear_cache_def)
  ultimately show ?thesis
    by (simp add: event_base_loopbreak_def event_base_loop_start start loop_run.simps [of _ _ _ _ "(loop_start s)\<lparr>event_break := True\<rparr>"])
qed

text \<open>
  C14. With no event of the user registered or active, and no request to leave pending, the loop returns 1 at once, having called
  nothing: neither a callback nor the backend.
\<close>

theorem loop_without_events:
  assumes ok: "loop_ok s" and none: "event_count s \<le> 0" and go: "\<not> event_gotterm s" "\<not> event_break s" "\<not> event_gotsig s"
  shows "\<exists>s'. event_base_loop ops cl s Base flags = Some (1, s') \<and> loop_ok s' \<and> ker s' = ker s"
proof -
  let ?s = "loop_start s"
  have sel: "event_gotterm ?s = event_gotterm s" "event_break ?s = event_break s" "event_gotsig ?s = event_gotsig s"
    "event_count ?s = event_count s" "ker ?s = ker s"
    by (simp_all add: loop_start_def clear_cache_def)
  have ok': "loop_ok ?s" by (rule loop_ok_start [OF ok])
  obtain tv1 s1 where s1: "timeout_correct ?s None = Some (tv1, s1)" "el.sane s1" "event_count s1 = event_count ?s" "quiet ?s s1"
    using el.timeout_correct_sane [OF loop_okD(9) [OF ok'], of None] by blast
  have ok1: "loop_ok s1" using el.live_quiet [OF _ s1(2,4)] ok' by (simp add: live_loop)
  have k1: "ker s1 = ker ?s"
    using timeout_correct_ok [OF loop_okD(8,3,4,5) [OF ok'], of None] s1(1) by (auto split: if_splits)
  obtain tvp n where s2: "(if event_count_active s1 = 0 \<and> \<not> has flags EVLOOP_NONBLOCK
      then do { (r, tvp, s') \<leftarrow> timeout_next s1 tv1; Some (tvp, s') }
      else Some (Some (Some timerclear), s1)) = Some (tvp, s1\<lparr>tick := n\<rparr>)"
  proof (cases "event_count_active s1 = 0 \<and> \<not> has flags EVLOOP_NONBLOCK")
    case True
    then show thesis using that timeout_next_ok [OF loop_okD(8,3,4) [OF ok1], of tv1] by auto
  next
    case False
    have "s1 = s1\<lparr>tick := tick s1\<rparr>" by simp
    then show thesis using that [of "Some (Some timerclear)" "tick s1"] False by simp
  qed
  have "loop_wait ops flags None ?s = Some (Some (Ret 1), case tvp of None \<Rightarrow> tv1 | Some c \<Rightarrow> c, s1\<lparr>tick := n\<rparr>)"
    using s1(1,3) s2 none by (simp add: loop_wait_def event_haveevents_def sel)
  moreover have "loop_signals cl ?s = Some (False, ?s)" using go sel by (simp add: loop_signals.simps [of _ ?s])
  ultimately have "loop_round ops cl flags None ?s =
      Some (Ret 1, case tvp of None \<Rightarrow> tv1 | Some c \<Rightarrow> c, s1\<lparr>tick := n\<rparr>)"
    using go by (simp add: loop_round_def sel)
  then have "event_base_loop ops cl s Base flags = Some (1, s1\<lparr>tick := n\<rparr>)"
    by (simp add: event_base_loop_start loop_run.simps [of _ _ _ _ ?s])
  moreover have "loop_ok (s1\<lparr>tick := n\<rparr>)"
    unfolding live_loop [symmetric]
    by (rule el.live_upd [where s = s1 and n = n and g = "event_gotterm s1" and b = "event_break s1" and h = "event_gotsig s1"
          and eb = "evsignal_base s1" and c = "tv_cache s1"])
      (use ok1 el.live_cache [of s1] in \<open>simp_all add: live_loop\<close>)
  ultimately show ?thesis using k1 sel by simp
qed

theorem loop_without_events_witness: "\<exists>s'. event_base_loop ops quitter demo Base 0 = Some (1, s') \<and> loop_ok s'"
proof -
  have "event_count demo \<le> 0" "\<not> event_gotterm demo" "\<not> event_break demo" "\<not> event_gotsig demo"
    by (simp_all add: demo_defs)
  then show ?thesis using loop_without_events [OF demo_loop, of quitter 0] by blast
qed

end
