(* ===== verification/Base.thy ===== *)
theory Base
  imports LoopSpec
begin

text \<open>
  The life of a base: \<open>event_base_new\<close> and \<open>event_init\<close>, \<open>event_base_free\<close>, \<open>event_reinit\<close> of \<open>event.cpp\<close>.
\<close>

subsection \<open>Making a base\<close>

text \<open>
  \<open>calloc\<close> clears the base. A failed allocation is only logged, and the code goes on to write through the null
  pointer; so \<open>event_base_new\<close> returns only if every allocation of its own succeeds. The first component of the result says whether
  \<open>evbase\<close> is not null. The lists of the model that no code has allocated are those of the state before.
\<close>

definition zero_base :: "'a event_core_scheme \<Rightarrow> 'a event_core_scheme" where
  "zero_base s = s\<lparr>event_count := 0, event_count_active := 0, event_gotterm := False, event_break := False,
     nactivequeues := 0, event_tv := Timeval 0 0, tv_cache := Timeval 0 0\<rparr>"

definition zero_sig :: "evsignal_info \<Rightarrow> evsignal_info" where
  "zero_sig g = g\<lparr>ev_signal := None, ev_signal_added := False, ev_signal_pair := (-1, -1), evsignal_caught := False,
     evsigcaught := (\<lambda>_. 0), evsig_lists := False, sh_old := [], sh_old_max := 0\<rparr>"

text \<open>\<open>detect_monotonic(); gettime(base, &base->event_tv);\<close>\<close>

definition start_clock :: "'a event_core_scheme \<Rightarrow> 'a event_core_scheme" where
  "start_clock s =
     (case gettime (detect_monotonic s) of
        (None, s1) \<Rightarrow> s1
      | (Some now, s1) \<Rightarrow> s1\<lparr>event_tv := now\<rparr>)"

definition event_base_new ::
  "('a event_core_scheme) eventop \<Rightarrow> 'a event_core_scheme \<Rightarrow> (bool \<times> 'a event_core_scheme) option" where
  "event_base_new evsel s =
     (if \<not> os_alloc (os s) (tick s) 104 then None
      else
        let s4 = start_clock ((zero_base s)\<lparr>tick := tick s + 1, event_sigcb := None, event_gotsig := False\<rparr>)
        in if \<not> os_alloc (os s4) (tick s4) 16 \<or> \<not> os_alloc (os s4) (tick s4 + 1) 16 \<or>
              \<not> os_alloc (os s4) (tick s4 + 2) 824 then None
           else do {
             let s5 = s4\<lparr>tick := tick s4 + 3, timeheap := min_heap_ctor (timeheap s4),
                         eventqueue := tailq_init () (eventqueue s4), sig := zero_sig (sig s4)\<rparr>;
             (ok, s6) \<leftarrow> op_init evsel s5;
             (r, s7) \<leftarrow> event_base_priority_init s6 1;
             Some (ok, s7) })"

definition event_init ::
  "('a event_core_scheme) eventop \<Rightarrow> 'a event_core_scheme \<Rightarrow> (bool \<times> 'a event_core_scheme) option" where
  "event_init evsel s =
     do { (ok, s1) \<leftarrow> event_base_new evsel s; Some (ok, s1\<lparr>current_base := Base\<rparr>) }"

definition event_priority_init :: "'a event_core_scheme \<Rightarrow> int \<Rightarrow> (int \<times> 'a event_core_scheme) option" where
  "event_priority_init s npri =
     (if current_base s = NullBase then None else event_base_priority_init s npri)"

subsection \<open>Freeing a base\<close>

text \<open>The loop over a list of events, with the link to the next read before the event is deleted.\<close>

partial_function (option) free_list ::
  "('a event_core_scheme) eventop \<Rightarrow> ('a event_core_scheme \<Rightarrow> eid \<Rightarrow> eid option) \<Rightarrow> eid option \<Rightarrow>
     'a event_core_scheme \<Rightarrow> 'a event_core_scheme option" where
  "free_list evsel nxt ev s =
     (case ev of
        None \<Rightarrow> Some s
      | Some e \<Rightarrow>
          do { let next = nxt s e;
               s1 \<leftarrow> (if has (ev_flags (evs s e)) EVLIST_INTERNAL then Some s
                       else do { (r, s') \<leftarrow> event_del evsel s e; Some s' });
               free_list evsel nxt next s1 })"

partial_function (option) free_timers ::
  "('a event_core_scheme) eventop \<Rightarrow> 'a event_core_scheme \<Rightarrow> 'a event_core_scheme option" where
  "free_timers evsel s =
     do { top \<leftarrow> min_heap_top (timeheap s);
          case top of
            None \<Rightarrow> Some s
          | Some e \<Rightarrow> do { (r, s1) \<leftarrow> event_del evsel s e; free_timers evsel s1 } }"

fun free_actives ::
  "('a event_core_scheme) eventop \<Rightarrow> nat list \<Rightarrow> 'a event_core_scheme \<Rightarrow> 'a event_core_scheme option" where
  "free_actives evsel [] s = Some s"
| "free_actives evsel (i # is) s =
     do { s1 \<leftarrow> free_list evsel (\<lambda>s. tqe_next (activequeues s)) (tqh_first (activequeues s) i) s;
          free_actives evsel is s1 }"

text \<open>The memory of the base is released at the end; the three assertions are about what it then holds.\<close>

definition event_base_free ::
  "('a event_core_scheme) eventop \<Rightarrow> 'a event_core_scheme \<Rightarrow> base_ptr \<Rightarrow> 'a event_core_scheme option" where
  "event_base_free evsel s base =
     (let base' = (if base = NullBase \<and> current_base s \<noteq> NullBase then current_base s else base);
          s0 = (if base' = current_base s then s\<lparr>current_base := NullBase\<rparr> else s)
      in if base' = NullBase then None
         else do {
           s1 \<leftarrow> free_list evsel (\<lambda>s. tqe_next (eventqueue s)) (tqh_first (eventqueue s0) ()) s0;
           s2 \<leftarrow> free_timers evsel s1;
           s3 \<leftarrow> free_actives evsel [0..<nat (nactivequeues s2)] s2;
           s4 \<leftarrow> op_dealloc evsel s3;
           if list_ex (\<lambda>i. tqh_first (activequeues s4) i \<noteq> None) [0..<nat (nactivequeues s4)] \<or>
              \<not> min_heap_empty (timeheap s4) \<or> tqh_first (eventqueue s4) () \<noteq> None then None
           else Some (s4\<lparr>aq_gen := aq_gen s4 + 1\<rparr>) })"

subsection \<open>Starting the backend again\<close>

text \<open>The loop of \<open>event_reinit\<close> over the inserted events.\<close>

partial_function (option) readd ::
  "('a event_core_scheme) eventop \<Rightarrow> eid option \<Rightarrow> int \<Rightarrow> 'a event_core_scheme \<Rightarrow> (int \<times> 'a event_core_scheme) option" where
  "readd evsel ev res s =
     (case ev of
        None \<Rightarrow> Some (res, s)
      | Some e \<Rightarrow>
          do { (r, s1) \<leftarrow> op_add evsel e s;
               readd evsel (tqe_next (eventqueue s1) e) (if r = -1 then -1 else res) s1 })"

definition event_reinit ::
  "('a event_core_scheme) eventop \<Rightarrow> 'a event_core_scheme \<Rightarrow> (int \<times> 'a event_core_scheme) option" where
  "event_reinit evsel s =
     (if \<not> op_need_reinit evsel then Some (0, s)
      else do {
        s1 \<leftarrow> (if ev_signal_added (sig s)
                then do { es \<leftarrow> ev_signal (sig s);
                          s' \<leftarrow> event_queue_remove s es EVLIST_INSERTED;
                          s'' \<leftarrow> (if has (ev_flags (evs s' es)) EVLIST_ACTIVE
                                   then event_queue_remove s' es EVLIST_ACTIVE else Some s');
                          Some (s''\<lparr>sig := (sig s'')\<lparr>ev_signal_added := False\<rparr>\<rparr>) }
                else Some s);
        s2 \<leftarrow> op_dealloc evsel s1;
        (ok, s3) \<leftarrow> op_init evsel s2;
        readd evsel (tqh_first (eventqueue s3) ()) 0 s3 })"

text \<open>
  If the backend could not be set up, the code goes on with a null \<open>evbase\<close>. The state then is the one \<open>epoll_dealloc\<close> leaves, a
  table of no entries, on which adding an event of a descriptor is undefined; events of signals do not need the table.
\<close>

lemma grow_nfds_zero: "grow_nfds n mx = Some m \<Longrightarrow> \<not> (n = 0 \<and> 0 \<le> mx)"
proof (induction rule: grow_nfds.raw_induct [rotated, consumes 1, case_names step])
  case (step f n mx m)
  then show ?case by (auto split: if_splits)
qed

lemma epoll_add_null_table:
  assumes "ep_nfds s = 0" and "ep_fds s = []"
  shows "epoll_add_fd s e = None"
proof -
  have "grow_nfds 0 mx = None" if "0 \<le> mx" for mx using grow_nfds_zero [of 0 mx] that by (cases "grow_nfds 0 mx") auto
  then show ?thesis using assms by (simp add: epoll_add_fd_def epoll_recalc_def Let_def)
qed

subsection \<open>A new base is consistent\<close>

text \<open>
  A process that has not used the library: no event registered, no call in progress; nothing is assumed of the memory of the
  lists that a new base will hold. In the model a list exists for every index; \<open>unallocated\<close> fixes the ones beyond the arrays
  that the code allocates (one queue of active events, \<open>NSIG\<close> lists of signals), which no pointer of the code reaches. The system's
  clocks and calls work; only the allocation of a \<open>struct evbuffer\<close>, of 56 bytes, may fail.
\<close>

definition blank_on :: "'q set \<Rightarrow> 'q tailqs \<Rightarrow> bool" where
  "blank_on Q t \<longleftrightarrow> (\<forall>q\<in>Q. tqh_first t q = None \<and> tqh_last t q = Head q)"

abbreviation blank :: "'q tailqs \<Rightarrow> bool" where
  "blank \<equiv> blank_on UNIV"

definition unallocated :: "nat \<Rightarrow> nat tailqs \<Rightarrow> bool" where
  "unallocated n t \<longleftrightarrow> blank_on {n..} t"

definition fresh_process :: "'b epoll_world_scheme \<Rightarrow> bool" where
  "fresh_process s \<longleftrightarrow> (\<forall>e. \<not> queued s e \<and> flags_ok (ev_flags (evs s e))) \<and> unallocated 1 (activequeues s) \<and>
     unallocated NSIG (evsigevents (sig s)) \<and> frames_ok s \<and> current_base s = NullBase"

definition willing_system :: "'b epoll_world_scheme \<Rightarrow> bool" where
  "willing_system s \<longleftrightarrow>
     (\<forall>t n. n \<noteq> 56 \<longrightarrow> os_alloc (os s) t n) \<and> (\<forall>t. os_calloc (os s) t \<noteq> None) \<and>
     (\<forall>n. \<exists>sec nsec. os_monotonic (os s) n = Some (sec, nsec) \<and> 0 \<le> nsec \<and> nsec < 1000000000) \<and>
     (\<forall>n. \<exists>t. os_realtime (os s) n = Some t \<and> tv_ok t) \<and>
     (\<forall>t. k_create (ker s) t \<noteq> None) \<and>
     (\<forall>t. \<exists>a b. k_pair (ker s) t = Some (a, b) \<and> 0 \<le> b \<and> b < 2 ^ 30) \<and> signals_valid (ker s)"

lemma fold_tailq_init:
  "tqh_first (fold tailq_init qs t) q = (if q \<in> set qs then None else tqh_first t q)"
  "tqh_last (fold tailq_init qs t) q = (if q \<in> set qs then Head q else tqh_last t q)"
  by (induction qs arbitrary: t) (auto simp: tailq_init_def)

lemma blank_ok: "blank t \<Longrightarrow> tailqs_ok t" "blank t \<Longrightarrow> tq_list t q = []"
  using tailqs_ok_init [of t] by (auto simp: blank_on_def)

lemma blank_init: "unallocated n t \<Longrightarrow> blank (fold tailq_init [0..<n] t)"
  by (simp add: blank_on_def unallocated_def fold_tailq_init)

text \<open>What the parts of \<open>event_base_new\<close> compute on such a process.\<close>

lemma new_base_clock:
  assumes w: "willing_system s" and s1: "tv_cache s1 = Timeval 0 0" "os s1 = os s"
  obtains m now n where "start_clock s1 = s1\<lparr>use_monotonic := m, event_tv := now, tick := n\<rparr>" and "tv_ok now"
proof -
  define s2 where "s2 = detect_monotonic s1"
  obtain sec nsec where mono: "os_monotonic (os s1) (tick s1) = Some (sec, nsec)"
    using w unfolding willing_system_def s1(2) by blast
  have s2: "s2 = s1\<lparr>tick := tick s1 + 1, use_monotonic := True\<rparr>"
    using mono by (simp add: s2_def detect_monotonic_def)
  have "clock_ok s2" using w s1 by (simp add: s2 clock_ok_def willing_system_def tv_ok_def)
  then obtain now n where now: "gettime s2 = (Some now, s2\<lparr>tick := n\<rparr>)" "tv_ok now" by (rule gettime_ok)
  have "start_clock s1 = s1\<lparr>use_monotonic := True, event_tv := now, tick := n\<rparr>"
    using now(1) unfolding start_clock_def s2_def [symmetric] by (simp add: s2)
  then show thesis using that now(2) by blast
qed

definition signal_event :: "eid \<Rightarrow> int \<Rightarrow> event" where
  "signal_event es fd = zero_event\<lparr>ev_base := Base, ev_callback := EvsignalCb, ev_arg := es, ev_fd := fd,
     ev_events := EV_READ OR EV_PERSIST, ev_flags := EVLIST_INIT OR EVLIST_INTERNAL\<rparr>"

lemma epoll_init_ok:
  assumes w: "willing_system s" and cb: "current_base s = NullBase"
  obtains es ep a b k where "epoll_init s = Some (True, s\<lparr>ker := k, tick := tick s + 4 + NSIG, ep_epfd := ep, ep_nevents := 32,
      ep_fds := replicate 32 no_events, ep_nfds := 32, evs := (evs s)(es := signal_event es b),
      timeheap := min_heap_elem_init (timeheap s) es,
      sig := (sig s)\<lparr>ev_signal := Some es, ev_signal_pair := (a, b), sh_old := [], sh_old_max := 0, evsignal_caught := False,
        evsigcaught := (\<lambda>_. 0), evsigevents := fold tailq_init [0..<NSIG] (evsigevents (sig s)), evsig_lists := True\<rparr>\<rparr>)"
    and "k_interest k = (\<lambda>_. None)" and "k_env k = k_env (ker s)" and "0 \<le> b" and "b < 2 ^ 30"
    and "os_calloc (os s) (tick s + 3) = Some es"
proof -
  have alloc: "os_alloc (os s) t n" if "n \<noteq> 56" for t n using w that by (simp add: willing_system_def)
  obtain ep where ep: "k_create (ker s) (k_tick (ker s)) = Some ep" using w unfolding willing_system_def by blast
  obtain es where es: "os_calloc (os s) (tick s + 3) = Some es" using w unfolding willing_system_def by blast
  obtain a b where ab: "k_pair (ker s) (k_tick (ker s) + 1) = Some (a, b)" "0 \<le> b" "b < 2 ^ 30"
    using w unfolding willing_system_def by blast
  define k where "k = (ker s)\<lparr>k_tick := k_tick (ker s) + 2, k_interest := (\<lambda>_. None)\<rparr>"
  have "epoll_init s = Some (True, s\<lparr>ker := k, tick := tick s + 4 + NSIG, ep_epfd := ep, ep_nevents := 32,
      ep_fds := replicate 32 no_events, ep_nfds := 32, evs := (evs s)(es := signal_event es b),
      timeheap := min_heap_elem_init (timeheap s) es,
      sig := (sig s)\<lparr>ev_signal := Some es, ev_signal_pair := (a, b), sh_old := [], sh_old_max := 0, evsignal_caught := False,
        evsigcaught := (\<lambda>_. 0), evsigevents := fold tailq_init [0..<NSIG] (evsigevents (sig s)), evsig_lists := True\<rparr>\<rparr>)"
    using alloc ep es ab(1) cb
    by (simp add: epoll_init_def evsignal_init_def upd_sig_def event_set_def upd_ev_def Let_def k_def signal_event_def
        zero_event_def INITIAL_NFILES_def INITIAL_NEVENTS_def add.commute list_ex_iff)
  then show thesis
    by (rule that) (use ab(2,3) es in \<open>simp_all add: k_def k_env_def\<close>)
qed

text \<open>A base that has just been made, and the state before; \<open>es\<close> is the event of the socket pair, at the address that \<open>calloc\<close> returned.\<close>

definition new_base :: "'b epoll_world_scheme \<Rightarrow> 'b epoll_world_scheme \<Rightarrow> bool" where
  "new_base s s' \<longleftrightarrow>
     (\<exists>es b t. evs s' = (evs s)(es := signal_event es b) \<and> ev_signal (sig s') = Some es \<and> 0 \<le> b \<and> b < 2 ^ 30 \<and>
        os_calloc (os s) t = Some es \<and> t < tick s') \<and>
     (event_count s' = 0 \<and> event_count_active s' = 0 \<and> nactivequeues s' = 1 \<and> \<not> event_gotterm s' \<and> \<not> event_break s') \<and>
     (eventqueue s' = tailq_init () (eventqueue s) \<and> activequeues s' = fold tailq_init [0..<1] (activequeues s) \<and>
        evsigevents (sig s') = fold tailq_init [0..<NSIG] (evsigevents (sig s)) \<and> evsig_lists (sig s')) \<and>
     (sh_old (sig s') = [] \<and> sh_old_max (sig s') = 0) \<and>
     (hp_p (timeheap s') = [] \<and> hp_n (timeheap s') = 0 \<and> hp_a (timeheap s') = 0) \<and>
     (ep_fds s' = replicate 32 no_events \<and> ep_nfds s' = 32 \<and> ep_nevents s' = 32) \<and>
     (k_interest (ker s') = (\<lambda>_. None) \<and> k_env (ker s') = k_env (ker s)) \<and>
     (os s' = os s \<and> frames s' = frames s \<and> next_frame s' = next_frame s \<and> onces s' = onces s) \<and>
     tv_ok (event_tv s') \<and> tv_cache s' = Timeval 0 0"

lemma new_base_run:
  assumes cb: "current_base s = NullBase" and w: "willing_system s"
  obtains s' where "event_base_new ops s = Some (True, s')" and "new_base s s'" and "current_base s' = NullBase"
proof -
  have alloc: "os_alloc (os s) t i" if "i \<noteq> 56" for t i using w that by (simp add: willing_system_def)
  define s1 where "s1 = (zero_base s)\<lparr>tick := tick s + 1, event_sigcb := None, event_gotsig := False\<rparr>"
  obtain m now n where clock: "start_clock s1 = s1\<lparr>use_monotonic := m, event_tv := now, tick := n\<rparr>" "tv_ok now"
    by (rule new_base_clock [OF w, of s1]) (simp_all add: s1_def zero_base_def)
  define s5 where "s5 = s1\<lparr>use_monotonic := m, event_tv := now, tick := n + 3, timeheap := min_heap_ctor (timeheap s),
    eventqueue := tailq_init () (eventqueue s), sig := zero_sig (sig s)\<rparr>"
  note defs = s5_def s1_def zero_base_def zero_sig_def
  have w5: "willing_system s5" using w by (simp add: willing_system_def defs)
  have cb5: "current_base s5 = NullBase" using cb by (simp add: defs)
  obtain es ep a b k where init: "epoll_init s5 = Some (True, s5\<lparr>ker := k, tick := tick s5 + 4 + NSIG, ep_epfd := ep, ep_nevents := 32,
      ep_fds := replicate 32 no_events, ep_nfds := 32, evs := (evs s5)(es := signal_event es b),
      timeheap := min_heap_elem_init (timeheap s5) es,
      sig := (sig s5)\<lparr>ev_signal := Some es, ev_signal_pair := (a, b), sh_old := [], sh_old_max := 0, evsignal_caught := False,
        evsigcaught := (\<lambda>_. 0), evsigevents := fold tailq_init [0..<NSIG] (evsigevents (sig s5)), evsig_lists := True\<rparr>\<rparr>)"
    "k_interest k = (\<lambda>_. None)" "k_env k = k_env (ker s5)" "0 \<le> b" "b < 2 ^ 30" "os_calloc (os s5) (tick s5 + 3) = Some es"
    by (rule epoll_init_ok [OF w5 cb5]) blast
  define s6 where "s6 = s5\<lparr>ker := k, tick := tick s5 + 4 + NSIG, ep_epfd := ep, ep_nevents := 32,
      ep_fds := replicate 32 no_events, ep_nfds := 32, evs := (evs s5)(es := signal_event es b),
      timeheap := min_heap_elem_init (timeheap s5) es,
      sig := (sig s5)\<lparr>ev_signal := Some es, ev_signal_pair := (a, b), sh_old := [], sh_old_max := 0, evsignal_caught := False,
        evsigcaught := (\<lambda>_. 0), evsigevents := fold tailq_init [0..<NSIG] (evsigevents (sig s5)), evsig_lists := True\<rparr>\<rparr>"
  have f5: "evs s5 = evs s" "event_count s5 = 0" "event_count_active s5 = 0" "nactivequeues s5 = 0" "\<not> event_gotterm s5"
    "\<not> event_break s5" "eventqueue s5 = tailq_init () (eventqueue s)" "activequeues s5 = activequeues s"
    "evsigevents (sig s5) = evsigevents (sig s)" "timeheap s5 = min_heap_ctor (timeheap s)" "ker s5 = ker s" "os s5 = os s"
    "frames s5 = frames s" "next_frame s5 = next_frame s" "onces s5 = onces s" "event_tv s5 = now" "tv_cache s5 = Timeval 0 0"
    "current_base s5 = NullBase"
    by (simp_all add: defs cb)
  define s9 where "s9 = s6\<lparr>nactivequeues := 1, aq_gen := aq_gen s6 + 1, tick := tick s6 + 2,
    activequeues := fold tailq_init [0..<1] (activequeues s)\<rparr>"
  have f6: "event_count_active s6 = 0" "nactivequeues s6 = 0" "os s6 = os s" "activequeues s6 = activequeues s"
    by (simp_all add: s6_def f5)
  have prio: "event_base_priority_init s6 1 = Some (0, s9)"
    by (simp add: event_base_priority_init_def f6 alloc sizeof_ptr_def s9_def)
  have os1: "os s1 = os s" "tick s1 = tick s + 1" by (simp_all add: defs)
  have s5: "(start_clock s1)\<lparr>tick := tick (start_clock s1) + 3, timeheap := min_heap_ctor (timeheap (start_clock s1)),
      eventqueue := tailq_init () (eventqueue (start_clock s1)), sig := zero_sig (sig (start_clock s1))\<rparr> = s5"
    unfolding clock(1) by (simp add: s5_def s1_def zero_base_def)
  have "event_base_new ops s = Some (True, s9)"
    unfolding event_base_new_def Let_def s1_def [symmetric] s5 using init(1) prio alloc
    by (simp add: clock(1) os1 s6_def [symmetric])
  moreover have "new_base s s9"
    unfolding new_base_def using init(2-6) clock(2)
    by (intro conjI exI [of _ es] exI [of _ b] exI [of _ "tick s5 + 3"])
      (simp_all add: s9_def s6_def f5 min_heap_ctor_def min_heap_elem_init_def)
  moreover have "current_base s9 = NullBase" by (simp add: s9_def s6_def f5)
  ultimately show thesis by (rule that)
qed

lemma new_base_idle:
  assumes fresh: "fresh_process s" and new: "new_base s s'"
  shows "\<not> queued s' x" and "flags_ok (ev_flags (evs s' x))"
proof -
  obtain es b where e: "evs s' = (evs s)(es := signal_event es b)" using new unfolding new_base_def by blast
  have idle: "\<not> queued s x" "flags_ok (ev_flags (evs s x))" using fresh by (simp_all add: fresh_process_def)
  show "flags_ok (ev_flags (evs s' x))" using idle(2) by (simp add: e signal_event_def)
  show "\<not> queued s' x" using idle(1)
    by (simp add: flags_bit e signal_event_def queued_def bit_or_iff bit_EVLIST)
qed

lemma new_base_ok:
  assumes fresh: "fresh_process s" and w: "willing_system s" and new: "new_base s s'"
  shows "loop_ok s'"
proof -
  obtain es b where es: "evs s' = (evs s)(es := signal_event es b)" "ev_signal (sig s') = Some es" "0 \<le> b" "b < 2 ^ 30"
    using new unfolding new_base_def by blast
  note N = new [unfolded new_base_def]
  note idle = new_base_idle [OF fresh new]
  have flags: "\<not> inserted s' x" "\<not> active s' x" "\<not> timed s' x" for x using idle(1) [of x] by (simp_all add: queued_def)
  have bl: "blank (eventqueue s')" "blank (activequeues s')" "blank (evsigevents (sig s'))"
    using N fresh blank_init [of 1] blank_init [of NSIG] by (simp_all add: fresh_process_def) (simp add: blank_on_def tailq_init_def)
  have tmq: "tmq s' = []" "heap_ok (deadline s') (timeheap s')"
    using N by (simp_all add: tmq_def helems_def heap_ok_def heap_rep_def heap_list_def)
  have none: "card (Collect (active s')) = 0"
  proof -
    have e: "Collect (active s') = {}" using flags by blast
    show ?thesis unfolding e by (rule card.empty)
  qed
  have core: "core_ok s'"
    unfolding core_ok_def using N flags bl tmq none idle(2) by (simp add: counted_def inq_def actq_def blank_ok del: card_0_eq)
  have own: "epoll_own s' = {es}" by (simp add: epoll_own_def es)
  have tab: "tab s' i = no_events" for i using N by (simp add: tab_def)
  have "table_ok s' {}" unfolding table_ok_def tab using N by (simp add: entry_ok_def no_events_def)
  moreover have "sig_ok s' {}"
    unfolding sig_ok_def using bl(3) N es
    by (intro conjI exI [of _ es]) (simp_all add: sigq_def blank_ok own_event_def signal_event_def bit_or_iff bit_EVLIST)
  moreover have "signals_valid (ker s')" using w N k_envD(2) [of "ker s'" "ker s"] by (simp add: willing_system_def)
  then have "watched s'" using N by (simp add: watched_def kernel_agrees_def tab no_events_def)
  ultimately have "base_ok s'" using core flags by (simp add: base_ok_def epoll_inv_def own own_ok_def)
  moreover have "clock_ok s'" "frames_ok s'"
    using w fresh N by (simp_all add: clock_ok_def willing_system_def tv_ok_def frames_ok_def fresh_process_def)
  ultimately show "loop_ok s'"
    using flags idle(1) N by (simp add: loop_ok_def all_ready_def deadlines_ok_def onces_ok_def)
qed

text \<open>
  C29. \<open>event_init\<close>, in a process that has not used the library and on a system whose calls succeed, whatever the memory it gets holds
  in the place of the list heads, makes a base in which everything the other theorems require holds: no event registered, one priority, the table and the signal lists empty, the internal
  signal event set up on the socket pair.
\<close>

theorem event_init_spec:
  assumes fresh: "fresh_process s" and w: "willing_system s"
  shows "\<exists>s'. event_init ops s = Some (True, s') \<and> loop_ok s' \<and> current_base s' = Base \<and> event_count s' = 0 \<and>
    nactivequeues s' = 1 \<and> (\<forall>x. \<not> queued s' x) \<and> heap_room (timeheap s') \<and> \<not> event_gotterm s' \<and> \<not> event_break s'"
proof -
  have cb: "current_base s = NullBase" using fresh by (simp add: fresh_process_def)
  obtain s1 where s1: "event_base_new ops s = Some (True, s1)" "new_base s s1" by (rule new_base_run [OF cb w])
  let ?s = "s1\<lparr>current_base := Base\<rparr>"
  have new: "new_base s ?s" using s1(2) by (simp add: new_base_def)
  show ?thesis
    using s1(1) new_base_ok [OF fresh w new] new_base_idle(1) [OF fresh new] new
    by (intro exI [of _ ?s]) (simp add: event_init_def new_base_def heap_room_def)
qed

text \<open>A process whose memory holds anything in the place of the list heads.\<close>

definition raw_lists :: "nat \<Rightarrow> nat tailqs" where
  "raw_lists n = demo_tailqs\<lparr>tqh_first := (\<lambda>q. if q < n then Some 9 else None), tqh_last := (\<lambda>q. if q < n then Field 9 else Head q)\<rparr>"

definition raw_process :: epoll_world where
  "raw_process = demo\<lparr>current_base := NullBase, activequeues := raw_lists 1, sig := demo_sig\<lparr>evsigevents := raw_lists NSIG, evsig_lists := False\<rparr>,
     eventqueue := \<lparr>tqh_first = (\<lambda>_. Some 9), tqh_last = (\<lambda>_. Field 9), tqe_next = (\<lambda>_. None), tqe_prev = (\<lambda>_. Field 9)\<rparr>\<rparr>"

theorem event_init_spec_witness:
  "\<exists>s'. event_init ops raw_process = Some (True, s') \<and> loop_ok s' \<and> current_base s' = Base \<and> tqh_first (activequeues raw_process) 0 = Some 9"
proof -
  have "queued raw_process = queued demo" by (rule queued_cong) (simp add: raw_process_def)
  moreover have "\<not> queued demo e" for e using demo_okD(8) [of e] by (simp add: queued_def)
  moreover have "flags_ok (ev_flags (evs demo e))" for e using core_okD(10) [OF loop_okD(8) [OF demo_loop]] .
  moreover have "evs raw_process = evs demo" "frames_ok raw_process" using loop_okD(7) [OF demo_loop] by (simp_all add: raw_process_def frames_ok_def)
  ultimately have "fresh_process raw_process"
    by (simp add: fresh_process_def) (simp add: raw_process_def raw_lists_def unallocated_def blank_on_def)
  moreover have "willing_system raw_process"
    by (simp add: willing_system_def signals_valid_def raw_process_def demo_defs tv_ok_def)
  moreover have "tqh_first (activequeues raw_process) 0 = Some 9" by (simp add: raw_process_def raw_lists_def)
  ultimately show ?thesis using event_init_spec by blast
qed

subsection \<open>Freeing leaves nothing registered\<close>

text \<open>\<open>dropped X s s'\<close>: exactly the events \<open>X\<close> have been taken off everything.\<close>

definition dropped :: "eid set \<Rightarrow> 'b epoll_world_scheme \<Rightarrow> 'b epoll_world_scheme \<Rightarrow> bool" where
  "dropped X s s' \<longleftrightarrow> base_ok s' \<and> all_ready s' \<and> epoll_own s' = epoll_own s \<and> lib_frame s s' \<and>
     evs s' = (\<lambda>x. if x \<in> X then (evs s x)\<lparr>ev_flags := off_queues (ev_flags (evs s x))\<rparr> else evs s x) \<and>
     inq s' = filter (\<lambda>x. x \<notin> X) (inq s) \<and> actq s' = (\<lambda>q. filter (\<lambda>x. x \<notin> X) (actq s q)) \<and>
     set (tmq s') = set (tmq s) - X \<and> length (tmq s') \<le> length (tmq s)"

lemma droppedD:
  assumes "dropped X s s'"
  shows "base_ok s'" "all_ready s'" "epoll_own s' = epoll_own s" "lib_frame s s'"
    "evs s' = (\<lambda>x. if x \<in> X then (evs s x)\<lparr>ev_flags := off_queues (ev_flags (evs s x))\<rparr> else evs s x)"
    "inq s' = filter (\<lambda>x. x \<notin> X) (inq s)" "actq s' = (\<lambda>q. filter (\<lambda>x. x \<notin> X) (actq s q))"
    "set (tmq s') = set (tmq s) - X" "length (tmq s') \<le> length (tmq s)"
  using assms by (simp_all add: dropped_def)

lemma off_queues_twice: "off_queues (off_queues f) = off_queues f"
  by (rule bit_eqI) auto

lemma dropped_refl: "base_ok s \<Longrightarrow> all_ready s \<Longrightarrow> dropped {} s s"
  by (simp add: dropped_def)

lemma dropped_trans: "dropped X s t \<Longrightarrow> dropped Y t u \<Longrightarrow> dropped (X \<union> Y) s u"
  using lib_frame_trans [of s t u] by (auto simp: dropped_def fun_eq_iff off_queues_twice intro: order_trans filter_cong)

lemma drop_one:
  assumes ok: "base_ok s" "all_ready s" and e: "queued s e" "e \<notin> epoll_own s"
  obtains r s' where "event_del ops s e = Some (r, s')" and "dropped {e} s s'"
    and "timed s e \<Longrightarrow> length (tmq s') < length (tmq s)"
proof -
  have core: "core_ok s" using base_okD(1) [OF ok(1)] .
  have rdy: "ready s e" using all_readyD [OF ok(2), of e] e(1) by (simp add: queued_def)
  have base: "ev_base (evs s e) = Base" using core_okD(11) [OF core, of e] e(1) unfolding queued_def by blast
  obtain r s' where s': "event_del ops s e = Some (r, s')" "base_ok s'" "deleted s e s'" "epoll_own s' = epoll_own s"
    by (rule event_del_base [OF ok(1) base e(2)]) (use rdy in \<open>simp_all add: ready_def\<close>)
  have D: "lib_frame s s'" "evs s' = with_flags e (off_queues (ev_flags (evs s e))) s" "inq s' = remove1 e (inq s)"
    "actq s' = (\<lambda>p. remove1 e (actq s p))" "set (tmq s') = set (tmq s) - {e}" "length (tmq s') \<le> length (tmq s)"
    "timed s e \<longrightarrow> length (tmq s') < length (tmq s)"
    using s'(3) by (simp_all add: deleted_def)
  have "all_ready s'"
    by (rule all_ready_upd [OF ok(2) D(1)]) (use rdy in \<open>auto simp: D(2) with_flags_def split: if_splits\<close>)
  then have "dropped {e} s s'"
    using s' D distinct_remove1_removeAll [OF inq_distinct [OF core], of e] distinct_remove1_removeAll [OF actq_distinct [OF core], of e]
    by (auto simp: dropped_def with_flags_def fun_eq_iff removeAll_filter_not_eq intro!: filter_cong)
  then show thesis using that [OF s'(1)] D(7) by blast
qed

text \<open>The three loops.\<close>

lemma free_list_ok:
  assumes nxt: "\<And>s as e bs. core_ok s \<Longrightarrow> lst s = as @ e # bs \<Longrightarrow> nxt s e = (case bs of [] \<Rightarrow> None | b # _ \<Rightarrow> Some b)"
    and sub: "\<And>X s s'. dropped X s s' \<Longrightarrow> lst s' = filter (\<lambda>x. x \<notin> X) (lst s)"
    and dist: "\<And>s. core_ok s \<Longrightarrow> distinct (lst s)"
    and mem: "\<And>s x. core_ok s \<Longrightarrow> x \<in> set (lst s) \<Longrightarrow> queued s x"
    and "base_ok s" and "all_ready s" and "lst s = as @ es" and own: "\<And>x. queued s x \<Longrightarrow> internal s x \<longleftrightarrow> x \<in> epoll_own s"
  shows "\<exists>s'. free_list ops nxt (case es of [] \<Rightarrow> None | e # _ \<Rightarrow> Some e) s = Some s' \<and> dropped (set es - epoll_own s) s s'"
  using assms(5-8)
proof (induction es arbitrary: s as)
  case Nil
  then show ?case using dropped_refl [OF Nil(1,2)] by (simp add: free_list.simps [of _ _ None])
next
  case (Cons e es)
  have core: "core_ok s" using base_okD(1) [OF Cons.prems(1)] .
  have q: "queued s e" using mem [OF core, of e] Cons.prems(3) by simp
  have succ: "nxt s e = (case es of [] \<Rightarrow> None | b # _ \<Rightarrow> Some b)" by (rule nxt [OF core Cons.prems(3)])
  have es: "e \<notin> set es" "e \<notin> set as" using dist [OF core] Cons.prems(3) by auto
  show ?case
  proof (cases "e \<in> epoll_own s")
    case True
    then have "free_list ops nxt (Some e) s = free_list ops nxt (nxt s e) s"
      using Cons.prems(4) [OF q] by (simp add: free_list.simps [of _ _ "Some e"] internal_def)
    moreover have "lst s = (as @ [e]) @ es" using Cons.prems(3) by simp
    ultimately show ?thesis
      using Cons.IH [OF Cons.prems(1,2) _ Cons.prems(4), of "as @ [e]"] True by (simp add: succ insert_Diff_if)
  next
    case False
    obtain r s1 where s1: "event_del ops s e = Some (r, s1)" "dropped {e} s s1"
      by (rule drop_one [OF Cons.prems(1,2) q False]) blast
    note D = droppedD [OF s1(2)]
    have "free_list ops nxt (Some e) s = free_list ops nxt (nxt s e) s1"
      using Cons.prems(4) [OF q] False s1(1) by (simp add: free_list.simps [of _ _ "Some e"] internal_def)
    moreover have "lst s1 = as @ es"
    proof -
      have "filter (\<lambda>x. x \<noteq> e) as = as" "filter (\<lambda>x. x \<noteq> e) es = es" using es by (auto simp: filter_id_conv)
      then show ?thesis using sub [OF s1(2)] Cons.prems(3) by simp
    qed
    moreover have "internal s1 x \<longleftrightarrow> x \<in> epoll_own s1" if "queued s1 x" for x
      using Cons.prems(4) [of x] that by (auto simp: D(3,5) queued_def flags_bit split: if_splits)
    ultimately obtain s' where "free_list ops nxt (Some e) s = Some s'" "dropped (set es - epoll_own s1) s1 s'"
      using Cons.IH [OF D(1,2), of as] by (auto simp: succ)
    moreover from this have "dropped ({e} \<union> (set es - epoll_own s1)) s s'" using dropped_trans [OF s1(2)] by blast
    moreover have "{e} \<union> (set es - epoll_own s1) = set (e # es) - epoll_own s" using False by (auto simp: D(3))
    ultimately show ?thesis by auto
  qed
qed

lemma free_timers_ok:
  assumes "base_ok s" and "all_ready s"
  shows "\<exists>s'. free_timers ops s = Some s' \<and> dropped (set (tmq s)) s s'"
  using assms
proof (induction "length (tmq s)" arbitrary: s rule: less_induct)
  case (less s)
  have core: "core_ok s" using base_okD(1) [OF less.prems(1)] .
  note H = core_okD(3) [OF core]
  show ?case
  proof (cases "tmq s = []")
    case True
    then have "min_heap_top (timeheap s) = Some None" using heapq.top_None [OF H] by (simp add: tmq_def)
    then show ?thesis using dropped_refl [OF less.prems] True by (simp add: free_timers.simps [of _ s])
  next
    case False
    then obtain e where top: "min_heap_top (timeheap s) = Some (Some e)" "e \<in> set (tmq s)"
      using heapq.top_least [OF H] by (auto simp: tmq_def)
    then have t: "timed s e" using core_okD(5) [OF core] by blast
    then have "e \<notin> epoll_own s" using base_okD(3) [OF less.prems(1)] by (auto simp: own_ok_def)
    then obtain r s1 where s1: "event_del ops s e = Some (r, s1)" "dropped {e} s s1" "length (tmq s1) < length (tmq s)"
      using drop_one [OF less.prems, of e] t by (auto simp: queued_def)
    note D = droppedD [OF s1(2)]
    obtain s' where s': "free_timers ops s1 = Some s'" "dropped (set (tmq s1)) s1 s'"
      using less.hyps [OF s1(3) D(1,2)] by blast
    have "{e} \<union> set (tmq s1) = set (tmq s)" using D(8) top(2) by auto
    then have "dropped (set (tmq s)) s s'" using dropped_trans [OF s1(2) s'(2)] by simp
    moreover have "free_timers ops s = Some s'" using top(1) s1(1) s'(1) by (simp add: free_timers.simps [of _ s])
    ultimately show ?thesis by blast
  qed
qed

lemma queued_dropped:
  assumes "dropped X s s'"
  shows "queued s' x \<longleftrightarrow> queued s x \<and> x \<notin> X" and "internal s' x \<longleftrightarrow> internal s x"
  using droppedD(5) [OF assms] by (auto simp: queued_def flags_bit)

lemma free_actives_ok:
  assumes "base_ok s" and "all_ready s" and "\<And>x. queued s x \<Longrightarrow> internal s x \<longleftrightarrow> x \<in> epoll_own s"
  shows "\<exists>s'. free_actives ops qs s = Some s' \<and> dropped ((\<Union>q\<in>set qs. set (actq s q)) - epoll_own s) s s'"
  using assms
proof (induction qs arbitrary: s)
  case Nil
  then show ?case using dropped_refl by simp
next
  case (Cons q qs)
  have core: "core_ok s" using base_okD(1) [OF Cons.prems(1)] .
  have "\<exists>s'. free_list ops (\<lambda>s. tqe_next (activequeues s)) (case actq s q of [] \<Rightarrow> None | e # _ \<Rightarrow> Some e) s = Some s' \<and>
      dropped (set (actq s q) - epoll_own s) s s'"
  proof (rule free_list_ok [where lst = "\<lambda>s. actq s q" and as = "[]", OF _ _ _ _ Cons.prems(1,2)])
    fix s :: "'a epoll_world_scheme" and as e bs assume "core_ok s" "actq s q = as @ e # bs"
    then show "tqe_next (activequeues s) e = (case bs of [] \<Rightarrow> None | b # _ \<Rightarrow> Some b)"
      unfolding actq_def by (rule tq.nxt_lists [OF core_okD(2)])
  next
    fix s :: "'a epoll_world_scheme" and x assume "core_ok s" "x \<in> set (actq s q)"
    then show "queued s x" using core_okD(6) unfolding queued_def by blast
  qed (use Cons.prems(3) in \<open>simp_all add: dropped_def actq_distinct\<close>)
  then obtain s1 where s1: "free_list ops (\<lambda>s. tqe_next (activequeues s)) (tqh_first (activequeues s) q) s = Some s1"
    "dropped (set (actq s q) - epoll_own s) s s1"
    using first_active [OF core, of q] by auto
  note D = droppedD [OF s1(2)]
  have "internal s1 x \<longleftrightarrow> x \<in> epoll_own s1" if "queued s1 x" for x
    using that Cons.prems(3) by (simp add: queued_dropped [OF s1(2)] D(3))
  then obtain s' where s': "free_actives ops qs s1 = Some s'"
    "dropped ((\<Union>q\<in>set qs. set (actq s1 q)) - epoll_own s1) s1 s'"
    using Cons.IH [OF D(1,2)] by blast
  have "(set (actq s q) - epoll_own s) \<union> ((\<Union>q\<in>set qs. set (actq s1 q)) - epoll_own s1) =
      (\<Union>q\<in>set (q # qs). set (actq s q)) - epoll_own s"
    by (auto simp: D(3,7))
  then show ?case using s1(1) s'(1) dropped_trans [OF s1(2) s'(2)] by (intro exI [of _ s']) simp
qed

text \<open>The backend gives back the dispositions of the signals and its own event.\<close>

lemma restore_all_ok:
  assumes "sh_old_max (sig s) = int (length (sh_old (sig s)))"
  shows "\<exists>l k. evsignal_restore_all is s = Some (s\<lparr>sig := (sig s)\<lparr>sh_old := l\<rparr>, ker := k\<rparr>) \<and> length l = length (sh_old (sig s))"
  using assms
proof (induction "is" arbitrary: s)
  case Nil
  have "s = s\<lparr>sig := (sig s)\<lparr>sh_old := sh_old (sig s)\<rparr>, ker := ker s\<rparr>" by simp
  then show ?case by (metis evsignal_restore_all.simps(1))
next
  case (Cons i js)
  show ?case
  proof (cases "i < length (sh_old (sig s)) \<and> sh_old (sig s) ! i \<noteq> None")
    case False
    then have "evsignal_restore_all (i # js) s = evsignal_restore_all js s" using Cons.prems by auto
    then show ?thesis using Cons.IH [OF Cons.prems] by simp
  next
    case True
    obtain r k where r: "evsignal_restore_handler s i =
        Some (r, s\<lparr>sig := (sig s)\<lparr>sh_old := (sh_old (sig s))[i := None]\<rparr>, ker := k\<rparr>)"
      by (rule restore_handler_ok [of i s]) (use True in blast)+
    let ?s1 = "s\<lparr>sig := (sig s)\<lparr>sh_old := (sh_old (sig s))[i := None]\<rparr>, ker := k\<rparr>"
    obtain l k' where "evsignal_restore_all js ?s1 = Some (?s1\<lparr>sig := (sig ?s1)\<lparr>sh_old := l\<rparr>, ker := k'\<rparr>)"
      "length l = length (sh_old (sig ?s1))"
      using Cons.IH [of ?s1] Cons.prems by auto
    then show ?thesis using r True Cons.prems by auto
  qed
qed

lemma dealloc_ok:
  assumes ok: "base_ok s" "all_ready s" and only: "\<And>x. queued s x \<Longrightarrow> x \<in> epoll_own s"
    and safe: "\<And>x. x \<in> epoll_own s \<Longrightarrow> clear_ncalls s x \<noteq> None"
  obtains s' where "op_dealloc ops s = Some s'" and "\<And>x. \<not> queued s' x" and "core_ok s'" and "current_base s' = current_base s"
proof -
  have core: "core_ok s" using base_okD(1) [OF ok(1)] .
  have sg: "sig_ok s {x. inserted s x}" using base_okD(2) [OF ok(1)] by (simp add: epoll_inv_def)
  obtain es where es: "ev_signal (sig s) = Some es" "es \<in> {x. inserted s x} \<Longrightarrow> ev_signal_added (sig s)"
    "own_event (evs s es)"
    using sig_okD(5) [OF sg] by blast
  have own: "epoll_own s = {es}" by (simp add: epoll_own_def es)
  have max: "sh_old_max (sig s) = int (length (sh_old (sig s)))" using sg by (simp add: sig_ok_def)
  have nt: "\<not> timed s es" "active s es \<Longrightarrow> inserted s es" using base_okD(3) [OF ok(1)] by (simp_all add: own own_ok_def)
  have "\<exists>s1. (if ev_signal_added (sig s)
      then do { es \<leftarrow> ev_signal (sig s); (r, s') \<leftarrow> event_del (epollops (Suc (Suc 0))) s es;
                Some (upd_sig (\<lambda>g. g\<lparr>ev_signal_added := False\<rparr>) s') }
      else Some s) = Some s1 \<and> core_ok s1 \<and> (\<forall>x. \<not> queued s1 x) \<and> sh_old_max (sig s1) = int (length (sh_old (sig s1))) \<and>
      current_base s1 = current_base s"
  proof (cases "ev_signal_added (sig s)")
    case False
    then have "\<not> queued s x" for x using only [of x] es(2) nt by (auto simp: own queued_def)
    then show ?thesis using False core max by simp
  next
    case True
    have base: "ev_base (evs s es) = Base" using es(3) by (simp add: own_event_def)
    obtain r s1 where s1: "event_del (epollops (Suc (Suc 0))) s es = Some (r, s1)" "core_ok s1"
      "epoll_inv s1 {x. inserted s1 x}" "deleted s es s1"
      by (rule ep.event_del_backend [OF base_okD(1,2) [OF ok(1)] base, where n = 0]) (use safe own in auto)
    let ?s2 = "upd_sig (\<lambda>g. g\<lparr>ev_signal_added := False\<rparr>) s1"
    have evs1: "evs s1 = with_flags es (off_queues (ev_flags (evs s es))) s" using s1(4) by (simp add: deleted_def)
    have "\<not> queued s1 x" for x
    proof (cases "x = es")
      case True
      then show ?thesis by (simp add: queued_def flags_bit evs1)
    next
      case False
      then have "evs s1 x = evs s x" by (simp add: evs1)
      then have "queued s1 x = queued s x" by (simp add: queued_def flags_bit)
      then show ?thesis using only [of x] False own by auto
    qed
    moreover have "queued ?s2 = queued s1" by (rule queued_cong) (simp add: upd_sig_def)
    moreover have "core_ok ?s2" using s1(2) by (simp add: upd_sig_def)
    moreover have "sh_old_max (sig ?s2) = int (length (sh_old (sig ?s2)))"
      using s1(3) by (simp add: epoll_inv_def sig_ok_def upd_sig_def)
    moreover have "current_base ?s2 = current_base s"
      using s1(4) lib_frameD(6) [of s s1] by (simp add: deleted_def upd_sig_def)
    ultimately show ?thesis using True es(1) s1(1) by simp
  qed
  then obtain s1 where s1: "(if ev_signal_added (sig s)
      then do { es \<leftarrow> ev_signal (sig s); (r, s') \<leftarrow> event_del (epollops (Suc (Suc 0))) s es;
                Some (upd_sig (\<lambda>g. g\<lparr>ev_signal_added := False\<rparr>) s') }
      else Some s) = Some s1" "core_ok s1" "\<And>x. \<not> queued s1 x" "sh_old_max (sig s1) = int (length (sh_old (sig s1)))"
    "current_base s1 = current_base s"
    by blast
  obtain l k where l: "evsignal_restore_all [0..<NSIG] s1 = Some (s1\<lparr>sig := (sig s1)\<lparr>sh_old := l\<rparr>, ker := k\<rparr>)"
    using restore_all_ok [OF s1(4), of "[0..<NSIG]"] by blast
  define s' where "s' = s1\<lparr>sig := (sig s1)\<lparr>sh_old := [], ev_signal_pair := (-1, -1), sh_old_max := 0\<rparr>,
    ker := (if ep_epfd s1 \<ge> 0 then k\<lparr>k_interest := (\<lambda>_. None)\<rparr> else k), ep_fds := [], ep_nfds := 0, ep_nevents := 0, ep_epfd := 0\<rparr>"
  have "op_dealloc ops s = Some s'"
    using s1(1) l by (simp add: epoll_dealloc_def evsignal_dealloc_def upd_sig_def s'_def Let_def)
  moreover have "queued s' = queued s1" by (rule queued_cong) (simp add: s'_def)
  moreover have "core_ok s'" using s1(2) core_ok_cong [of s' s1] by (simp add: s'_def)
  moreover have "current_base s' = current_base s" using s1(5) by (simp add: s'_def)
  ultimately show thesis using that [of s'] s1(3) by simp
qed

text \<open>The three loops of \<open>event_base_free\<close> delete everything but the events of the backend.\<close>

lemma free_events_ok:
  assumes ok0: "base_ok s0" "all_ready s0" and int: "\<And>x. queued s0 x \<Longrightarrow> internal s0 x \<longleftrightarrow> x \<in> epoll_own s0"
  obtains s1 s2 s3 where "free_list ops (\<lambda>s. tqe_next (eventqueue s)) (tqh_first (eventqueue s0) ()) s0 = Some s1"
    and "free_timers ops s1 = Some s2" and "free_actives ops [0..<nat (nactivequeues s2)] s2 = Some s3"
    and "base_ok s3" and "all_ready s3" and "epoll_own s3 = epoll_own s0" and "lib_frame s0 s3"
    and "\<forall>x. queued s3 x \<longrightarrow> x \<in> epoll_own s3"
    and "\<forall>x. ev_pncalls (evs s3 x) = ev_pncalls (evs s0 x) \<and> ev_ncalls (evs s3 x) = ev_ncalls (evs s0 x)"
proof -
  have core0: "core_ok s0" using base_okD(1) [OF ok0(1)] .
  have "\<exists>s1. free_list ops (\<lambda>s. tqe_next (eventqueue s)) (case inq s0 of [] \<Rightarrow> None | e # _ \<Rightarrow> Some e) s0 = Some s1 \<and>
      dropped (set (inq s0) - epoll_own s0) s0 s1"
  proof (rule free_list_ok [where lst = inq and as = "[]", OF _ _ _ _ ok0])
    fix s :: "'a epoll_world_scheme" and as e bs assume "core_ok s" "inq s = as @ e # bs"
    then show "tqe_next (eventqueue s) e = (case bs of [] \<Rightarrow> None | b # _ \<Rightarrow> Some b)"
      unfolding inq_def by (rule tq.nxt_lists [OF core_okD(1)])
  next
    fix s :: "'a epoll_world_scheme" and x assume "core_ok s" "x \<in> set (inq s)"
    then show "queued s x" using core_okD(4) unfolding queued_def by blast
  qed (use int in \<open>simp_all add: dropped_def inq_distinct\<close>)
  moreover have "tqh_first (eventqueue s0) () = (case inq s0 of [] \<Rightarrow> None | e # _ \<Rightarrow> Some e)"
    using tq.first_lists [OF core_okD(1) [OF core0], of "()"] by (simp add: inq_def)
  ultimately obtain s1 where s1: "free_list ops (\<lambda>s. tqe_next (eventqueue s)) (tqh_first (eventqueue s0) ()) s0 = Some s1"
    "dropped (set (inq s0) - epoll_own s0) s0 s1"
    by auto
  note D1 = droppedD [OF s1(2)]
  obtain s2 where s2: "free_timers ops s1 = Some s2" "dropped (set (tmq s1)) s1 s2"
    using free_timers_ok [OF D1(1,2)] by blast
  note D2 = droppedD [OF s2(2)]
  have int2: "internal s2 x \<longleftrightarrow> x \<in> epoll_own s2" if "queued s2 x" for x
    using that int by (simp add: queued_dropped [OF s2(2)] queued_dropped [OF s1(2)] D1(3) D2(3))
  obtain s3 where s3: "free_actives ops [0..<nat (nactivequeues s2)] s2 = Some s3"
    "dropped ((\<Union>q\<in>set [0..<nat (nactivequeues s2)]. set (actq s2 q)) - epoll_own s2) s2 s3"
    using free_actives_ok [OF D2(1,2) int2, of "[0..<nat (nactivequeues s2)]"] by blast
  note D3 = droppedD [OF s3(2)]
  have own3: "epoll_own s3 = epoll_own s0" by (simp add: D1(3) D2(3) D3(3))
  have only: "\<forall>x. queued s3 x \<longrightarrow> x \<in> epoll_own s3"
  proof (intro allI impI, rule ccontr)
    fix x assume x: "queued s3 x" and n: "x \<notin> epoll_own s3"
    note C1 = base_okD(1) [OF D1(1)] and C2 = base_okD(1) [OF D2(1)]
    have "x \<notin> set (inq s0)" "x \<notin> set (tmq s1)" "x \<notin> (\<Union>q\<in>set [0..<nat (nactivequeues s2)]. set (actq s2 q))"
      "queued s2 x"
      using x n own3 by (auto simp: queued_dropped [OF s1(2)] queued_dropped [OF s2(2)] queued_dropped [OF s3(2)] D1(3) D2(3))
    moreover have "inserted s2 x \<Longrightarrow> inserted s0 x" "timed s2 x \<Longrightarrow> timed s1 x"
      using D1(5) D2(5) by (auto simp: flags_bit split: if_splits)
    moreover have "x \<in> set (actq s2 (nat (ev_pri (evs s2 x))))" "nat (ev_pri (evs s2 x)) < nat (nactivequeues s2)" if "active s2 x"
      using active_queue [OF C2 that] core_okD(7) [OF C2 that] by (simp_all add: pri_ok_def)
    ultimately show False
      using core_okD(4) [OF core0, of x] core_okD(5) [OF C1, of x] unfolding queued_def by fastforce
  qed
  have "lib_frame s0 s3" using D1(4) D2(4) D3(4) lib_frame_trans by blast
  moreover have "\<forall>x. ev_pncalls (evs s3 x) = ev_pncalls (evs s0 x) \<and> ev_ncalls (evs s3 x) = ev_ncalls (evs s0 x)"
    by (simp add: D1(5) D2(5) D3(5))
  ultimately show thesis using that [OF s1(1) s2(1) s3(1) D3(1,2) own3] only by blast
qed

text \<open>A base on which nothing is registered passes the three assertions.\<close>

lemma nothing_left:
  assumes core: "core_ok s" and none: "\<And>x. \<not> queued s x"
  shows "tqh_first (activequeues s) q = None" and "tqh_first (eventqueue s) () = None" and "min_heap_empty (timeheap s)"
proof -
  have empty: "inq s = []" "tmq s = []" "actq s q = []" for q
  proof -
    have "\<not> inserted s x" "\<not> timed s x" "\<not> active s x" for x using none [of x] by (simp_all add: queued_def)
    then have "x \<notin> set (inq s)" "x \<notin> set (tmq s)" "x \<notin> set (actq s q)" for x using core_okD(4,5,6) [OF core] by simp_all
    then show "inq s = []" "tmq s = []" "actq s q = []" by (metis last_in_set)+
  qed
  show "tqh_first (activequeues s) q = None" using first_active [OF core, of q] empty(3) by simp
  show "tqh_first (eventqueue s) () = None" using tq.first_lists [OF core_okD(1) [OF core], of "()"] empty(1) by (simp add: inq_def)
  show "min_heap_empty (timeheap s)"
    using heap_ok_n [OF core_okD(3) [OF core]] empty(2) by (simp add: min_heap_empty_def tmq_def)
qed

lemma without_current:
  fixes s :: "'b epoll_world_scheme"
  assumes ok: "base_ok s" "all_ready s"
  defines "s0 \<equiv> (if Base = current_base s then s\<lparr>current_base := NullBase\<rparr> else s)"
  shows "base_ok s0" and "all_ready s0" and "queued s0 = queued s" and "internal s0 = internal s" and "epoll_own s0 = epoll_own s"
proof -
  have eq0: "evs s0 = evs s" "eventqueue s0 = eventqueue s" "sig s0 = sig s" "event_core.more s0 = event_core.more s"
    by (simp_all add: s0_def)
  show q0: "queued s0 = queued s" "internal s0 = internal s" "epoll_own s0 = epoll_own s"
    by (simp_all add: fun_eq_iff queued_def flags_bit epoll_own_def eq0)
  have "core_ok s0" using base_okD(1) [OF ok(1)] by (simp add: s0_def)
  moreover have "epoll_inv s0 {x. inserted s0 x} \<and> own_ok (epoll_own s0) s0"
    using epoll_inv_cong [OF base_okD(2) [OF ok(1)], of s0] base_okD(3) [OF ok(1)] eq0 q0(3)
    by (simp add: own_ok_def flags_bit)
  ultimately show "base_ok s0" by (simp add: base_ok_def)
  show "all_ready s0" using ok(2) by (simp add: all_ready_def flags_bit ready_iff s0_def)
qed

lemma base_free_ok:
  fixes s :: "'b epoll_world_scheme"
  assumes ok: "base_ok s" "all_ready s" and int: "\<And>x. queued s x \<Longrightarrow> internal s x \<longleftrightarrow> x \<in> epoll_own s"
    and safe: "\<And>x. x \<in> epoll_own s \<Longrightarrow> clear_ncalls s x \<noteq> None"
  obtains s' where "event_base_free ops s Base = Some s'" and "\<forall>x. \<not> queued s' x"
    and "current_base s' = (if current_base s = Base then NullBase else current_base s)"
proof -
  define s0 where "s0 = (if Base = current_base s then s\<lparr>current_base := NullBase\<rparr> else s)"
  note Z = without_current [OF ok, folded s0_def]
  obtain s1 s2 s3 where E: "free_list ops (\<lambda>s. tqe_next (eventqueue s)) (tqh_first (eventqueue s0) ()) s0 = Some s1"
    "free_timers ops s1 = Some s2" "free_actives ops [0..<nat (nactivequeues s2)] s2 = Some s3"
    "base_ok s3" "all_ready s3" "epoll_own s3 = epoll_own s0" "lib_frame s0 s3" "\<forall>x. queued s3 x \<longrightarrow> x \<in> epoll_own s3"
    "\<forall>x. ev_pncalls (evs s3 x) = ev_pncalls (evs s0 x) \<and> ev_ncalls (evs s3 x) = ev_ncalls (evs s0 x)"
    by (rule free_events_ok [OF Z(1,2)]) (use int in \<open>auto simp: Z(3,4,5)\<close>)
  have "evs s0 = evs s" "frames s0 = frames s" by (simp_all add: s0_def)
  then have safe3: "clear_ncalls s3 x \<noteq> None" if "x \<in> epoll_own s3" for x
    using safe [of x] that E(6,9) Z(5) lib_frameD(14) [OF E(7)] by (simp add: clear_ncalls_safe del: not_None_eq)
  obtain s4 where s4: "op_dealloc ops s3 = Some s4" "\<And>x. \<not> queued s4 x" "core_ok s4" "current_base s4 = current_base s3"
    using dealloc_ok [OF E(4,5) _ safe3] E(8) by blast
  have "event_base_free ops s Base = Some (s4\<lparr>aq_gen := aq_gen s4 + 1\<rparr>)"
    using E(1-3) s4(1) nothing_left [OF s4(3,2)] by (simp add: event_base_free_def s0_def [symmetric] list_ex_iff)
  moreover have "queued (s4\<lparr>aq_gen := aq_gen s4 + 1\<rparr>) = queued s4" by (rule queued_cong) simp
  moreover have "current_base s4 = current_base s0" using s4(4) lib_frameD(6) [OF E(7)] by simp
  ultimately show thesis using that [of "s4\<lparr>aq_gen := aq_gen s4 + 1\<rparr>"] s4(2) by (auto simp: s0_def)
qed

text \<open>
  C30. \<open>event_base_free\<close> on a consistent base returns: every registered event of the user is deleted, the backend is released, and none of the
  three assertions at its end fails. Afterwards no event is registered, and if the base was the current one there is no current base.
\<close>

theorem event_base_free_spec:
  assumes "base_ok s" and "all_ready s" and "\<And>x. queued s x \<Longrightarrow> internal s x \<longleftrightarrow> x \<in> epoll_own s"
    and "\<And>x. x \<in> epoll_own s \<Longrightarrow> clear_ncalls s x \<noteq> None"
  shows "\<exists>s'. event_base_free ops s Base = Some s' \<and> (\<forall>x. \<not> queued s' x) \<and> (current_base s = Base \<longrightarrow> current_base s' = NullBase)"
  by (rule base_free_ok [OF assms]) auto

theorem event_base_free_spec_witness: "\<exists>s'. event_base_free ops demo_act Base = Some s' \<and> (\<forall>x. \<not> queued s' x)"
proof -
  have "internal demo_act x \<longleftrightarrow> x \<in> epoll_own demo_act" if "queued demo_act x" for x
    using that by (simp add: demo_act(11,13,15))
  moreover have "clear_ncalls demo_act x \<noteq> None" for x by (simp add: clear_ncalls_safe demo_act(14) del: not_None_eq)
  ultimately show ?thesis using event_base_free_spec [OF loop_okD(1,2) [OF demo_act(2)]] by blast
qed

end
