(* ===== verification/Client.thy ===== *)
theory Client
  imports Base
begin

text \<open>
  What a component that owns some events relies on when it adds and deletes them: the locale \<open>event_client\<close>, and
  its interpretation on the epoll backend. \<open>X\<close> is the set of the events that have timeouts, all of which wait for a descriptor
  or a signal; the laws say that adding and deleting one of them returns, leaves the others and the operating system alone, and does what it says.
\<close>

definition untouched :: "eid set \<Rightarrow> eid \<Rightarrow> 'a event_core_scheme \<Rightarrow> 'a event_core_scheme \<Rightarrow> bool" where
  "untouched X e s s' \<longleftrightarrow> (\<forall>x\<in>X. x \<noteq> e \<longrightarrow> evs s' x = evs s x) \<and> os s' = os s"

lemma untouched_queued: "untouched X e s s' \<Longrightarrow> x \<in> X \<Longrightarrow> x \<noteq> e \<Longrightarrow> queued s' x = queued s x"
  by (simp add: untouched_def queued_def flags_bit)

text \<open>An event that was not registered for a timeout is not registered for one if it is added without one.\<close>

definition add_outcome :: "'a event_core_scheme \<Rightarrow> eid \<Rightarrow> timeval option \<Rightarrow> int \<Rightarrow> 'a event_core_scheme \<Rightarrow> bool" where
  "add_outcome s e tv r s' \<longleftrightarrow>
     (if r = -1 then evs s' e = evs s e
      else queued s' e \<and> (tv = None \<longrightarrow> timed s' e = timed s e \<and> deadline s' e = deadline s e) \<and> (tv \<noteq> None \<longrightarrow> timed s' e))"

locale event_client =
  fixes evsel :: "('a event_core_scheme) eventop"
    and good :: "eid set \<Rightarrow> 'a event_core_scheme \<Rightarrow> bool"
  assumes add_event: "good X s \<Longrightarrow> e \<in> X \<Longrightarrow>
      \<exists>r s'. event_add evsel s e tv = Some (r, s') \<and> good X s' \<and> untouched X e s s' \<and> add_outcome s e tv r s'"
    and del_event: "good X s \<Longrightarrow> e \<in> X \<Longrightarrow>
      \<exists>r s'. event_del evsel s e = Some (r, s') \<and> good X s' \<and> untouched X e s s' \<and> \<not> queued s' e"
    and tick_event: "good X s \<Longrightarrow> good X (s\<lparr>tick := n\<rparr>)"
begin

text \<open>Deleting several events one after the other.\<close>

lemma del_two:
  assumes "good X s" and "e \<in> X" and "f \<in> X" and "e \<noteq> f"
  obtains r1 s1 r2 s2 where "event_del evsel s e = Some (r1, s1)" and "event_del evsel s1 f = Some (r2, s2)" and "good X s2"
    and "\<not> queued s2 e" and "\<not> queued s2 f" and "\<And>x. x \<in> X \<Longrightarrow> x \<noteq> e \<Longrightarrow> x \<noteq> f \<Longrightarrow> evs s2 x = evs s x"
proof -
  obtain r1 s1 where s1: "event_del evsel s e = Some (r1, s1)" "good X s1" "untouched X e s s1" "\<not> queued s1 e"
    using del_event [OF assms(1,2)] by blast
  obtain r2 s2 where s2: "event_del evsel s1 f = Some (r2, s2)" "good X s2" "untouched X f s1 s2" "\<not> queued s2 f"
    using del_event [OF s1(2) assms(3)] by blast
  have "\<not> queued s2 e" using untouched_queued [OF s2(3) assms(2,4)] s1(4) by simp
  then show thesis using that [OF s1(1) s2(1,2)] s1(3) s2(3,4) by (simp add: untouched_def)
qed

end

subsection \<open>The epoll backend keeps the laws\<close>

definition client_ok :: "eid set \<Rightarrow> 'b epoll_world_scheme \<Rightarrow> bool" where
  "client_ok X s \<longleftrightarrow> base_ok s \<and> clock_ok s \<and> finite X \<and> card X + 2 < 2 ^ 31 \<and> set (tmq s) \<subseteq> X \<and>
     (\<forall>x\<in>X. usable s x \<and> wants_io (evs s x) \<and> clear_ncalls s x \<noteq> None)"

lemma base_ok_tick:
  assumes "base_ok s"
  shows "base_ok (s\<lparr>tick := n\<rparr>)"
proof -
  have q: "epoll_own (s\<lparr>tick := n\<rparr>) = epoll_own s" by (simp add: epoll_own_def)
  have "core_ok (s\<lparr>tick := n\<rparr>)" using base_okD(1) [OF assms] core_ok_cong [of "s\<lparr>tick := n\<rparr>" s] by simp
  moreover have "epoll_inv (s\<lparr>tick := n\<rparr>) {x. inserted (s\<lparr>tick := n\<rparr>) x}" "own_ok (epoll_own s) (s\<lparr>tick := n\<rparr>)"
    using base_okD [OF assms] epoll_inv_cong [of s "{x. inserted s x}" "s\<lparr>tick := n\<rparr>"]
    by (simp_all add: own_ok_def flags_bit)
  ultimately show ?thesis by (simp add: base_ok_def q)
qed

lemma client_room: "client_ok X s \<Longrightarrow> heap_room (timeheap s)"
proof -
  assume ok: "client_ok X s"
  then have h: "heap_ok (deadline s) (timeheap s)" using core_okD(3) [OF base_okD(1), of s] by (simp add: client_ok_def)
  have "length (tmq s) = card (set (tmq s))" using heap_ok_distinct [OF h] by (simp add: tmq_def distinct_card)
  also have "\<dots> \<le> card X" using ok by (simp add: client_ok_def card_mono)
  finally show "heap_room (timeheap s)"
    using ok heap_ok_n [OF h] by (simp add: heap_room_def client_ok_def tmq_def)
qed

lemma client_okI:
  assumes ok: "client_ok X s" and new: "base_ok s'" and lib: "lib_frame s s'" and own: "epoll_own s' = epoll_own s"
    and tm: "set (tmq s') \<subseteq> X"
    and same: "\<And>x. x \<in> X \<Longrightarrow> ev_base (evs s' x) = ev_base (evs s x) \<and> ev_events (evs s' x) = ev_events (evs s x) \<and>
      ev_fd (evs s' x) = ev_fd (evs s x) \<and> ev_pncalls (evs s' x) = ev_pncalls (evs s x) \<and> ev_ncalls (evs s' x) = ev_ncalls (evs s x)"
  shows "client_ok X s'"
proof -
  have "usable s' x \<and> wants_io (evs s' x) \<and> clear_ncalls s' x \<noteq> None" if x: "x \<in> X" for x
  proof -
    note v = same [OF x]
    have "epoll_fit (evs s' x) = epoll_fit (evs s x)" "wants_io (evs s' x) = wants_io (evs s x)"
      using v by (simp_all add: epoll_fit_def wants_io_def)
    moreover have "clear_ncalls s' x \<noteq> None \<longleftrightarrow> clear_ncalls s x \<noteq> None"
      unfolding clear_ncalls_safe lib_frameD(14) [OF lib] using v by simp
    ultimately show ?thesis using ok v own x by (simp add: client_ok_def usable_def)
  qed
  moreover have "clock_ok s'" using ok clock_ok_lib [OF lib] by (simp add: client_ok_def)
  ultimately show ?thesis using ok new tm by (simp add: client_ok_def)
qed

lemma added_outcome:
  assumes a: "added own s e tv s'" and w: "wants_io (evs s e)"
  shows "add_outcome s e tv r s' \<or> r = -1"
proof (cases tv)
  case None
  then show ?thesis using a w
    by (auto simp: added_def add_outcome_def queued_def flags_bit Let_def deadline_def split: if_splits)
next
  case (Some t)
  then show ?thesis using a w
    by (auto simp: added_def add_outcome_def queued_def flags_bit Let_def split: if_splits)
qed

lemma added_self:
  assumes "added own s e tv s'"
  shows "(\<exists>t f. evs s' e = (evs s e)\<lparr>ev_timeout := t, ev_flags := f\<rparr>) \<and> set (tmq s') \<subseteq> insert e (set (tmq s))"
proof (cases tv)
  case None
  then have "evs s' e = (evs s e)\<lparr>ev_timeout := ev_timeout (evs s e), ev_flags := ev_flags (evs s' e)\<rparr>"
    "set (tmq s') = set (tmq s)"
    using assms by (simp_all add: added_def Let_def)
  then show ?thesis by blast
next
  case (Some t)
  then show ?thesis using assms unfolding added_def Let_def by auto
qed

text \<open>What the addition of an event of \<open>X\<close> amounts to on the epoll backend.\<close>

lemma client_add:
  assumes ok: "client_ok X s" and e: "e \<in> X"
  obtains r s' where "event_add ops s e tv = Some (r, s')" and "base_ok s'" and "epoll_own s' = epoll_own s" and "lib_frame s s'"
    and "r = -1 \<longrightarrow> (\<forall>x. x \<notin> epoll_own s \<longrightarrow> evs s' x = evs s x) \<and> set (tmq s') = set (tmq s)"
    and "r \<noteq> -1 \<longrightarrow> added (epoll_own s) s e tv s'"
proof -
  have b: "base_ok s" and clock: "clock_ok s"
    and u: "ev_base (evs s e) = Base" "e \<notin> epoll_own s" "wants_io (evs s e) \<Longrightarrow> epoll_fit (evs s e)"
    and safe: "clear_ncalls s e \<noteq> None"
    using ok e by (simp_all add: client_ok_def usable_def)
  obtain r s' where s': "event_add ops s e tv = Some (r, s')" "core_ok s'" "epoll_inv s' {x. inserted s' x}"
    "epoll_own s' = epoll_own s" "lib_frame s s'" "own_ok (epoll_own s) s'"
    "r = -1 \<Longrightarrow> (\<forall>x. x \<notin> epoll_own s \<longrightarrow> evs s' x = evs s x) \<and> actq s' = actq s \<and> set (tmq s') = set (tmq s) \<and>
       filter (\<lambda>x. x \<notin> epoll_own s) (inq s') = filter (\<lambda>x. x \<notin> epoll_own s) (inq s)"
    "r \<noteq> -1 \<Longrightarrow> added (epoll_own s) s e tv s'"
    by (rule ep.event_add_backend [OF base_okD(1,2) [OF b] u base_okD(3) [OF b] clock client_room [OF ok] safe]) blast+
  have "base_ok s'" using s'(2-4,6) by (simp add: base_ok_def)
  then show thesis by (rule that [OF s'(1) _ s'(4,5)]) (use s'(7,8) in blast)+
qed

lemma client_del:
  assumes ok: "client_ok X s" and e: "e \<in> X"
  obtains r s' where "event_del ops s e = Some (r, s')" and "client_ok X s'" and "deleted s e s'" and "epoll_own s' = epoll_own s"
proof -
  have b: "base_ok s" and tm: "set (tmq s) \<subseteq> X" and u: "ev_base (evs s e) = Base" and safe: "clear_ncalls s e \<noteq> None"
    and out: "x \<in> X \<Longrightarrow> x \<notin> epoll_own s" for x
    using ok e by (simp_all add: client_ok_def usable_def)
  obtain r s' where s': "event_del ops s e = Some (r, s')" "core_ok s'" "epoll_inv s' {x. inserted s' x}"
    "epoll_own s' = epoll_own s" "deleted s e s'"
    by (rule ep.event_del_backend [OF base_okD(1,2) [OF b] u safe])
  have D: "lib_frame s s'" "evs s' = with_flags e (off_queues (ev_flags (evs s e))) s" "set (tmq s') = set (tmq s) - {e}"
    using s'(5) by (simp_all add: deleted_def)
  have "evs s' x = evs s x" if "x \<in> epoll_own s" for x using that out e by (auto simp: D(2) with_flags_def)
  then have "own_ok (epoll_own s) s'" using base_okD(3) [OF b] ep.own_ok_cong [of "epoll_own s" s' s] by simp
  then have base: "base_ok s'" using s' by (simp add: base_ok_def)
  have "client_ok X s'"
    by (rule client_okI [OF ok base D(1) s'(4)]) (use D(2,3) tm in \<open>auto simp: with_flags_def\<close>)
  then show thesis by (rule that [OF s'(1) _ s'(5,4)])
qed

interpretation ec: event_client "epollops (Suc (Suc (Suc 0)))" client_ok
proof
  fix X and s :: "'b epoll_world_scheme" and e tv
  assume ok: "client_ok X s" and e: "e \<in> X"
  have tm: "set (tmq s) \<subseteq> X" and u: "wants_io (evs s e)" and out: "x \<in> X \<Longrightarrow> x \<notin> epoll_own s" for x
    using ok e by (simp_all add: client_ok_def usable_def)
  show "\<exists>r s'. event_add ops s e tv = Some (r, s') \<and> client_ok X s' \<and> untouched X e s s' \<and> add_outcome s e tv r s'"
  proof -
    obtain r s' where s': "event_add ops s e tv = Some (r, s')" "base_ok s'" "epoll_own s' = epoll_own s" "lib_frame s s'"
      "r = -1 \<longrightarrow> (\<forall>x. x \<notin> epoll_own s \<longrightarrow> evs s' x = evs s x) \<and> set (tmq s') = set (tmq s)"
      "r \<noteq> -1 \<longrightarrow> added (epoll_own s) s e tv s'"
      by (rule client_add [OF ok e, of tv])
    have os: "os s' = os s" by (rule lib_frameD(13) [OF s'(4)])
    show ?thesis
    proof (cases "r = -1")
      case True
      have "client_ok X s'"
        by (rule client_okI [OF ok s'(2,4,3)]) (use mp [OF s'(5) True] tm out in auto)
      then show ?thesis using s'(1,5) True e out os by (simp add: untouched_def add_outcome_def)
    next
      case False
      note a = mp [OF s'(6) False]
      have oth: "evs s' x = evs s x" if "x \<in> X" "x \<noteq> e" for x using a that out by (simp add: added_def)
      have self: "\<exists>t f. evs s' e = (evs s e)\<lparr>ev_timeout := t, ev_flags := f\<rparr>" "set (tmq s') \<subseteq> insert e (set (tmq s))"
        using added_self [OF a] by blast+
      have "client_ok X s'"
      proof (rule client_okI [OF ok s'(2,4,3)])
        fix x assume x: "x \<in> X"
        show "ev_base (evs s' x) = ev_base (evs s x) \<and> ev_events (evs s' x) = ev_events (evs s x) \<and>
          ev_fd (evs s' x) = ev_fd (evs s x) \<and> ev_pncalls (evs s' x) = ev_pncalls (evs s x) \<and> ev_ncalls (evs s' x) = ev_ncalls (evs s x)"
          using self(1) oth [OF x] by (cases "x = e") auto
      qed (use self(2) tm e in blast)
      then show ?thesis using s'(1) False added_outcome [OF a u, of r] oth os by (auto simp: untouched_def)
    qed
  qed
  show "\<exists>r s'. event_del ops s e = Some (r, s') \<and> client_ok X s' \<and> untouched X e s s' \<and> \<not> queued s' e"
  proof -
    obtain r s' where s': "event_del ops s e = Some (r, s')" "client_ok X s'" "deleted s e s'"
      by (rule client_del [OF ok e])
    then have "evs s' = with_flags e (off_queues (ev_flags (evs s e))) s" "os s' = os s" by (simp_all add: deleted_def lib_frameD)
    then show ?thesis using s'(1,2) by (auto simp: untouched_def with_flags_def queued_def flags_bit)
  qed
next
  fix X and s :: "'b epoll_world_scheme" and n
  assume ok: "client_ok X s"
  have "base_ok (s\<lparr>tick := n\<rparr>)" using ok by (simp add: client_ok_def base_ok_tick)
  then show "client_ok X (s\<lparr>tick := n\<rparr>)"
    by (rule client_okI [OF ok]) (use ok in \<open>simp_all add: lib_frame_def lib_rest_def epoll_own_def client_ok_def tmq_def\<close>)
qed

end
