(* ===== verification/Buffer.thy ===== *)
theory Buffer
  imports Prelude
begin

text \<open>
  The growable byte buffer of \<open>buffer.cpp\<close>. The block that \<open>orig_buffer\<close> points to is a list of
  byte cells (\<open>None\<close> for the null pointer); \<open>buffer\<close> is the offset of that pointer from the start
  of the block. Bytes are consumed by moving \<open>buffer\<close> forward (\<open>misalign\<close>) and space is
  reclaimed by moving the content back to the start (\<open>evbuffer_align\<close>).

  System calls are arguments: \<open>alloc n\<close> says whether \<open>realloc\<close> of \<open>n\<close> bytes succeeds, and
  \<open>ioctl\<close>, \<open>read\<close> and \<open>write\<close> are given by their result. The callback of a buffer
  is always the last thing an operation does; each operation returns the call to make, if any.
\<close>

subsection \<open>Data and operations\<close>

type_synonym byte = "8 word"

text \<open>A pending \<open>(*buf->cb)(buf, old, now, buf->cbarg)\<close>, with functions and arguments named by numbers.\<close>

datatype cbcall = Cbcall (cb_fun: nat) (cb_old: nat) (cb_now: nat) (cb_arg: nat)

record evbuffer =
  evb_buffer :: nat
  evb_orig :: "byte option list option"
  evb_misalign :: nat
  evb_totallen :: nat
  evb_off :: nat
  evb_cb :: "nat option"
  evb_cbarg :: nat

definition EVBUFFER_MAX_READ :: int where
  "EVBUFFER_MAX_READ = 4096"

definition evb_cells :: "evbuffer \<Rightarrow> byte option list" where
  "evb_cells b = (case evb_orig b of None \<Rightarrow> [] | Some m \<Rightarrow> m)"

definition evb_notify :: "evbuffer \<Rightarrow> nat \<Rightarrow> cbcall option" where
  "evb_notify b oldoff =
     (case evb_cb b of None \<Rightarrow> None | Some f \<Rightarrow> Some (Cbcall f oldoff (evb_off b) (evb_cbarg b)))"

definition evbuffer_align :: "evbuffer \<Rightarrow> evbuffer option" where
  "evbuffer_align b =
     (if evb_buffer b + evb_off b \<le> length (evb_cells b) then
        Some (b\<lparr>evb_orig := map_option (\<lambda>m. take (evb_off b) (drop (evb_buffer b) m) @ drop (evb_off b) m)
                              (evb_orig b),
                evb_buffer := 0, evb_misalign := 0\<rparr>)
      else None)"

definition evbuffer_new :: "(nat \<Rightarrow> bool) \<Rightarrow> evbuffer option" where
  "evbuffer_new alloc =
     (if alloc 56 then
        Some \<lparr>evb_buffer = 0, evb_orig = None, evb_misalign = 0, evb_totallen = 0, evb_off = 0,
              evb_cb = None, evb_cbarg = 0\<rparr>
      else None)"

text \<open>\<open>while (length < need) length <<= 1\<close> on \<open>size_t\<close>\<close>

partial_function (option) grow_length :: "nat \<Rightarrow> nat \<Rightarrow> nat option" where
  "grow_length len need = (if len < need then grow_length (u64 (2 * len)) need else Some len)"

definition evbuffer_expand :: "(nat \<Rightarrow> bool) \<Rightarrow> evbuffer \<Rightarrow> nat \<Rightarrow> (int \<times> evbuffer) option" where
  "evbuffer_expand alloc b datlen =
     (let need = u64 (u64 (evb_misalign b + evb_off b) + datlen)
      in if evb_totallen b \<ge> need then Some (0, b)
         else if evb_misalign b \<ge> datlen then do { b' \<leftarrow> evbuffer_align b; Some (0, b') }
         else do {
           len \<leftarrow> grow_length (if evb_totallen b < 256 then 256 else evb_totallen b) need;
           b' \<leftarrow> (if evb_buffer b \<noteq> 0 then evbuffer_align b else Some b);
           if alloc len then
             Some (0, b'\<lparr>evb_orig := Some (take len (evb_cells b') @ replicate (len - length (evb_cells b')) None),
                         evb_buffer := 0, evb_totallen := len\<rparr>)
           else Some (-1, b') })"

definition evbuffer_add ::
  "(nat \<Rightarrow> bool) \<Rightarrow> evbuffer \<Rightarrow> byte list \<Rightarrow> (int \<times> evbuffer \<times> cbcall option) option" where
  "evbuffer_add alloc b data =
     (let datlen = length data; need = u64 (u64 (evb_misalign b + evb_off b) + datlen); oldoff = evb_off b
      in do {
        (r, b1) \<leftarrow> (if evb_totallen b < need then evbuffer_expand alloc b datlen else Some (0, b));
        if r = -1 then Some (-1, b1, None)
        else do {
          m \<leftarrow> cells_write (evb_cells b1) (evb_buffer b1 + evb_off b1) data;
          let b2 = b1\<lparr>evb_orig := map_option (\<lambda>_. m) (evb_orig b1), evb_off := u64 (evb_off b1 + datlen)\<rparr>;
          Some (0, b2, if datlen \<noteq> 0 then evb_notify b2 oldoff else None) } })"

definition evbuffer_drain :: "evbuffer \<Rightarrow> nat \<Rightarrow> evbuffer \<times> cbcall option" where
  "evbuffer_drain b len =
     (let oldoff = evb_off b;
          b' = (if len \<ge> evb_off b then b\<lparr>evb_off := 0, evb_buffer := 0, evb_misalign := 0\<rparr>
                else b\<lparr>evb_buffer := evb_buffer b + len, evb_misalign := u64 (evb_misalign b + len),
                       evb_off := evb_off b - len\<rparr>)
      in (b', if evb_off b' \<noteq> oldoff then evb_notify b' oldoff else None))"

definition evbuffer_remove ::
  "evbuffer \<Rightarrow> nat \<Rightarrow> (int \<times> byte list \<times> evbuffer \<times> cbcall option) option" where
  "evbuffer_remove b datlen =
     (let nread = (if datlen \<ge> evb_off b then evb_off b else datlen)
      in do {
        data \<leftarrow> cells_read (evb_cells b) (evb_buffer b) nread;
        let (b', c) = evbuffer_drain b nread;
        Some (int_of_size nread, data, b', c) })"

text \<open>How many bytes \<open>evbuffer_read\<close> asks for; \<open>ioctl\<close> is the count \<open>FIONREAD\<close> stores, if it succeeds.\<close>

definition evbuffer_read_size :: "evbuffer \<Rightarrow> int option \<Rightarrow> int \<Rightarrow> int" where
  "evbuffer_read_size b ioctl howmuch =
     (let n = (case ioctl of
                 None \<Rightarrow> EVBUFFER_MAX_READ
               | Some n \<Rightarrow>
                   if n \<le> 0 then EVBUFFER_MAX_READ
                   else if n > EVBUFFER_MAX_READ \<and> n > howmuch then
                     let n' = (if size_of_int n > u64 (4 * evb_totallen b)
                               then int_of_size (u64 (4 * evb_totallen b)) else n)
                     in if n' < EVBUFFER_MAX_READ then EVBUFFER_MAX_READ else n'
                   else n)
      in if howmuch < 0 \<or> howmuch > n then n else howmuch)"

text \<open>The result of \<open>read\<close> is its \<open>errno\<close> or the bytes it stored.\<close>

definition evbuffer_read ::
  "(nat \<Rightarrow> bool) \<Rightarrow> int option \<Rightarrow> (nat \<Rightarrow> int + byte list) \<Rightarrow> evbuffer \<Rightarrow> int \<Rightarrow>
     (int \<times> evbuffer \<times> cbcall option) option" where
  "evbuffer_read alloc ioctl rd b howmuch0 =
     (let oldoff = evb_off b; howmuch = size_of_int (evbuffer_read_size b ioctl howmuch0)
      in do {
        (r, b1) \<leftarrow> evbuffer_expand alloc b howmuch;
        if r = -1 then Some (-1, b1, None)
        else case rd howmuch of
          Inl errno \<Rightarrow> Some (-1, b1, None)
        | Inr bs \<Rightarrow> do {
            m \<leftarrow> cells_write (evb_cells b1) (evb_buffer b1 + evb_off b1) bs;
            let b2 = b1\<lparr>evb_orig := map_option (\<lambda>_. m) (evb_orig b1)\<rparr>;
            let n = int_of_size (length bs);
            if n = -1 then Some (-1, b2, None)
            else if n = 0 then Some (0, b2, None)
            else do {
              let b3 = b2\<lparr>evb_off := u64 (evb_off b2 + size_of_int n)\<rparr>;
              Some (n, b3, if evb_off b3 \<noteq> oldoff then evb_notify b3 oldoff else None) } } })"

text \<open>The result of \<open>write\<close> is its \<open>errno\<close> or the number of bytes it took.\<close>

definition evbuffer_write ::
  "(byte list \<Rightarrow> int + nat) \<Rightarrow> evbuffer \<Rightarrow> (int \<times> evbuffer \<times> cbcall option) option" where
  "evbuffer_write wr b =
     do { bs \<leftarrow> cells_read (evb_cells b) (evb_buffer b) (evb_off b);
          case wr bs of
            Inl errno \<Rightarrow> Some (-1, b, None)
          | Inr k \<Rightarrow>
              let n = int_of_size k
              in if n = -1 then Some (-1, b, None)
                 else if n = 0 then Some (0, b, None)
                 else case evbuffer_drain b (size_of_int n) of (b', c) \<Rightarrow> Some (n, b', c) }"

definition evbuffer_setcb :: "evbuffer \<Rightarrow> nat option \<Rightarrow> nat \<Rightarrow> evbuffer" where
  "evbuffer_setcb b cb arg = b\<lparr>evb_cb := cb, evb_cbarg := arg\<rparr>"

subsection \<open>The bytes a buffer holds, and its invariant\<close>

definition contents :: "evbuffer \<Rightarrow> byte list" where
  "contents b = map the (take (evb_off b) (drop (evb_buffer b) (evb_cells b)))"

text \<open>
  The pointer \<open>buffer\<close> is \<open>misalign\<close> bytes into the block, the block has \<open>totallen\<close> bytes, the
  content lies inside it and is initialised; the block is empty or its size is a power of
  two of at least 256 (\<open>len_ok\<close>).
\<close>

definition len_ok :: "nat \<Rightarrow> bool" where
  "len_ok n \<longleftrightarrow> n = 0 \<or> (\<exists>k\<le>63. n = 2 ^ k \<and> 8 \<le> k)"

definition evb_ok :: "evbuffer \<Rightarrow> bool" where
  "evb_ok b \<longleftrightarrow> evb_buffer b = evb_misalign b \<and> evb_totallen b = length (evb_cells b) \<and>
     evb_misalign b + evb_off b \<le> evb_totallen b \<and> len_ok (evb_totallen b) \<and>
     None \<notin> set (take (evb_off b) (drop (evb_buffer b) (evb_cells b)))"

lemma evb_ok_read: "evb_ok b \<Longrightarrow> n \<le> evb_off b \<Longrightarrow>
    cells_read (evb_cells b) (evb_buffer b) n = Some (take n (contents b))"
  unfolding cells_read_Some evb_ok_def contents_def no_None_iff
  by (metis (no_types, lifting) add_mono le_trans min.absorb1 nat_le_linear order_refl take_map take_take
      add_le_cancel_left)

lemma length_contents [simp]: "evb_ok b \<Longrightarrow> length (contents b) = evb_off b"
  by (auto simp: contents_def evb_ok_def)

subsection \<open>The doubling loop\<close>

lemma grow_length_power:
  assumes "need \<le> 2 ^ 63" and "k \<le> 63"
  shows "\<exists>j. grow_length (2 ^ k) need = Some (2 ^ j) \<and> need \<le> 2 ^ j \<and> k \<le> j \<and> j \<le> 63 \<and>
    2 ^ j \<le> max (2 ^ k) (2 * need)"
  using assms(2)
proof (induction "63 - k" arbitrary: k)
  case 0
  then have "k = 63" by simp
  then show ?case using assms(1) by (intro exI [of _ 63]) (simp add: grow_length.simps)
next
  case (Suc m)
  show ?case
  proof (cases "2 ^ k < need")
    case False
    then show ?thesis using Suc.prems by (intro exI [of _ k]) (simp add: grow_length.simps)
  next
    case True
    have "(2 :: nat) ^ Suc k \<le> 2 ^ 63" using Suc.hyps(2) by (intro power_increasing) auto
    then have "u64 (2 * 2 ^ k) = 2 ^ Suc k" by (simp add: u64_def)
    then have "grow_length (2 ^ k) need = grow_length (2 ^ Suc k) need"
      using True by (simp add: grow_length.simps [of "2 ^ k"])
    moreover obtain j where "grow_length (2 ^ Suc k) need = Some (2 ^ j)" "need \<le> 2 ^ j"
      "Suc k \<le> j" "j \<le> 63" "2 ^ j \<le> max (2 ^ Suc k) (2 * need)"
    proof -
      have "m = 63 - Suc k" "Suc k \<le> 63" using Suc.hyps(2) by arith+
      from Suc.hyps(1) [OF this] that show thesis by blast
    qed
    ultimately show ?thesis using True
      by (intro exI [of _ j]) (auto simp: max_def split: if_splits)
  qed
qed

text \<open>Past \<open>2 ^ 63\<close> the doubled length wraps to 0 and stays there: the loop never ends.\<close>

lemma grow_length_returns:
  assumes "grow_length len need = Some r" and "len = 0 \<or> (\<exists>k\<le>63. len = 2 ^ k)"
  shows "need \<le> 2 ^ 63"
proof -
  have "(len = 0 \<or> (\<exists>k\<le>63. len = 2 ^ k)) \<longrightarrow> need \<le> 2 ^ 63"
  proof (rule grow_length.raw_induct [where P = "\<lambda>len need r.
        (len = 0 \<or> (\<exists>k\<le>63. len = 2 ^ k)) \<longrightarrow> need \<le> 2 ^ 63", OF _ assms(1)])
    fix f :: "nat \<Rightarrow> nat \<Rightarrow> nat option" and len need r :: nat
    assume IH: "\<And>len need r. f len need = Some r \<Longrightarrow>
        (len = 0 \<or> (\<exists>k\<le>63. len = 2 ^ k)) \<longrightarrow> need \<le> 2 ^ 63"
      and eq: "(if len < need then f (u64 (2 * len)) need else Some len) = Some r"
    show "(len = 0 \<or> (\<exists>k\<le>63. len = 2 ^ k)) \<longrightarrow> need \<le> 2 ^ 63"
    proof
      assume len: "len = 0 \<or> (\<exists>k\<le>63. len = 2 ^ k)"
      have le: "len \<le> 2 ^ 63"
        using len by (auto intro!: power_increasing simp del: power_numeral)
      have "u64 (2 * len) = 0 \<or> (\<exists>k\<le>63. u64 (2 * len) = 2 ^ k)"
      proof (cases "len = 0 \<or> len = 2 ^ 63")
        case True
        then show ?thesis by (auto simp: u64_def)
      next
        case False
        then obtain k where k: "len = 2 ^ k" "k \<le> 63" using len by auto
        moreover have "k \<noteq> 63" using k(1) False by auto
        ultimately have "(2 :: nat) ^ Suc k \<le> 2 ^ 63" by (intro power_increasing) auto
        then have "u64 (2 * len) = 2 ^ Suc k" using k by (simp add: u64_def)
        moreover have "Suc k \<le> 63" using k(2) \<open>k \<noteq> 63\<close> by simp
        ultimately show ?thesis by blast
      qed
      then show "need \<le> 2 ^ 63" using IH [of "u64 (2 * len)" need r] eq le
        by (cases "len < need") auto
    qed
  qed
  with assms(2) show ?thesis by blast
qed

subsection \<open>The operations keep the invariant and act on the content\<close>

lemma evb_ok_power: "evb_ok b \<Longrightarrow> evb_totallen b = 0 \<or> (\<exists>k\<le>63. evb_totallen b = 2 ^ k \<and> 8 \<le> k)"
  unfolding evb_ok_def len_ok_def by blast

lemma len_ok_less: "len_ok n \<Longrightarrow> n \<le> 2 ^ 63"
  unfolding len_ok_def by (auto intro!: power_increasing simp del: power_numeral)

lemma evbuffer_align_ok:
  assumes "evb_ok b"
  obtains b' where "evbuffer_align b = Some b'" and "evb_ok b'" and "contents b' = contents b"
    and "evb_off b' = evb_off b" and "evb_buffer b' = 0" and "evb_totallen b' = evb_totallen b"
    and "evb_cb b' = evb_cb b" and "evb_cbarg b' = evb_cbarg b"
proof -
  define m where "m = evb_cells b"
  define b' where "b' = b\<lparr>evb_orig := map_option (\<lambda>m. take (evb_off b) (drop (evb_buffer b) m) @
      drop (evb_off b) m) (evb_orig b), evb_buffer := 0, evb_misalign := 0\<rparr>"
  have le: "evb_buffer b + evb_off b \<le> length m" using assms by (simp add: evb_ok_def m_def)
  have cells: "evb_cells b' = take (evb_off b) (drop (evb_buffer b) m) @ drop (evb_off b) m"
    by (auto simp: b'_def evb_cells_def m_def split: option.splits)
  have tk: "take (evb_off b) (evb_cells b') = take (evb_off b) (drop (evb_buffer b) m)"
    using le by (simp add: cells)
  have f: "evb_off b' = evb_off b" "evb_buffer b' = 0" "evb_misalign b' = 0"
    "evb_totallen b' = evb_totallen b" by (simp_all add: b'_def)
  have "contents b' = contents b" using tk f by (simp add: contents_def flip: m_def)
  moreover have "length (evb_cells b') = length m" using le by (simp add: cells)
  then have "evb_ok b'" using assms tk f by (auto simp: evb_ok_def simp flip: m_def)
  moreover have "evbuffer_align b = Some b'"
    using le by (simp add: evbuffer_align_def b'_def m_def)
  moreover have "evb_cb b' = evb_cb b" "evb_cbarg b' = evb_cbarg b" by (simp_all add: b'_def)
  ultimately show thesis using that f by blast
qed

lemma evb_ok_realloc:
  assumes "evb_ok b" and "evb_buffer b = 0" and "evb_totallen b \<le> 2 ^ j" and "8 \<le> j" and "j \<le> 63"
  defines "b' \<equiv> b\<lparr>evb_orig := Some (take (2 ^ j) (evb_cells b) @
      replicate (2 ^ j - length (evb_cells b)) None), evb_buffer := 0, evb_totallen := 2 ^ j\<rparr>"
  shows "evb_ok b'" and "contents b' = contents b"
proof -
  have len: "length (evb_cells b) \<le> 2 ^ j" "evb_off b \<le> length (evb_cells b)"
    using assms by (auto simp: evb_ok_def)
  have cells: "evb_cells b' = evb_cells b @ replicate (2 ^ j - length (evb_cells b)) None"
    using len by (simp add: b'_def evb_cells_def)
  have tk: "take (evb_off b) (evb_cells b') = take (evb_off b) (evb_cells b)"
    using len by (simp add: cells)
  have f: "evb_off b' = evb_off b" "evb_buffer b' = 0" "evb_misalign b' = evb_misalign b"
    "evb_totallen b' = 2 ^ j" "length (evb_cells b') = 2 ^ j"
    using len by (simp_all add: b'_def evb_cells_def)
  have "len_ok (2 ^ j)" using assms(4,5) by (auto simp: len_ok_def)
  then show "evb_ok b'" using assms(1-3) f tk by (auto simp: evb_ok_def)
  show "contents b' = contents b" using tk assms(2) f by (simp add: contents_def)
qed

lemma evbuffer_expand_correct:
  assumes ok: "evb_ok b" and need: "evb_misalign b + evb_off b + n \<le> 2 ^ 63"
  obtains r b' where "evbuffer_expand alloc b n = Some (r, b')" and "evb_ok b'"
    and "contents b' = contents b" and "evb_off b' = evb_off b"
    and "evb_cb b' = evb_cb b" and "evb_cbarg b' = evb_cbarg b"
    and "r = 0 \<and> evb_misalign b' + evb_off b' + n \<le> evb_totallen b' \<or> r = -1"
    and "\<forall>k. alloc k \<Longrightarrow> r = 0"
    and "evb_totallen b' \<le> max (max 256 (evb_totallen b)) (4 * (evb_off b + n))"
proof -
  let ?need = "evb_misalign b + evb_off b + n"
  have n64: "u64 (u64 (evb_misalign b + evb_off b) + n) = ?need" using need by (simp add: u64_def)
  show thesis
  proof (cases "evb_totallen b \<ge> ?need")
    case True
    then show thesis using that [of 0 b] ok n64 by (simp add: evbuffer_expand_def)
  next
    case small: False
    show thesis
    proof (cases "evb_misalign b \<ge> n")
      case True
      obtain b' where b': "evbuffer_align b = Some b'" "evb_ok b'" "contents b' = contents b"
        "evb_off b' = evb_off b" "evb_buffer b' = 0" "evb_totallen b' = evb_totallen b"
        "evb_cb b' = evb_cb b" "evb_cbarg b' = evb_cbarg b"
        by (rule evbuffer_align_ok [OF ok])
      have "evb_misalign b' + evb_off b' + n \<le> evb_totallen b'"
        using b' ok True by (simp add: evb_ok_def)
      then show thesis
        using that [of 0 b'] b' small True n64 by (simp add: evbuffer_expand_def)
    next
      case False
      obtain k where k: "(if evb_totallen b < 256 then 256 else evb_totallen b) = 2 ^ k" "8 \<le> k" "k \<le> 63"
      proof (cases "evb_totallen b < 256")
        case True
        then show thesis using that [of 8] by simp
      next
        case False
        then show thesis using that evb_ok_power [OF ok] by auto
      qed
      obtain j where j: "grow_length (2 ^ k) ?need = Some (2 ^ j)" "?need \<le> 2 ^ j" "k \<le> j" "j \<le> 63"
        "2 ^ j \<le> max (2 ^ k) (2 * ?need)"
        using grow_length_power [OF need k(3)] by blast
      obtain b1 where b1: "(if evb_buffer b \<noteq> 0 then evbuffer_align b else Some b) = Some b1"
        "evb_ok b1" "contents b1 = contents b" "evb_off b1 = evb_off b" "evb_buffer b1 = 0"
        "evb_totallen b1 = evb_totallen b" "evb_cb b1 = evb_cb b" "evb_cbarg b1 = evb_cbarg b"
      proof (cases "evb_buffer b = 0")
        case True
        then show thesis using that [of b] ok by simp
      next
        case False
        obtain b2 where "evbuffer_align b = Some b2" "evb_ok b2" "contents b2 = contents b"
          "evb_off b2 = evb_off b" "evb_buffer b2 = 0" "evb_totallen b2 = evb_totallen b"
          "evb_cb b2 = evb_cb b" "evb_cbarg b2 = evb_cbarg b"
          by (rule evbuffer_align_ok [OF ok])
        with False show thesis by (intro that [of b2]) simp_all
      qed
      have le: "evb_totallen b1 \<le> 2 ^ j" using small j(2) b1(6) by simp
      let ?b' = "b1\<lparr>evb_orig := Some (take (2 ^ j) (evb_cells b1) @
        replicate (2 ^ j - length (evb_cells b1)) None), evb_buffer := 0, evb_totallen := 2 ^ j\<rparr>"
      have "8 \<le> j" using j(3) k(2) by simp
      note re = evb_ok_realloc [OF b1(2,5) le this j(4)]
      have m1: "evb_misalign b1 = 0" using b1(2,5) by (simp add: evb_ok_def)
      have ex: "evbuffer_expand alloc b n = Some (if alloc (2 ^ j) then (0, ?b') else (-1, b1))"
        unfolding evbuffer_expand_def Let_def n64 k(1) j(1) b1(1) using small False by simp
      have "2 ^ k \<le> max 256 (evb_totallen b)" using k(1) by (auto split: if_splits)
      moreover have "2 * ?need \<le> 4 * (evb_off b + n)" using False by simp
      ultimately have bound: "2 ^ j \<le> max (max 256 (evb_totallen b)) (4 * (evb_off b + n))"
        by (rule order_trans [OF j(5) max.mono])
      have room: "evb_misalign ?b' + evb_off ?b' + n \<le> evb_totallen ?b'"
        using m1 b1(4) j(2) by simp
      show thesis
      proof (cases "alloc (2 ^ j)")
        case True
        show thesis
          by (rule that [of 0 ?b']) (use ex True re b1 room bound in \<open>simp_all\<close>)
      next
        case nomem: False
        show thesis
        proof (rule that [of "-1" b1])
          show "\<forall>k. alloc k \<Longrightarrow> -1 = (0 :: int)" using nomem by blast
        qed (use nomem ex b1 in simp_all)
      qed
    qed
  qed
qed

lemma cells_write_region:
  assumes "cells_write cs i ys = Some m" and "i = p + n" and "take n (drop p cs) = map Some xs"
  shows "take (n + length ys) (drop p m) = map Some (xs @ ys)"
proof -
  have m: "m = take i cs @ map Some ys @ drop (i + length ys) cs" "i + length ys \<le> length cs"
    using assms(1) by (auto simp: cells_write_def split: if_splits)
  have "drop p (take i cs) = map Some xs"
    using assms(2,3) by (simp add: drop_take)
  moreover have "length xs = n"
    using arg_cong [OF assms(3), of length] m(2) assms(2) by simp
  ultimately show ?thesis using m assms(2) by simp
qed

text \<open>Writing bytes behind the content of a buffer that has room for them.\<close>

lemma evb_append_cells:
  assumes ok: "evb_ok b" and room: "evb_misalign b + evb_off b + length ys \<le> evb_totallen b"
  obtains m where "cells_write (evb_cells b) (evb_buffer b + evb_off b) ys = Some m"
    and "evb_ok (b\<lparr>evb_orig := map_option (\<lambda>_. m) (evb_orig b), evb_off := evb_off b + length ys\<rparr>)"
    and "contents (b\<lparr>evb_orig := map_option (\<lambda>_. m) (evb_orig b), evb_off := evb_off b + length ys\<rparr>)
      = contents b @ ys"
proof -
  let ?c = "evb_cells b" and ?n = "evb_off b"
  obtain m where m: "cells_write ?c (evb_buffer b + ?n) ys = Some m"
    using ok room by (simp add: cells_write_def evb_ok_def)
  let ?b = "b\<lparr>evb_orig := map_option (\<lambda>_. m) (evb_orig b), evb_off := ?n + length ys\<rparr>"
  have "take ?n (drop (evb_buffer b) ?c) = map Some (contents b)"
    using ok unfolding evb_ok_def contents_def no_None_iff by (elim conjE) assumption
  note reg = cells_write_region [OF m refl this]
  have cells: "evb_cells ?b = m"
    using m by (auto simp: evb_cells_def cells_write_def split: option.splits if_splits)
  have "contents ?b = contents b @ ys"
    using reg by (simp add: contents_def cells o_def)
  moreover have "evb_ok ?b"
    using ok room reg length_cells_write [OF m] by (auto simp: evb_ok_def cells)
  ultimately show thesis using that m by blast
qed

lemma u64_fits: "x \<le> 2 ^ 63 \<Longrightarrow> u64 x = x"
  by (simp add: u64_def)

lemma evb_ok_fits: "evb_ok b \<Longrightarrow> evb_misalign b + evb_off b \<le> 2 ^ 63"
  using len_ok_less [of "evb_totallen b"] by (auto simp: evb_ok_def)

lemma evbuffer_add_correct:
  assumes ok: "evb_ok b" and need: "evb_misalign b + evb_off b + length ys \<le> 2 ^ 63"
  obtains r b' c where "evbuffer_add alloc b ys = Some (r, b', c)" and "evb_ok b'"
    and "evb_cb b' = evb_cb b" and "evb_cbarg b' = evb_cbarg b"
    and "r = 0 \<and> contents b' = contents b @ ys \<and>
        c = (if ys = [] then None else evb_notify b' (evb_off b)) \<or>
      r = -1 \<and> contents b' = contents b \<and> c = None"
    and "\<forall>k. alloc k \<Longrightarrow> r = 0"
    and "evb_totallen b' \<le> max (max 256 (evb_totallen b)) (4 * (evb_off b + length ys))"
proof -
  let ?n = "length ys"
  have n64: "u64 (u64 (evb_misalign b + evb_off b) + ?n) = evb_misalign b + evb_off b + ?n"
    using need by (simp add: u64_def)
  obtain r b1 where b1: "(if evb_totallen b < evb_misalign b + evb_off b + ?n
      then evbuffer_expand alloc b ?n else Some (0, b)) = Some (r, b1)" "evb_ok b1"
    "contents b1 = contents b" "evb_off b1 = evb_off b" "evb_cb b1 = evb_cb b" "evb_cbarg b1 = evb_cbarg b"
    "r = 0 \<and> evb_misalign b1 + evb_off b1 + ?n \<le> evb_totallen b1 \<or> r = -1"
    "\<forall>k. alloc k \<Longrightarrow> r = 0"
    "evb_totallen b1 \<le> max (max 256 (evb_totallen b)) (4 * (evb_off b + ?n))"
  proof (cases "evb_totallen b < evb_misalign b + evb_off b + ?n")
    case True
    show thesis
      by (rule evbuffer_expand_correct [OF ok need, of alloc]) (use that True in auto)
  next
    case False
    then show thesis using that [of 0 b] ok by auto
  qed
  show thesis
  proof (cases "r = 0")
    case False
    then have "evbuffer_add alloc b ys = Some (-1, b1, None)"
      using b1 n64 by (simp add: evbuffer_add_def Let_def)
    then show thesis using that [of "-1" b1 None] b1 False by auto
  next
    case True
    then have room: "evb_misalign b1 + evb_off b1 + ?n \<le> evb_totallen b1" using b1(7) by simp
    obtain m where m: "cells_write (evb_cells b1) (evb_buffer b1 + evb_off b1) ys = Some m"
      "evb_ok (b1\<lparr>evb_orig := map_option (\<lambda>_. m) (evb_orig b1), evb_off := evb_off b1 + ?n\<rparr>)"
      "contents (b1\<lparr>evb_orig := map_option (\<lambda>_. m) (evb_orig b1), evb_off := evb_off b1 + ?n\<rparr>)
        = contents b1 @ ys"
      by (rule evb_append_cells [OF b1(2) room])
    let ?b = "b1\<lparr>evb_orig := map_option (\<lambda>_. m) (evb_orig b1), evb_off := evb_off b1 + ?n\<rparr>"
    have "u64 (evb_off b1 + ?n) = evb_off b1 + ?n"
      using need b1(4) by (intro u64_fits) simp
    then have "evbuffer_add alloc b ys
        = Some (0, ?b, if ys = [] then None else evb_notify ?b (evb_off b))"
      using b1(1) True m(1) n64 by (simp add: evbuffer_add_def Let_def)
    then show thesis using that [of 0 ?b] b1 m by simp
  qed
qed

lemma evbuffer_drain_correct:
  assumes ok: "evb_ok b"
  shows "evb_ok (fst (evbuffer_drain b n))"
    and "contents (fst (evbuffer_drain b n)) = drop n (contents b)"
    and "snd (evbuffer_drain b n) =
      (if n = 0 \<or> evb_off b = 0 then None else evb_notify (fst (evbuffer_drain b n)) (evb_off b))"
    and "evb_cb (fst (evbuffer_drain b n)) = evb_cb b"
    and "evb_cbarg (fst (evbuffer_drain b n)) = evb_cbarg b"
    and "evb_totallen (fst (evbuffer_drain b n)) = evb_totallen b"
proof -
  let ?b = "fst (evbuffer_drain b n)"
  have fits: "evb_misalign b + evb_off b \<le> 2 ^ 63" by (rule evb_ok_fits [OF ok])
  have cells: "evb_cells ?b = evb_cells b"
    by (simp add: evbuffer_drain_def Let_def evb_cells_def)
  show "evb_cb ?b = evb_cb b" "evb_cbarg ?b = evb_cbarg b" "evb_totallen ?b = evb_totallen b"
    by (simp_all add: evbuffer_drain_def Let_def)
  show "snd (evbuffer_drain b n) = (if n = 0 \<or> evb_off b = 0 then None else evb_notify ?b (evb_off b))"
    by (auto simp: evbuffer_drain_def Let_def)
  show c: "contents ?b = drop n (contents b)"
  proof (cases "n \<ge> evb_off b")
    case True
    then show ?thesis using ok by (simp add: evbuffer_drain_def Let_def contents_def)
  next
    case False
    then show ?thesis
      using ok by (simp add: evbuffer_drain_def Let_def contents_def evb_cells_def
        drop_map drop_take add.commute)
  qed
  show "evb_ok ?b"
  proof (cases "n \<ge> evb_off b")
    case True
    then show ?thesis using ok cells by (auto simp: evbuffer_drain_def Let_def evb_ok_def)
  next
    case False
    then have "u64 (evb_misalign b + n) = evb_misalign b + n" using fits by (intro u64_fits) simp
    moreover have "take (evb_off b - n) (drop (evb_buffer b + n) (evb_cells b))
        = drop n (take (evb_off b) (drop (evb_buffer b) (evb_cells b)))"
      by (simp add: drop_take add.commute)
    moreover have "None \<notin> set (drop n (take (evb_off b) (drop (evb_buffer b) (evb_cells b))))"
      using ok in_set_dropD unfolding evb_ok_def by fast
    ultimately show ?thesis
      using ok cells False by (auto simp: evbuffer_drain_def Let_def evb_ok_def)
  qed
qed

lemma evbuffer_remove_correct:
  assumes ok: "evb_ok b"
  obtains b' c where "evbuffer_remove b n = Some (int_of_size (min n (evb_off b)), take n (contents b), b', c)"
    and "evb_ok b'" and "contents b' = drop n (contents b)"
    and "evb_cb b' = evb_cb b" and "evb_cbarg b' = evb_cbarg b"
    and "c = (if n = 0 \<or> evb_off b = 0 then None else evb_notify b' (evb_off b))"
    and "evb_totallen b' = evb_totallen b"
proof -
  let ?k = "min n (evb_off b)"
  note drain = evbuffer_drain_correct [OF ok, of ?k]
  have len: "length (contents b) = evb_off b" using ok by simp
  have "evbuffer_remove b n = Some (int_of_size ?k, take ?k (contents b), evbuffer_drain b ?k)"
    using evb_ok_read [OF ok, of ?k]
    by (auto simp: evbuffer_remove_def Let_def min_def split: prod.splits)
  moreover have "take ?k (contents b) = take n (contents b)" "drop ?k (contents b) = drop n (contents b)"
    using len by (simp_all add: min_def)
  ultimately show thesis
    using that [of "fst (evbuffer_drain b ?k)" "snd (evbuffer_drain b ?k)"] drain
    by (simp add: min_def split: if_splits)
qed

text \<open>What \<open>FIONREAD\<close> reports and what the caller asks for fit in an \<open>int\<close>.\<close>

lemma evbuffer_read_size_bounds:
  assumes "howmuch < 2 ^ 31" and "\<forall>n. ioctl = Some n \<longrightarrow> n < 2 ^ 31"
  shows "0 \<le> evbuffer_read_size b ioctl howmuch" and "evbuffer_read_size b ioctl howmuch < 2 ^ 31"
    and "howmuch \<noteq> 0 \<Longrightarrow> 0 < evbuffer_read_size b ioctl howmuch"
    and "0 \<le> howmuch \<Longrightarrow> evbuffer_read_size b ioctl howmuch \<le> howmuch"
proof -
  have "int_of_size k < 2 ^ 31" for k
    unfolding int_of_size_def using sint_less [of "word_of_nat k :: 32 word"] by simp
  then show "0 \<le> evbuffer_read_size b ioctl howmuch" "evbuffer_read_size b ioctl howmuch < 2 ^ 31"
    "howmuch \<noteq> 0 \<Longrightarrow> 0 < evbuffer_read_size b ioctl howmuch"
    "0 \<le> howmuch \<Longrightarrow> evbuffer_read_size b ioctl howmuch \<le> howmuch"
    using assms by (auto simp: evbuffer_read_size_def Let_def EVBUFFER_MAX_READ_def split: option.split)
qed

lemma evbuffer_read_correct:
  assumes ok: "evb_ok b" and fits: "evb_misalign b + evb_off b + 2 ^ 31 \<le> 2 ^ 63"
    and howmuch: "howmuch < 2 ^ 31" and ioctl: "\<forall>n. ioctl = Some n \<longrightarrow> n < 2 ^ 31"
    and rd: "\<forall>k bs. rd k = Inr bs \<longrightarrow> length bs \<le> k"
  obtains r b' c where "evbuffer_read alloc ioctl rd b howmuch = Some (r, b', c)" and "evb_ok b'"
    and "evb_cb b' = evb_cb b" and "evb_cbarg b' = evb_cbarg b"
    and "r = -1 \<and> contents b' = contents b \<and> c = None \<or>
      (\<exists>bs. rd (nat (evbuffer_read_size b ioctl howmuch)) = Inr bs \<and> r = int (length bs) \<and>
        contents b' = contents b @ bs \<and> c = (if bs = [] then None else evb_notify b' (evb_off b)))"
    and "(\<forall>k. alloc k) \<and> r = -1 \<longrightarrow> (\<exists>e. rd (nat (evbuffer_read_size b ioctl howmuch)) = Inl e)"
proof -
  let ?k = "nat (evbuffer_read_size b ioctl howmuch)"
  note size = evbuffer_read_size_bounds [OF howmuch ioctl, where b = b]
  have k: "size_of_int (evbuffer_read_size b ioctl howmuch) = ?k" "?k < 2 ^ 31"
    using size(1,2) by (auto simp: size_of_int_nonneg)
  have need: "evb_misalign b + evb_off b + ?k \<le> 2 ^ 63" using k fits by simp
  obtain r b1 where b1: "evbuffer_expand alloc b ?k = Some (r, b1)" "evb_ok b1"
    "contents b1 = contents b" "evb_off b1 = evb_off b" "evb_cb b1 = evb_cb b" "evb_cbarg b1 = evb_cbarg b"
    "r = 0 \<and> evb_misalign b1 + evb_off b1 + ?k \<le> evb_totallen b1 \<or> r = -1" "(\<forall>k. alloc k) \<longrightarrow> r = 0"
    by (rule evbuffer_expand_correct [OF ok need, of alloc]) blast
  show thesis
  proof (cases "r = -1 \<or> (\<exists>e. rd ?k = Inl e)")
    case True
    then have "evbuffer_read alloc ioctl rd b howmuch = Some (-1, b1, None)"
      using b1(1) k(1) by (auto simp: evbuffer_read_def Let_def)
    then show thesis using that [of "-1" b1 None] b1 True by auto
  next
    case False
    then obtain bs where bs: "rd ?k = Inr bs" "r = 0" using b1(7) by (cases "rd ?k") auto
    let ?n = "length bs"
    have n: "?n \<le> ?k" using rd bs(1) by blast
    then have n31: "?n < 2 ^ 31" using k(2) by simp
    have room: "evb_misalign b1 + evb_off b1 + ?n \<le> evb_totallen b1" using b1(7) bs(2) n by simp
    obtain m where m: "cells_write (evb_cells b1) (evb_buffer b1 + evb_off b1) bs = Some m"
      "evb_ok (b1\<lparr>evb_orig := map_option (\<lambda>_. m) (evb_orig b1), evb_off := evb_off b1 + ?n\<rparr>)"
      "contents (b1\<lparr>evb_orig := map_option (\<lambda>_. m) (evb_orig b1), evb_off := evb_off b1 + ?n\<rparr>)
        = contents b1 @ bs"
      by (rule evb_append_cells [OF b1(2) room])
    let ?b = "b1\<lparr>evb_orig := map_option (\<lambda>_. m) (evb_orig b1), evb_off := evb_off b1 + ?n\<rparr>"
    have i: "int_of_size ?n = int ?n" "size_of_int (int ?n) = ?n"
      using n31 by (simp_all add: int_of_size_small size_of_int_nonneg)
    have o: "u64 (evb_off b1 + ?n) = evb_off b1 + ?n" using fits n31 b1(4) by (intro u64_fits) simp
    have "evbuffer_read alloc ioctl rd b howmuch
        = Some (int ?n, ?b, if bs = [] then None else evb_notify ?b (evb_off b))"
      using b1(1,4) k(1) bs m(1) i o by (simp add: evbuffer_read_def Let_def)
    then show thesis using that [of "int ?n" ?b] b1 bs m by simp
  qed
qed

lemma evbuffer_write_correct:
  assumes ok: "evb_ok b" and wr: "\<And>k. wr (contents b) = Inr k \<Longrightarrow> k \<le> evb_off b \<and> k < 2 ^ 31"
  obtains r b' c where "evbuffer_write wr b = Some (r, b', c)" and "evb_ok b'"
    and "evb_cb b' = evb_cb b" and "evb_cbarg b' = evb_cbarg b"
    and "(\<exists>e. wr (contents b) = Inl e) \<and> r = -1 \<and> b' = b \<and> c = None \<or>
      (\<exists>k. wr (contents b) = Inr k \<and> r = int k \<and> contents b' = drop k (contents b) \<and>
        c = (if k = 0 then None else evb_notify b' (evb_off b)))"
proof -
  have get: "cells_read (evb_cells b) (evb_buffer b) (evb_off b) = Some (contents b)"
    using evb_ok_read [OF ok order_refl] ok by simp
  show thesis
  proof (cases "wr (contents b)")
    case (Inl e)
    then have "evbuffer_write wr b = Some (-1, b, None)" using get by (simp add: evbuffer_write_def)
    then show thesis using that [of "-1" b None] ok Inl by simp
  next
    case (Inr k)
    then have k: "int_of_size k = int k" "size_of_int (int k) = k" "k \<le> evb_off b"
      using wr [OF Inr] by (simp_all add: int_of_size_small size_of_int_nonneg)
    let ?d = "evbuffer_drain b k"
    note drain = evbuffer_drain_correct [OF ok, of k]
    show thesis
    proof (cases "k = 0")
      case True
      then have "evbuffer_write wr b = Some (0, b, None)"
        using get Inr k(1) by (simp add: evbuffer_write_def Let_def)
      then show thesis using that [of 0 b None] ok Inr True by simp
    next
      case False
      then have "evbuffer_write wr b = Some (int k, fst ?d, snd ?d)"
        using get Inr k by (simp add: evbuffer_write_def Let_def split: prod.split)
      then show thesis
        using that [of "int k" "fst ?d" "snd ?d"] drain Inr False k(3) by simp
    qed
  qed
qed

subsection \<open>The interface of a byte queue\<close>

text \<open>
  What the clients of a buffer rely on: bytes come out in the order they went in.
  \<open>limit\<close> bounds how many bytes may be held at once.
\<close>

datatype qop = Put "byte list" | Get nat

fun puts :: "qop list \<Rightarrow> byte list" where
  "puts [] = []"
| "puts (Put ys # ops) = ys @ puts ops"
| "puts (Get n # ops) = puts ops"

fun run_queue ::
  "('b \<Rightarrow> byte list \<Rightarrow> (int \<times> 'b \<times> 'c) option) \<Rightarrow>
   ('b \<Rightarrow> nat \<Rightarrow> (int \<times> byte list \<times> 'b \<times> 'c) option) \<Rightarrow> qop list \<Rightarrow> 'b \<Rightarrow> (byte list \<times> 'b) option" where
  "run_queue add rem [] b = Some ([], b)"
| "run_queue add rem (Put ys # ops) b =
     do { (r, b', c) \<leftarrow> add b ys; run_queue add rem ops b' }"
| "run_queue add rem (Get n # ops) b =
     do { (r, xs, b', c) \<leftarrow> rem b n; (out, b'') \<leftarrow> run_queue add rem ops b'; Some (xs @ out, b'') }"

locale byte_queue =
  fixes ok :: "'b \<Rightarrow> bool"
    and bytes :: "'b \<Rightarrow> byte list"
    and limit :: nat
    and add :: "'b \<Rightarrow> byte list \<Rightarrow> (int \<times> 'b \<times> 'c) option"
    and rem :: "'b \<Rightarrow> nat \<Rightarrow> (int \<times> byte list \<times> 'b \<times> 'c) option"
  assumes add_bytes: "ok b \<Longrightarrow> length (bytes b) + length ys \<le> limit \<Longrightarrow>
      \<exists>b' c. add b ys = Some (0, b', c) \<and> ok b' \<and> bytes b' = bytes b @ ys"
    and rem_bytes: "ok b \<Longrightarrow>
      \<exists>r b' c. rem b n = Some (r, take n (bytes b), b', c) \<and> ok b' \<and> bytes b' = drop n (bytes b)"
begin

lemma run_queue_fifo:
  assumes "ok b" and "length (bytes b) + length (puts ops) \<le> limit"
  shows "\<exists>out b'. run_queue add rem ops b = Some (out, b') \<and> ok b' \<and>
    bytes b @ puts ops = out @ bytes b'"
  using assms
proof (induction ops arbitrary: b)
  case Nil
  then show ?case by simp
next
  case (Cons op ops)
  show ?case
  proof (cases op)
    case (Put ys)
    then obtain b1 c where b1: "add b ys = Some (0, b1, c)" "ok b1" "bytes b1 = bytes b @ ys"
      using add_bytes [OF Cons.prems(1), of ys] Cons.prems(2) by auto
    obtain out b' where "run_queue add rem ops b1 = Some (out, b')" "ok b'"
      "bytes b1 @ puts ops = out @ bytes b'"
      using Cons.IH [OF b1(2)] Cons.prems(2) Put b1(3) by auto
    then show ?thesis using Put b1 by simp
  next
    case (Get n)
    obtain r b1 c where b1: "rem b n = Some (r, take n (bytes b), b1, c)" "ok b1"
      "bytes b1 = drop n (bytes b)"
      using rem_bytes [OF Cons.prems(1)] by blast
    obtain out b' where out: "run_queue add rem ops b1 = Some (out, b')" "ok b'"
      "bytes b1 @ puts ops = out @ bytes b'"
    proof -
      have "length (bytes b1) + length (puts ops) \<le> limit" using Cons.prems(2) Get b1(3) by simp
      from Cons.IH [OF b1(2) this] that show thesis by blast
    qed
    have "bytes b @ puts ops = take n (bytes b) @ bytes b1 @ puts ops"
      by (simp add: b1(3) flip: append_assoc)
    then show ?thesis using Get b1(1) out by simp
  qed
qed

end

definition evb_small :: "evbuffer \<Rightarrow> bool" where
  "evb_small b \<longleftrightarrow> evb_ok b \<and> evb_totallen b \<le> 2 ^ 62"

lemma evb_small_fits: "evb_small b \<Longrightarrow> n \<le> 2 ^ 60 \<Longrightarrow> evb_misalign b + evb_off b + n \<le> 2 ^ 63"
  by (auto simp: evb_small_def evb_ok_def)

interpretation evbq: byte_queue evb_small contents "2 ^ 60" "evbuffer_add (\<lambda>_. True)" evbuffer_remove
proof
  fix b and ys :: "byte list" and n :: nat
  assume small: "evb_small b"
  then have ok: "evb_ok b" by (simp add: evb_small_def)
  show "\<exists>b' c. evbuffer_add (\<lambda>_. True) b ys = Some (0, b', c) \<and> evb_small b' \<and>
      contents b' = contents b @ ys"
    if "length (contents b) + length ys \<le> 2 ^ 60"
  proof -
    have le: "evb_off b + length ys \<le> 2 ^ 60" using that ok by simp
    have fits: "evb_misalign b + evb_off b + length ys \<le> 2 ^ 63"
      using evb_small_fits [OF small] le by simp
    obtain r b' c where b': "evbuffer_add (\<lambda>_. True) b ys = Some (r, b', c)" "evb_ok b'" "r = 0"
      "r = 0 \<and> contents b' = contents b @ ys \<and> c = (if ys = [] then None else evb_notify b' (evb_off b)) \<or>
        r = -1 \<and> contents b' = contents b \<and> c = None"
      "evb_totallen b' \<le> max (max 256 (evb_totallen b)) (4 * (evb_off b + length ys))"
      by (rule evbuffer_add_correct [OF ok fits, of "\<lambda>_. True"]) blast
    have "4 * (evb_off b + length ys) \<le> 2 ^ 62" using le by simp
    then have "evb_totallen b' \<le> 2 ^ 62"
      using b'(5) small by (auto simp: evb_small_def)
    then show ?thesis using b' by (auto simp: evb_small_def)
  qed
  show "\<exists>r b' c. evbuffer_remove b n = Some (r, take n (contents b), b', c) \<and> evb_small b' \<and>
      contents b' = drop n (contents b)"
  proof -
    obtain b' c where "evbuffer_remove b n
        = Some (int_of_size (min n (evb_off b)), take n (contents b), b', c)"
      "evb_ok b'" "contents b' = drop n (contents b)" "evb_totallen b' = evb_totallen b"
      by (rule evbuffer_remove_correct [OF ok, of n])
    with small show ?thesis by (auto simp: evb_small_def)
  qed
qed

subsection \<open>Properties\<close>

text \<open>
  C26. A buffer is a byte queue: for every sequence of additions and removals on a
  well-formed buffer in which less than 2^60 bytes are put in and memory suffices, no operation
  touches memory outside the block or reads an uninitialised byte, and what has come out followed by what
  is still held is what was held followed by all that was put in.
\<close>

theorem evbuffer_fifo:
  assumes "evb_ok b" and "evb_totallen b \<le> 2 ^ 62" and "evb_off b + length (puts ops) \<le> 2 ^ 60"
  shows "\<exists>out b'. run_queue (evbuffer_add (\<lambda>_. True)) evbuffer_remove ops b = Some (out, b') \<and>
    evb_ok b' \<and> contents b @ puts ops = out @ contents b'"
  using evbq.run_queue_fifo [of b ops] assms by (auto simp: evb_small_def)

definition demo_buffer :: evbuffer where
  "demo_buffer = \<lparr>evb_buffer = 0, evb_orig = None, evb_misalign = 0, evb_totallen = 0, evb_off = 0,
     evb_cb = Some 1, evb_cbarg = 0\<rparr>"

lemma demo_buffer_ok: "evb_ok demo_buffer" and demo_buffer_contents: "contents demo_buffer = []"
  by (simp_all add: demo_buffer_def evb_ok_def evb_cells_def len_ok_def contents_def)

theorem evbuffer_fifo_witness:
  "\<exists>out b'. run_queue (evbuffer_add (\<lambda>_. True)) evbuffer_remove [Put [1, 2, 3], Get 2, Put [4]]
      demo_buffer = Some (out, b') \<and> evb_ok b' \<and> [1, 2, 3, 4] = out @ contents b'"
  using evbuffer_fifo [OF demo_buffer_ok, of "[Put [1, 2, 3], Get 2, Put [4]]"]
  by (simp add: demo_buffer_contents) (simp add: demo_buffer_def)

text \<open>
  C27. \<open>evbuffer_expand\<close> returns, keeps the bytes of the buffer, and when it returns 0 there is room
  for \<open>datlen\<close> more bytes behind them; the block it leaves is at most the old one, 256 bytes, or
  four times the bytes the buffer then holds with the new ones. When it fails the content is still there.
\<close>

theorem evbuffer_expand_ok:
  assumes "evb_ok b" and "evb_misalign b + evb_off b + n \<le> 2 ^ 63"
  shows "\<exists>r b'. evbuffer_expand alloc b n = Some (r, b') \<and> evb_ok b' \<and> contents b' = contents b \<and>
    evb_off b' = evb_off b \<and> (r = 0 \<and> evb_misalign b' + evb_off b' + n \<le> evb_totallen b' \<or> r = -1) \<and>
    evb_totallen b' \<le> max (max 256 (evb_totallen b)) (4 * (evb_off b + n))"
  by (rule evbuffer_expand_correct [OF assms, of alloc]) blast

theorem evbuffer_expand_ok_witness:
  "\<exists>r b'. evbuffer_expand (\<lambda>_. True) demo_buffer 300 = Some (r, b') \<and> evb_ok b' \<and> contents b' = [] \<and>
     (r = 0 \<and> evb_misalign b' + evb_off b' + 300 \<le> evb_totallen b' \<or> r = -1) \<and> evb_totallen b' \<le> 1200"
  using evbuffer_expand_ok [OF demo_buffer_ok, of 300 "\<lambda>_. True"]
  by (auto simp: demo_buffer_contents) (auto simp: demo_buffer_def)

text \<open>
  C28. When more than 2^63 bytes are needed (and \<open>size_t\<close> has not wrapped), \<open>evbuffer_expand\<close>
  does not return: the doubled length wraps to 0 and the loop never ends.
\<close>

theorem evbuffer_expand_hangs:
  assumes "evb_ok b" and "evb_misalign b < n" and "2 ^ 63 < evb_misalign b + evb_off b + n"
    and "evb_misalign b + evb_off b + n < 2 ^ 64"
  shows "evbuffer_expand alloc b n = None"
proof -
  let ?need = "evb_misalign b + evb_off b + n" and ?len = "if evb_totallen b < 256 then 256 else evb_totallen b"
  have n64: "u64 (u64 (evb_misalign b + evb_off b) + n) = ?need" using assms(4) by (simp add: u64_def)
  have pow: "?len = 0 \<or> (\<exists>k\<le>63. ?len = 2 ^ k)"
  proof (cases "evb_totallen b < 256")
    case True
    then show ?thesis by (auto intro: exI [of _ 8])
  qed (use evb_ok_power [OF assms(1)] in auto)
  have "grow_length ?len ?need = None"
    using grow_length_returns [of ?len ?need, OF _ pow] assms(3) by (cases "grow_length ?len ?need") auto
  moreover have "evb_totallen b < ?need"
    using len_ok_less [of "evb_totallen b"] assms(1,3) by (auto simp: evb_ok_def)
  ultimately show ?thesis using assms(2) n64 by (simp add: evbuffer_expand_def Let_def)
qed

theorem evbuffer_expand_hangs_witness:
  "evbuffer_expand (\<lambda>_. True) demo_buffer (2 ^ 63 + 1) = None"
  by (rule evbuffer_expand_hangs [OF demo_buffer_ok]) (simp_all add: demo_buffer_def)

text \<open>
  \<open>evbuffer_read\<close> appends to the buffer exactly the bytes that \<open>read\<close> delivered and returns their
  number, or returns -1 and leaves the content alone; it never asks \<open>read\<close> for more than there is
  room for, nor for more than the caller allows, and it tells the callback about every growth.
\<close>

theorem evbuffer_read_ok:
  assumes "evb_ok b" and "evb_misalign b + evb_off b + 2 ^ 31 \<le> 2 ^ 63" and "howmuch < 2 ^ 31"
    and "\<forall>n. ioctl = Some n \<longrightarrow> n < 2 ^ 31" and "\<forall>k bs. rd k = Inr bs \<longrightarrow> length bs \<le> k"
  shows "\<exists>r b' c. evbuffer_read alloc ioctl rd b howmuch = Some (r, b', c) \<and> evb_ok b' \<and>
    (r = -1 \<and> contents b' = contents b \<and> c = None \<or>
     (\<exists>k bs. rd k = Inr bs \<and> r = int (length bs) \<and> contents b' = contents b @ bs \<and>
       (0 \<le> howmuch \<longrightarrow> r \<le> howmuch) \<and>
       c = (if bs = [] then None else evb_notify b' (evb_off b))))"
proof -
  let ?k = "nat (evbuffer_read_size b ioctl howmuch)"
  note size = evbuffer_read_size_bounds [OF assms(3,4), of b]
  obtain r b' c where b': "evbuffer_read alloc ioctl rd b howmuch = Some (r, b', c)" "evb_ok b'"
    "r = -1 \<and> contents b' = contents b \<and> c = None \<or>
      (\<exists>bs. rd ?k = Inr bs \<and> r = int (length bs) \<and>
        contents b' = contents b @ bs \<and> c = (if bs = [] then None else evb_notify b' (evb_off b)))"
    by (rule evbuffer_read_correct [OF assms, of alloc])
  have "0 \<le> howmuch \<longrightarrow> int (length bs) \<le> howmuch" if "rd ?k = Inr bs" for bs
  proof -
    have "length bs \<le> ?k" using assms(5) that by blast
    then show ?thesis using size(1,4) by linarith
  qed
  with b' show ?thesis by blast
qed

theorem evbuffer_read_ok_witness:
  "\<exists>r b' c. evbuffer_read (\<lambda>_. True) (Some 3) (\<lambda>k. Inr (take k [7, 8, 9])) demo_buffer (-1) = Some (r, b', c) \<and>
    evb_ok b' \<and>
    (r = -1 \<and> contents b' = contents demo_buffer \<and> c = None \<or>
     (\<exists>k bs. Inr (take k [7, 8, 9]) = (Inr bs :: int + byte list) \<and> r = int (length bs) \<and>
       contents b' = contents demo_buffer @ bs \<and>
       ((0::int) \<le> -1 \<longrightarrow> r \<le> -1) \<and>
       c = (if bs = [] then None else evb_notify b' (evb_off demo_buffer))))"
  by (rule evbuffer_read_ok [OF demo_buffer_ok]) (simp_all add: demo_buffer_def)

text \<open>
  \<open>evbuffer_write\<close> offers \<open>write\<close> the whole content and removes exactly the prefix that \<open>write\<close>
  took; on an error the buffer is unchanged.
\<close>

theorem evbuffer_write_ok:
  assumes "evb_ok b" and "\<And>k. wr (contents b) = Inr k \<Longrightarrow> k \<le> evb_off b \<and> k < 2 ^ 31"
  shows "\<exists>r b' c. evbuffer_write wr b = Some (r, b', c) \<and> evb_ok b' \<and>
    ((\<exists>e. wr (contents b) = Inl e) \<and> r = -1 \<and> b' = b \<and> c = None \<or>
     (\<exists>k. wr (contents b) = Inr k \<and> r = int k \<and> contents b' = drop k (contents b) \<and>
       c = (if k = 0 then None else evb_notify b' (evb_off b))))"
  by (rule evbuffer_write_correct [of b wr, OF assms]) blast+

theorem evbuffer_write_ok_witness:
  "\<exists>r b' c. evbuffer_write (\<lambda>bs. Inr 0) demo_buffer = Some (r, b', c) \<and> evb_ok b' \<and>
     r = 0 \<and> contents b' = [] \<and> c = None"
  using evbuffer_write_ok [OF demo_buffer_ok, of "\<lambda>bs. Inr 0"] by (auto simp: demo_buffer_contents)

end
