(* ===== verification/BufferEvent.thy ===== *)
theory BufferEvent
  imports Client Buffer
begin

text \<open>
  Buffered events, \<open>evbuffer.cpp\<close> and \<open>evbuffer.hpp\<close>: a pair of events on one descriptor with an input and an output
  buffer, water marks that stop and restart reading, and callbacks of the user.

  A \<open>struct bufferevent\<close> is a record next to the state of the library; its two events are named by their addresses. A call
  of a callback of the user is the last thing a function does and is returned as a value. What \<open>ioctl\<close>, \<open>read\<close>
  and \<open>write\<close> do, and the value of \<open>errno\<close> when a caller tests it, are read from \<open>bev_io\<close> at the position \<open>tick\<close> of the call.
\<close>

subsection \<open>Data\<close>

definition EVBUFFER_READ :: "16 word" where "EVBUFFER_READ = 0x01"
definition EVBUFFER_WRITE :: "16 word" where "EVBUFFER_WRITE = 0x02"
definition EVBUFFER_EOF :: "16 word" where "EVBUFFER_EOF = 0x10"
definition EVBUFFER_ERROR :: "16 word" where "EVBUFFER_ERROR = 0x20"
definition EVBUFFER_TIMEOUT :: "16 word" where "EVBUFFER_TIMEOUT = 0x40"

record event_watermark =
  wm_low :: nat
  wm_high :: nat

record bufferevent =
  be_base :: base_ptr
  be_read :: eid
  be_write :: eid
  be_input :: evbuffer
  be_output :: evbuffer
  be_wm_read :: event_watermark
  be_wm_write :: event_watermark
  be_readcb :: "nat option"
  be_writecb :: "nat option"
  be_errorcb :: "nat option"
  be_cbarg :: nat
  be_timeout_read :: int
  be_timeout_write :: int
  be_enabled :: "16 word"

text \<open>A pending call of a callback of the user, with its arguments.\<close>

datatype usercall = ReadCb nat nat | WriteCb nat nat | ErrorCb nat "16 word" nat

record bev_io =
  io_ioctl :: "nat \<Rightarrow> int \<Rightarrow> int option"
  io_read :: "nat \<Rightarrow> int \<Rightarrow> nat \<Rightarrow> int + byte list"
  io_write :: "nat \<Rightarrow> int \<Rightarrow> byte list \<Rightarrow> int + nat"
  io_errno :: "nat \<Rightarrow> int"

definition EINTR :: int where "EINTR = 4"
definition EAGAIN :: int where "EAGAIN = 11"
definition EINPROGRESS :: int where "EINPROGRESS = 115"

text \<open>The functions of this file, as the functions of a client that the core calls through pointers.\<close>

definition READ_PRESSURE_CB :: nat where "READ_PRESSURE_CB = 0"
definition READCB :: callback where "READCB = User 1"
definition WRITECB :: callback where "WRITECB = User 2"

type_synonym 'a bev_state = "bufferevent \<times> 'a event_core_scheme"

subsection \<open>Scheduling\<close>

definition bufferevent_add ::
  "('a event_core_scheme) eventop \<Rightarrow> 'a event_core_scheme \<Rightarrow> eid \<Rightarrow> int \<Rightarrow> (int \<times> 'a event_core_scheme) option" where
  "bufferevent_add evsel s e timeout = event_add evsel s e (if timeout \<noteq> 0 then Some (Timeval timeout 0) else None)"

definition read_pressure_cb ::
  "('a event_core_scheme) eventop \<Rightarrow> nat \<Rightarrow> 'a bev_state \<Rightarrow> ('a bev_state) option" where
  "read_pressure_cb evsel now st =
     (case st of (b, s) \<Rightarrow>
        if wm_high (be_wm_read b) = 0 \<or> now < wm_high (be_wm_read b) then
          let b1 = b\<lparr>be_input := evbuffer_setcb (be_input b) None 0\<rparr>
          in if has (be_enabled b) EV_READ
             then do { (r, s1) \<leftarrow> bufferevent_add evsel s (be_read b) (be_timeout_read b); Some (b1, s1) }
             else Some (b1, s)
        else Some (b, s))"

text \<open>The call of a buffer's callback that is left to be made; \<open>ucb\<close> are the callbacks that the user has set on the buffers.\<close>

definition run_cb ::
  "('a event_core_scheme) eventop \<Rightarrow> (cbcall \<Rightarrow> 'a bev_state \<Rightarrow> ('a bev_state) option) \<Rightarrow> cbcall option \<Rightarrow>
     'a bev_state \<Rightarrow> ('a bev_state) option" where
  "run_cb evsel ucb c st =
     (case c of
        None \<Rightarrow> Some st
      | Some k \<Rightarrow> if cb_fun k = READ_PRESSURE_CB then read_pressure_cb evsel (cb_now k) st else ucb k st)"

subsection \<open>The callbacks of the two events\<close>

text \<open>The address of the \<open>struct bufferevent\<close>; its event for reading is its second member.\<close>

definition bev_ptr :: "bufferevent \<Rightarrow> nat" where
  "bev_ptr b = be_read b - 8"

definition sub64 :: "nat \<Rightarrow> nat \<Rightarrow> nat" where
  "sub64 a b = u64 (a + (2 ^ 64 - b))"

text \<open>\<open>error: (*bufev->errorcb)(bufev, what, bufev->cbarg);\<close>\<close>

definition bev_error :: "16 word \<Rightarrow> 'a bev_state \<Rightarrow> (usercall option \<times> 'a bev_state) option" where
  "bev_error what st =
     (case be_errorcb (fst st) of None \<Rightarrow> None | Some f \<Rightarrow> Some (Some (ErrorCb f what (be_cbarg (fst st))), st))"

text \<open>Reading stops: the event is deleted and the callback that restarts it is set on the input buffer.\<close>

definition stop_reading ::
  "('a event_core_scheme) eventop \<Rightarrow> 'a bev_state \<Rightarrow> ('a bev_state) option" where
  "stop_reading evsel st =
     (case st of (b, s) \<Rightarrow>
        do { (r, s1) \<leftarrow> event_del evsel s (be_read b);
             Some (b\<lparr>be_input := evbuffer_setcb (be_input b) (Some READ_PRESSURE_CB) (bev_ptr b)\<rparr>, s1) })"

text \<open>From the successful read on.\<close>

definition read_done ::
  "('a event_core_scheme) eventop \<Rightarrow> 'a bev_state \<Rightarrow> (usercall option \<times> 'a bev_state) option" where
  "read_done evsel st =
     (case st of (b, s) \<Rightarrow> do {
        (r, s1) \<leftarrow> bufferevent_add evsel s (be_read b) (be_timeout_read b);
        let len = evb_off (be_input b);
        if wm_low (be_wm_read b) \<noteq> 0 \<and> len < wm_low (be_wm_read b) then Some (None, b, s1)
        else do {
          (b2, s2) \<leftarrow> (if wm_high (be_wm_read b) \<noteq> 0 \<and> len \<ge> wm_high (be_wm_read b)
                        then stop_reading evsel (b, s1) else Some (b, s1));
          Some (map_option (\<lambda>f. ReadCb f (be_cbarg b2)) (be_readcb b2), b2, s2) } })"

definition bufferevent_readcb ::
  "('a event_core_scheme) eventop \<Rightarrow> (cbcall \<Rightarrow> 'a bev_state \<Rightarrow> ('a bev_state) option) \<Rightarrow> bev_io \<Rightarrow> int \<Rightarrow> 16 word \<Rightarrow>
     'a bev_state \<Rightarrow> (usercall option \<times> 'a bev_state) option" where
  "bufferevent_readcb evsel ucb io fd event st =
     (case st of (b, s) \<Rightarrow>
        if event = EV_TIMEOUT then bev_error (EVBUFFER_READ OR EVBUFFER_TIMEOUT) st
        else
          let high = wm_high (be_wm_read b);
              howmuch = (if high \<noteq> 0 then int_of_size (sub64 high (evb_off (be_input b))) else -1)
          in if high \<noteq> 0 \<and> howmuch \<le> 0 then do { st' \<leftarrow> stop_reading evsel st; Some (None, st') }
             else do {
               (res, inp, c) \<leftarrow> evbuffer_read (os_alloc (os s) (tick s)) (io_ioctl io (tick s) fd)
                                  (io_read io (tick s) fd) (be_input b) howmuch;
               (b1, s1) \<leftarrow> run_cb evsel ucb c (b\<lparr>be_input := inp\<rparr>, s\<lparr>tick := tick s + 1\<rparr>);
               if res = -1 then
                 if io_errno io (tick s) = EAGAIN \<or> io_errno io (tick s) = EINTR
                 then do { (r, s2) \<leftarrow> bufferevent_add evsel s1 (be_read b1) (be_timeout_read b1); Some (None, b1, s2) }
                 else bev_error (EVBUFFER_READ OR EVBUFFER_ERROR) (b1, s1)
               else if res = 0 then bev_error (EVBUFFER_READ OR EVBUFFER_EOF) (b1, s1)
               else if res < 0 then bev_error EVBUFFER_READ (b1, s1)
               else read_done evsel (b1, s1) })"

text \<open>\<open>if (bufev->output->off != 0) bufferevent_add(&bufev->ev_write, bufev->timeout_write);\<close>\<close>

definition reschedule_write ::
  "('a event_core_scheme) eventop \<Rightarrow> 'a bev_state \<Rightarrow> ('a bev_state) option" where
  "reschedule_write evsel st =
     (case st of (b, s) \<Rightarrow>
        if evb_off (be_output b) \<noteq> 0
        then do { (r, s1) \<leftarrow> bufferevent_add evsel s (be_write b) (be_timeout_write b); Some (b, s1) }
        else Some (b, s))"

definition write_done ::
  "('a event_core_scheme) eventop \<Rightarrow> 'a bev_state \<Rightarrow> (usercall option \<times> 'a bev_state) option" where
  "write_done evsel st =
     do { (b, s) \<leftarrow> reschedule_write evsel st;
          Some (if evb_off (be_output b) \<le> wm_low (be_wm_write b)
                then map_option (\<lambda>f. WriteCb f (be_cbarg b)) (be_writecb b) else None, b, s) }"

definition bufferevent_writecb ::
  "('a event_core_scheme) eventop \<Rightarrow> (cbcall \<Rightarrow> 'a bev_state \<Rightarrow> ('a bev_state) option) \<Rightarrow> bev_io \<Rightarrow> int \<Rightarrow> 16 word \<Rightarrow>
     'a bev_state \<Rightarrow> (usercall option \<times> 'a bev_state) option" where
  "bufferevent_writecb evsel ucb io fd event st =
     (case st of (b, s) \<Rightarrow>
        if event = EV_TIMEOUT then bev_error (EVBUFFER_WRITE OR EVBUFFER_TIMEOUT) st
        else if evb_off (be_output b) \<noteq> 0 then do {
          (res, out, c) \<leftarrow> evbuffer_write (io_write io (tick s) fd) (be_output b);
          (b1, s1) \<leftarrow> run_cb evsel ucb c (b\<lparr>be_output := out\<rparr>, s\<lparr>tick := tick s + 1\<rparr>);
          if res = -1 then
            if io_errno io (tick s) = EAGAIN \<or> io_errno io (tick s) = EINTR \<or> io_errno io (tick s) = EINPROGRESS
            then do { st' \<leftarrow> reschedule_write evsel (b1, s1); Some (None, st') }
            else bev_error (EVBUFFER_WRITE OR EVBUFFER_ERROR) (b1, s1)
          else if res = 0 then bev_error (EVBUFFER_WRITE OR EVBUFFER_EOF) (b1, s1)
          else if res < 0 then bev_error EVBUFFER_WRITE (b1, s1)
          else write_done evsel (b1, s1) }
        else write_done evsel st)"

subsection \<open>Making and configuring a buffered event\<close>

definition bufferevent_setcb ::
  "bufferevent \<Rightarrow> nat option \<Rightarrow> nat option \<Rightarrow> nat option \<Rightarrow> nat \<Rightarrow> bufferevent" where
  "bufferevent_setcb b readcb writecb errorcb arg =
     b\<lparr>be_readcb := readcb, be_writecb := writecb, be_errorcb := errorcb, be_cbarg := arg\<rparr>"

text \<open>
  The two events are members of the block \<open>p\<close> at the offsets 8 and 136. A failed allocation frees what was allocated before.
\<close>

definition bufferevent_new ::
  "'a event_core_scheme \<Rightarrow> int \<Rightarrow> nat option \<Rightarrow> nat option \<Rightarrow> nat option \<Rightarrow> nat \<Rightarrow>
     bufferevent option \<times> 'a event_core_scheme" where
  "bufferevent_new s fd readcb writecb errorcb arg =
     (case os_calloc (os s) (tick s) of
        None \<Rightarrow> (None, s\<lparr>tick := tick s + 1\<rparr>)
      | Some p \<Rightarrow>
          (case evbuffer_new (os_alloc (os s) (tick s + 1)) of
             None \<Rightarrow> (None, s\<lparr>tick := tick s + 2\<rparr>)
           | Some input \<Rightarrow>
               (case evbuffer_new (os_alloc (os s) (tick s + 2)) of
                  None \<Rightarrow> (None, s\<lparr>tick := tick s + 3\<rparr>)
                | Some output \<Rightarrow>
                    let s1 = s\<lparr>tick := tick s + 3, evs := (evs s)(p + 8 := zero_event, p + 136 := zero_event)\<rparr>;
                        s2 = event_set s1 (p + 8) fd EV_READ READCB p;
                        s3 = event_set s2 (p + 136) fd EV_WRITE WRITECB p;
                        b = \<lparr>be_base = NullBase, be_read = p + 8, be_write = p + 136, be_input = input, be_output = output,
                             be_wm_read = \<lparr>wm_low = 0, wm_high = 0\<rparr>, be_wm_write = \<lparr>wm_low = 0, wm_high = 0\<rparr>,
                             be_readcb = None, be_writecb = None, be_errorcb = None, be_cbarg = 0,
                             be_timeout_read = 0, be_timeout_write = 0, be_enabled = 0\<rparr>
                    in (Some ((bufferevent_setcb b readcb writecb errorcb arg)\<lparr>be_enabled := EV_WRITE\<rparr>), s3))))"

definition bufferevent_base_set ::
  "base_ptr \<Rightarrow> 'a bev_state \<Rightarrow> (int \<times> 'a bev_state) option" where
  "bufferevent_base_set base st =
     (case st of (b, s) \<Rightarrow> do {
        let b1 = b\<lparr>be_base := base\<rparr>;
        (res, s1) \<leftarrow> event_base_set s base (be_read b);
        if res = -1 then Some (res, b1, s1)
        else do { (res, s2) \<leftarrow> event_base_set s1 base (be_write b); Some (res, b1, s2) } })"

definition bufferevent_priority_set ::
  "'a bev_state \<Rightarrow> int \<Rightarrow> (int \<times> 'a bev_state) option" where
  "bufferevent_priority_set st pri =
     (case st of (b, s) \<Rightarrow> do {
        (res, s1) \<leftarrow> event_priority_set s (be_read b) pri;
        if res = -1 then Some (-1, b, s1)
        else do { (res, s2) \<leftarrow> event_priority_set s1 (be_write b) pri;
                  Some (if res = -1 then -1 else 0, b, s2) } })"

text \<open>The two buffers and the \<open>struct bufferevent\<close> are released after the events are deleted.\<close>

definition bufferevent_free ::
  "('a event_core_scheme) eventop \<Rightarrow> 'a bev_state \<Rightarrow> ('a event_core_scheme) option" where
  "bufferevent_free evsel st =
     (case st of (b, s) \<Rightarrow>
        do { (r, s1) \<leftarrow> event_del evsel s (be_read b); (r, s2) \<leftarrow> event_del evsel s1 (be_write b); Some s2 })"

definition bufferevent_setfd ::
  "('a event_core_scheme) eventop \<Rightarrow> 'a bev_state \<Rightarrow> int \<Rightarrow> ('a bev_state) option" where
  "bufferevent_setfd evsel st fd =
     (case st of (b, s) \<Rightarrow> do {
        (r, s1) \<leftarrow> event_del evsel s (be_read b);
        (r, s2) \<leftarrow> event_del evsel s1 (be_write b);
        let s3 = event_set s2 (be_read b) fd EV_READ READCB (bev_ptr b);
        let s4 = event_set s3 (be_write b) fd EV_WRITE WRITECB (bev_ptr b);
        if be_base b \<noteq> NullBase then do {
          (r, s5) \<leftarrow> event_base_set s4 (be_base b) (be_read b);
          (r, s6) \<leftarrow> event_base_set s5 (be_base b) (be_write b);
          Some (b, s6) }
        else Some (b, s4) })"

subsection \<open>Reading and writing\<close>

definition bufferevent_write ::
  "('a event_core_scheme) eventop \<Rightarrow> (cbcall \<Rightarrow> 'a bev_state \<Rightarrow> ('a bev_state) option) \<Rightarrow> 'a bev_state \<Rightarrow> byte list \<Rightarrow>
     (int \<times> 'a bev_state) option" where
  "bufferevent_write evsel ucb st data =
     (case st of (b, s) \<Rightarrow> do {
        (res, out, c) \<leftarrow> evbuffer_add (os_alloc (os s) (tick s)) (be_output b) data;
        (b1, s1) \<leftarrow> run_cb evsel ucb c (b\<lparr>be_output := out\<rparr>, s\<lparr>tick := tick s + 1\<rparr>);
        if res = -1 then Some (res, b1, s1)
        else if length data > 0 \<and> has (be_enabled b1) EV_WRITE
        then do { (r, s2) \<leftarrow> bufferevent_add evsel s1 (be_write b1) (be_timeout_write b1); Some (res, b1, s2) }
        else Some (res, b1, s1) })"

text \<open>\<open>bufferevent_write_buffer\<close> of another buffer, whose drain is reported to the callback \<open>ucb\<close> if it has one.\<close>

definition bufferevent_write_buffer ::
  "('a event_core_scheme) eventop \<Rightarrow> (cbcall \<Rightarrow> 'a bev_state \<Rightarrow> ('a bev_state) option) \<Rightarrow> 'a bev_state \<Rightarrow> evbuffer \<Rightarrow>
     (int \<times> evbuffer \<times> 'a bev_state) option" where
  "bufferevent_write_buffer evsel ucb st buf =
     do { data \<leftarrow> cells_read (evb_cells buf) (evb_buffer buf) (evb_off buf);
          (res, st1) \<leftarrow> bufferevent_write evsel ucb st data;
          if res \<noteq> -1 then do {
            let (buf', c) = evbuffer_drain buf (evb_off buf);
            st2 \<leftarrow> run_cb evsel ucb c st1;
            Some (res, buf', st2) }
          else Some (res, buf, st1) }"

definition bufferevent_read ::
  "('a event_core_scheme) eventop \<Rightarrow> (cbcall \<Rightarrow> 'a bev_state \<Rightarrow> ('a bev_state) option) \<Rightarrow> 'a bev_state \<Rightarrow> nat \<Rightarrow>
     (nat \<times> byte list \<times> 'a bev_state) option" where
  "bufferevent_read evsel ucb st n =
     (case st of (b, s) \<Rightarrow> do {
        let size' = (if evb_off (be_input b) < n then evb_off (be_input b) else n);
        data \<leftarrow> cells_read (evb_cells (be_input b)) (evb_buffer (be_input b)) size';
        if size' \<noteq> 0 then do {
          let (inp, c) = evbuffer_drain (be_input b) size';
          st' \<leftarrow> run_cb evsel ucb c (b\<lparr>be_input := inp\<rparr>, s);
          Some (size', data, st') }
        else Some (size', data, b, s) })"

subsection \<open>Enabling, timeouts and water marks\<close>

definition bufferevent_enable ::
  "('a event_core_scheme) eventop \<Rightarrow> 'a bev_state \<Rightarrow> 16 word \<Rightarrow> (int \<times> 'a bev_state) option" where
  "bufferevent_enable evsel st event =
     (case st of (b, s) \<Rightarrow> do {
        (r1, s1) \<leftarrow> (if has event EV_READ then bufferevent_add evsel s (be_read b) (be_timeout_read b) else Some (0, s));
        if r1 = -1 then Some (-1, b, s1)
        else do {
          (r2, s2) \<leftarrow> (if has event EV_WRITE then bufferevent_add evsel s1 (be_write b) (be_timeout_write b) else Some (0, s1));
          if r2 = -1 then Some (-1, b, s2) else Some (0, b\<lparr>be_enabled := be_enabled b OR event\<rparr>, s2) } })"

definition bufferevent_disable ::
  "('a event_core_scheme) eventop \<Rightarrow> 'a bev_state \<Rightarrow> 16 word \<Rightarrow> (int \<times> 'a bev_state) option" where
  "bufferevent_disable evsel st event =
     (case st of (b, s) \<Rightarrow> do {
        (r1, s1) \<leftarrow> (if has event EV_READ then event_del evsel s (be_read b) else Some (0, s));
        if r1 = -1 then Some (-1, b, s1)
        else do {
          (r2, s2) \<leftarrow> (if has event EV_WRITE then event_del evsel s1 (be_write b) else Some (0, s1));
          if r2 = -1 then Some (-1, b, s2) else Some (0, b\<lparr>be_enabled := be_enabled b AND NOT event\<rparr>, s2) } })"

definition bufferevent_settimeout ::
  "('a event_core_scheme) eventop \<Rightarrow> 'a bev_state \<Rightarrow> int \<Rightarrow> int \<Rightarrow> ('a bev_state) option" where
  "bufferevent_settimeout evsel st timeout_read timeout_write =
     (case st of (b, s) \<Rightarrow> do {
        let b1 = b\<lparr>be_timeout_read := timeout_read, be_timeout_write := timeout_write\<rparr>;
        (pr, tv1, s0) \<leftarrow> event_pending s (be_read b) EV_READ False;
        (r1, s1) \<leftarrow> (if pr \<noteq> 0 then bufferevent_add evsel s0 (be_read b) timeout_read else Some (0, s0));
        (pw, tv2, s2) \<leftarrow> event_pending s1 (be_write b) EV_WRITE False;
        (r2, s3) \<leftarrow> (if pw \<noteq> 0 then bufferevent_add evsel s2 (be_write b) timeout_write else Some (0, s2));
        Some (b1, s3) })"

definition bufferevent_setwatermark ::
  "('a event_core_scheme) eventop \<Rightarrow> 'a bev_state \<Rightarrow> 16 word \<Rightarrow> nat \<Rightarrow> nat \<Rightarrow> ('a bev_state) option" where
  "bufferevent_setwatermark evsel st events low high =
     (case st of (b, s) \<Rightarrow>
        let b1 = (if has events EV_READ then b\<lparr>be_wm_read := \<lparr>wm_low = low, wm_high = high\<rparr>\<rparr> else b);
            b2 = (if has events EV_WRITE then b1\<lparr>be_wm_write := \<lparr>wm_low = low, wm_high = high\<rparr>\<rparr> else b1)
        in read_pressure_cb evsel (evb_off (be_input b2)) (b2, s))"

end
