(* ===== verification/BufferEventSpec.thy ===== *)
theory BufferEventSpec
  imports BufferEvent
begin

text \<open>
  What the buffered events guarantee: bytes are neither lost nor reordered between the descriptor, the buffers and the user,
  reading stops at the high water mark and starts again below it, and the user is called only when the low water marks allow.
  The lemmas stand in the locale \<open>event_client\<close>; the properties are their instances on the epoll backend.
\<close>

subsection \<open>The invariant of a buffered event\<close>

text \<open>
  The buffers are well formed; the two events are different; the callback of the input buffer is the one that restarts reading, if any,
  and the user has set none on the output buffer.
\<close>

definition bev_ok :: "eid set \<Rightarrow> bufferevent \<Rightarrow> bool" where
  "bev_ok X b \<longleftrightarrow> evb_ok (be_input b) \<and> evb_ok (be_output b) \<and> be_read b \<in> X \<and> be_write b \<in> X \<and> be_read b \<noteq> be_write b \<and>
     (evb_cb (be_input b) = None \<or> evb_cb (be_input b) = Some READ_PRESSURE_CB) \<and> evb_cb (be_output b) = None \<and>
     be_errorcb b \<noteq> None"

text \<open>A full input buffer is not read into: its event is off, and draining the buffer will restart it.\<close>

definition full :: "bufferevent \<Rightarrow> bool" where
  "full b \<longleftrightarrow> wm_high (be_wm_read b) \<noteq> 0 \<and> wm_high (be_wm_read b) \<le> evb_off (be_input b)"

definition flow :: "bufferevent \<Rightarrow> 'a event_core_scheme \<Rightarrow> bool" where
  "flow b s \<longleftrightarrow> (full b \<longrightarrow> \<not> queued s (be_read b) \<and> evb_cb (be_input b) = Some READ_PRESSURE_CB)"

text \<open>What a function may not change: everything but the buffers and \<open>enabled\<close>.\<close>

definition same_setup :: "bufferevent \<Rightarrow> bufferevent \<Rightarrow> bool" where
  "same_setup b b' \<longleftrightarrow> b' = b\<lparr>be_input := be_input b', be_output := be_output b'\<rparr>"

lemma same_setupD:
  assumes "same_setup b b'"
  shows "be_base b' = be_base b" "be_read b' = be_read b" "be_write b' = be_write b" "be_wm_read b' = be_wm_read b"
    "be_wm_write b' = be_wm_write b" "be_readcb b' = be_readcb b" "be_writecb b' = be_writecb b" "be_errorcb b' = be_errorcb b"
    "be_cbarg b' = be_cbarg b" "be_timeout_read b' = be_timeout_read b" "be_timeout_write b' = be_timeout_write b"
    "be_enabled b' = be_enabled b"
  by (subst assms [unfolded same_setup_def], simp)+

lemma same_setup_upd [simp]: "same_setup b (b\<lparr>be_input := i\<rparr>)" "same_setup b (b\<lparr>be_output := i\<rparr>)" "same_setup b b"
  by (simp_all add: same_setup_def)

lemma same_setup_trans [trans]: "same_setup a b \<Longrightarrow> same_setup b c \<Longrightarrow> same_setup a c"
  unfolding same_setup_def by (metis (no_types, lifting) bufferevent.surjective bufferevent.update_convs(4,5))

lemma setcb_facts [simp]:
  "evb_ok (evbuffer_setcb e c a) = evb_ok e" "contents (evbuffer_setcb e c a) = contents e"
  "evb_off (evbuffer_setcb e c a) = evb_off e" "evb_cb (evbuffer_setcb e c a) = c"
  by (simp_all add: evbuffer_setcb_def evb_ok_def contents_def evb_cells_def)

text \<open>Calls of the system, as documented: no more bytes than asked for, and counts that fit in an \<open>int\<close>.\<close>

definition io_ok :: "bev_io \<Rightarrow> bool" where
  "io_ok io \<longleftrightarrow> (\<forall>t fd n. io_ioctl io t fd = Some n \<longrightarrow> n < 2 ^ 31) \<and>
     (\<forall>t fd k bs. io_read io t fd k = Inr bs \<longrightarrow> length bs \<le> k) \<and>
     (\<forall>t fd bs k. io_write io t fd bs = Inr k \<longrightarrow> k \<le> length bs \<and> k < 2 ^ 31)"

text \<open>The event \<open>e\<close> was handed to \<open>event_add\<close>, whose failure the callers do not see.\<close>

definition scheduled ::
  "('a event_core_scheme) eventop \<Rightarrow> eid \<Rightarrow> int \<Rightarrow> 'a event_core_scheme \<Rightarrow> bool" where
  "scheduled evsel e timeout s' \<longleftrightarrow>
     (\<exists>s r. bufferevent_add evsel s e timeout = Some (r, s') \<and> (r \<noteq> -1 \<longrightarrow> queued s' e))"

text \<open>The call of the user that ends a successful read.\<close>

definition read_call :: "bufferevent \<Rightarrow> usercall option" where
  "read_call b =
     (if wm_low (be_wm_read b) \<noteq> 0 \<and> evb_off (be_input b) < wm_low (be_wm_read b) then None
      else map_option (\<lambda>f. ReadCb f (be_cbarg b)) (be_readcb b))"

text \<open>How many bytes a call of \<open>bufferevent_readcb\<close> asks for, and what \<open>read\<close> answers.\<close>

definition asked :: "bufferevent \<Rightarrow> int" where
  "asked b = (if wm_high (be_wm_read b) \<noteq> 0 then int (wm_high (be_wm_read b)) - int (evb_off (be_input b)) else -1)"

definition answer :: "bev_io \<Rightarrow> int \<Rightarrow> nat \<Rightarrow> bufferevent \<Rightarrow> int + byte list" where
  "answer io fd t b = io_read io t fd (nat (evbuffer_read_size (be_input b) (io_ioctl io t fd) (asked b)))"

text \<open>
  What a call of \<open>bufferevent_readcb\<close> amounts to: \<open>bs\<close> are the bytes that arrived, \<open>c\<close> is the call that it ends with. The read has delivered bytes
  or the end of the file; or it has failed, or \<open>alloc\<close> had no memory for the bytes, and then \<open>errno\<close> decides.
\<close>

definition read_outcome ::
  "bev_io \<Rightarrow> (nat \<Rightarrow> bool) \<Rightarrow> int \<Rightarrow> 16 word \<Rightarrow> nat \<Rightarrow> bufferevent \<Rightarrow> byte list \<Rightarrow> usercall option \<Rightarrow> bufferevent \<Rightarrow> bool" where
  "read_outcome io alloc fd event t b bs c b' \<longleftrightarrow>
     contents (be_input b') = contents (be_input b) @ bs \<and>
     (let error = (\<lambda>what. map_option (\<lambda>f. ErrorCb f (EVBUFFER_READ OR what) (be_cbarg b)) (be_errorcb b))
      in if event = EV_TIMEOUT then bs = [] \<and> c = error EVBUFFER_TIMEOUT
         else if full b then bs = [] \<and> c = None
         else answer io fd t b = Inr bs \<and> c = (if bs = [] then error EVBUFFER_EOF else read_call b') \<or>
           bs = [] \<and> (isl (answer io fd t b) \<or> (\<exists>n. \<not> alloc n)) \<and>
             c = (if io_errno io t = EAGAIN \<or> io_errno io t = EINTR then None else error EVBUFFER_ERROR))"

text \<open>The buffer before the read is well behaved: less than 2^31 bytes held, water marks in order.\<close>

definition read_room :: "bufferevent \<Rightarrow> bool" where
  "read_room b \<longleftrightarrow> evb_off (be_input b) < 2 ^ 31 \<and> evb_totallen (be_input b) \<le> 2 ^ 62 \<and> wm_high (be_wm_read b) < 2 ^ 31 \<and>
     (wm_high (be_wm_read b) = 0 \<or> wm_low (be_wm_read b) \<le> wm_high (be_wm_read b))"

text \<open>The bytes that the read appends, and how many there may be.\<close>

definition fetched ::
  "int + byte list \<Rightarrow> (nat \<Rightarrow> bool) \<Rightarrow> bufferevent \<Rightarrow> int \<Rightarrow> evbuffer \<Rightarrow> cbcall option \<Rightarrow> byte list \<Rightarrow> bool" where
  "fetched ans alloc b res inp c bs \<longleftrightarrow>
     evb_ok inp \<and> evb_cb inp = evb_cb (be_input b) \<and> contents inp = contents (be_input b) @ bs \<and>
     (res = -1 \<and> bs = [] \<and> c = None \<and> (isl ans \<or> (\<exists>n. \<not> alloc n)) \<or>
      ans = Inr bs \<and> res = int (length bs) \<and> c = (if bs = [] then None else evb_notify inp (evb_off (be_input b)))) \<and>
     (wm_high (be_wm_read b) \<noteq> 0 \<longrightarrow> evb_off inp \<le> wm_high (be_wm_read b))"

text \<open>
  The bytes that \<open>read\<close> delivers in a call of \<open>bufferevent_readcb\<close>, and those that \<open>write\<close> takes in a call of \<open>bufferevent_writecb\<close>.
\<close>

definition arrived :: "bev_io \<Rightarrow> int \<Rightarrow> 16 word \<Rightarrow> nat \<Rightarrow> bufferevent \<Rightarrow> byte list" where
  "arrived io fd event t b =
     (if event = EV_TIMEOUT \<or> full b then [] else case answer io fd t b of Inl _ \<Rightarrow> [] | Inr bs \<Rightarrow> bs)"

definition taken :: "bev_io \<Rightarrow> int \<Rightarrow> 16 word \<Rightarrow> nat \<Rightarrow> bufferevent \<Rightarrow> byte list" where
  "taken io fd event t b =
     (if event = EV_TIMEOUT \<or> evb_off (be_output b) = 0 then []
      else case io_write io t fd (contents (be_output b)) of Inl _ \<Rightarrow> [] | Inr k \<Rightarrow> take k (contents (be_output b)))"

text \<open>The number of bytes that may still be read.\<close>

lemma int_of_size_mod: "int_of_size n = (int n + 2 ^ 31) mod 2 ^ 32 - 2 ^ 31"
  by (simp add: int_of_size_def sint_uint unsigned_of_nat signed_take_bit_eq_take_bit_shift take_bit_eq_mod
      mod_add_left_eq zmod_int)

lemma howmuch_value:
  assumes "high < 2 ^ 31" and "off < 2 ^ 31"
  shows "int_of_size (sub64 high off) = int high - int off"
proof (cases "off \<le> high")
  case True
  have "high + (2 ^ 64 - off) = (high - off) + 2 ^ 64" using True assms by simp
  moreover have "(high - off) mod 2 ^ 64 = high - off" using assms by simp
  ultimately have "sub64 high off = high - off" by (simp add: sub64_def u64_def del: power_numeral)
  then show ?thesis using True assms by (simp add: int_of_size_small of_nat_diff)
next
  case False
  define d where "d = off - high"
  have d: "0 < d" "d < 2 ^ 31" using False assms by (simp_all add: d_def)
  have "sub64 high off = 2 ^ 64 - d" using False assms by (simp add: sub64_def u64_def d_def)
  moreover have "int_of_size (2 ^ 64 - d) = - int d"
  proof -
    have "int (2 ^ 64 - d) + 2 ^ 31 = (2 ^ 31 - int d) + 2 ^ 32 * 2 ^ 32" using d by (simp add: of_nat_diff)
    then have "(int (2 ^ 64 - d) + 2 ^ 31) mod 2 ^ 32 = (2 ^ 31 - int d) mod 2 ^ 32" by (metis mod_mult_self2)
    also have "\<dots> = 2 ^ 31 - int d" using d by simp
    finally show ?thesis unfolding int_of_size_mod by (rule trans [OF arg_cong [where f = "\<lambda>x. x - 2 ^ 31"]]) simp
  qed
  ultimately show ?thesis using False by (simp add: d_def of_nat_diff)
qed

lemma bev_error_ok: "bev_ok X b \<Longrightarrow> bev_error what (b, s) = Some (map_option (\<lambda>f. ErrorCb f what (be_cbarg b)) (be_errorcb b), b, s)"
  by (auto simp: bev_error_def bev_ok_def)

lemma untouched_trans: "untouched X e s t \<Longrightarrow> untouched X e t u \<Longrightarrow> untouched X e s u"
  by (simp add: untouched_def)

lemma untouched_tick [simp]: "untouched X e (s\<lparr>tick := n\<rparr>) t = untouched X e s t"
  by (simp add: untouched_def)

lemma full_setup: "same_setup b b' \<Longrightarrow> evb_off (be_input b') = evb_off (be_input b) \<Longrightarrow> full b' = full b"
  by (simp add: full_def same_setupD)

lemma fetch_ok:
  assumes ok: "bev_ok X b" and io: "io_ok io" and room: "read_room b" and nfull: "\<not> full b"
  obtains res inp c bs where "evbuffer_read alloc (io_ioctl io t fd) (io_read io t fd) (be_input b) (asked b) = Some (res, inp, c)"
    and "fetched (answer io fd t b) alloc b res inp c bs"
proof -
  let ?high = "wm_high (be_wm_read b)" and ?off = "evb_off (be_input b)"
  let ?k = "evbuffer_read_size (be_input b) (io_ioctl io t fd) (asked b)"
  have evb: "evb_ok (be_input b)" using ok by (simp add: bev_ok_def)
  have how: "asked b < 2 ^ 31" and ioctl: "\<forall>n. io_ioctl io t fd = Some n \<longrightarrow> n < 2 ^ 31"
    and len: "\<forall>k bs. io_read io t fd k = Inr bs \<longrightarrow> length bs \<le> k"
    using room io by (auto simp: asked_def read_room_def io_ok_def)
  have "evb_misalign (be_input b) + ?off + 2 ^ 31 \<le> 2 ^ 63" using room evb by (simp add: read_room_def evb_ok_def)
  then obtain res inp c where rd: "evbuffer_read alloc (io_ioctl io t fd) (io_read io t fd) (be_input b) (asked b) = Some (res, inp, c)"
    "evb_ok inp" "evb_cb inp = evb_cb (be_input b)"
    "res = -1 \<and> contents inp = contents (be_input b) \<and> c = None \<or>
      (\<exists>bs. answer io fd t b = Inr bs \<and> res = int (length bs) \<and> contents inp = contents (be_input b) @ bs \<and>
        c = (if bs = [] then None else evb_notify inp ?off))"
    "(\<forall>n. alloc n) \<and> res = -1 \<longrightarrow> (\<exists>e. answer io fd t b = Inl e)"
    unfolding answer_def by (rule evbuffer_read_correct [OF evb _ how ioctl len, of alloc]) blast+
  obtain bs where bs: "contents inp = contents (be_input b) @ bs" "length bs \<le> nat ?k"
    "res = -1 \<and> bs = [] \<and> c = None \<and> (isl (answer io fd t b) \<or> (\<exists>n. \<not> alloc n)) \<or>
      answer io fd t b = Inr bs \<and> res = int (length bs) \<and> c = (if bs = [] then None else evb_notify inp ?off)"
  proof (cases "res = -1")
    case True
    then show thesis using that [of "[]"] rd(4,5) by auto
  next
    case False
    then show thesis using that rd(4) len by (auto simp: answer_def)
  qed
  have "evb_off inp \<le> ?high" if h: "?high \<noteq> 0"
  proof -
    have pos: "0 \<le> asked b" "asked b = int ?high - int ?off" using h nfull by (simp_all add: asked_def full_def)
    then have "?k \<le> asked b" using evbuffer_read_size_bounds(4) [OF how ioctl] by blast
    moreover have "evb_off inp = ?off + length bs"
      using arg_cong [OF bs(1), of length] evb rd(2) by simp
    ultimately show ?thesis using bs(2) pos by linarith
  qed
  then show thesis using that [OF rd(1)] rd(2,3) bs(1,3) by (auto simp: fetched_def)
qed

text \<open>Without a lack of memory the bytes are those that \<open>read\<close> delivers.\<close>

lemma outcome_arrived:
  "read_outcome io alloc fd event t b bs c b' \<Longrightarrow> bs = arrived io fd event t b \<or> bs = [] \<and> (\<exists>n. \<not> alloc n)"
  by (auto simp: read_outcome_def arrived_def Let_def split: if_splits sum.splits)

context event_client
begin

lemma add_ok:
  assumes "good X s" and "e \<in> X"
  obtains r s' where "bufferevent_add evsel s e timeout = Some (r, s')" and "good X s'" and "untouched X e s s'"
    and "scheduled evsel e timeout s'" and "add_outcome s e (if timeout \<noteq> 0 then Some (Timeval timeout 0) else None) r s'"
proof -
  obtain r s' where s': "bufferevent_add evsel s e timeout = Some (r, s')" "good X s'" "untouched X e s s'"
    "add_outcome s e (if timeout \<noteq> 0 then Some (Timeval timeout 0) else None) r s'"
    using add_event [OF assms, of "if timeout \<noteq> 0 then Some (Timeval timeout 0) else None"]
    unfolding bufferevent_add_def by blast
  have "r \<noteq> -1 \<longrightarrow> queued s' e" using s'(4) by (simp add: add_outcome_def)
  then show thesis using that [OF s'(1-3) _ s'(4)] s'(1) unfolding scheduled_def by blast
qed

lemma stop_ok:
  assumes "good X s" and "bev_ok X b"
  obtains b' s' where "stop_reading evsel (b, s) = Some (b', s')" and "good X s'" and "bev_ok X b'" and "same_setup b b'"
    and "untouched X (be_read b) s s'" and "flow b' s'" and "be_output b' = be_output b" and "contents (be_input b') = contents (be_input b)"
    and "evb_off (be_input b') = evb_off (be_input b)"
proof -
  have e: "be_read b \<in> X" using assms(2) by (simp add: bev_ok_def)
  obtain r s' where s': "event_del evsel s (be_read b) = Some (r, s')" "good X s'" "untouched X (be_read b) s s'" "\<not> queued s' (be_read b)"
    using del_event [OF assms(1) e] by blast
  let ?b = "b\<lparr>be_input := evbuffer_setcb (be_input b) (Some READ_PRESSURE_CB) (bev_ptr b)\<rparr>"
  have "stop_reading evsel (b, s) = Some (?b, s')" using s'(1) by (simp add: stop_reading_def)
  then show thesis
    by (rule that) (use s'(2-4) assms(2) in \<open>simp_all add: bev_ok_def flow_def\<close>)
qed

text \<open>The callback that restarts reading, when told the present size of the input.\<close>

lemma pressure_ok:
  assumes "good X s" and "bev_ok X b" and now: "now = evb_off (be_input b)"
  obtains b' s' where "read_pressure_cb evsel now (b, s) = Some (b', s')" and "good X s'" and "bev_ok X b'" and "same_setup b b'"
    and "untouched X (be_read b) s s'" and "be_output b' = be_output b" and "contents (be_input b') = contents (be_input b)"
    and "evb_off (be_input b') = evb_off (be_input b)" and "full b \<longrightarrow> b' = b \<and> s' = s"
    and "\<not> full b \<and> has (be_enabled b) EV_READ \<longrightarrow> scheduled evsel (be_read b) (be_timeout_read b) s'"
proof (cases "full b")
  case True
  then show thesis using that [of b s] assms by (simp add: read_pressure_cb_def full_def untouched_def)
next
  case False
  let ?b = "b\<lparr>be_input := evbuffer_setcb (be_input b) None 0\<rparr>"
  have e: "be_read b \<in> X" using assms(2) by (simp add: bev_ok_def)
  have ok: "bev_ok X ?b" using assms(2) by (simp add: bev_ok_def)
  have low: "wm_high (be_wm_read b) = 0 \<or> now < wm_high (be_wm_read b)" using False now by (auto simp: full_def)
  show thesis
  proof (cases "has (be_enabled b) EV_READ")
    case True
    obtain r s' where s': "bufferevent_add evsel s (be_read b) (be_timeout_read b) = Some (r, s')" "good X s'"
      "untouched X (be_read b) s s'" "scheduled evsel (be_read b) (be_timeout_read b) s'"
      by (rule add_ok [OF assms(1) e])
    then have "read_pressure_cb evsel now (b, s) = Some (?b, s')" using low True by (simp add: read_pressure_cb_def Let_def)
    then show thesis by (rule that) (use s' ok False in simp_all)
  next
    case off: False
    then have "read_pressure_cb evsel now (b, s) = Some (?b, s)" using low by (simp add: read_pressure_cb_def Let_def)
    then show thesis by (rule that) (use assms ok False off in \<open>simp_all add: untouched_def\<close>)
  qed
qed

text \<open>The report of a change of the input buffer.\<close>

lemma run_input_cb_ok:
  assumes "good X s" and "bev_ok X b" and c: "c = None \<or> c = evb_notify (be_input b) n"
  obtains b' s' where "run_cb evsel ucb c (b, s) = Some (b', s')" and "good X s'" and "bev_ok X b'" and "same_setup b b'"
    and "untouched X (be_read b) s s'" and "be_output b' = be_output b" and "contents (be_input b') = contents (be_input b)"
    and "evb_off (be_input b') = evb_off (be_input b)" and "full b \<longrightarrow> b' = b \<and> s' = s"
    and "\<not> full b \<and> c \<noteq> None \<and> has (be_enabled b) EV_READ \<longrightarrow> scheduled evsel (be_read b) (be_timeout_read b) s'"
    and "c = None \<longrightarrow> b' = b \<and> s' = s"
proof (cases "c = None")
  case True
  then show thesis using that [of b s] assms by (simp add: run_cb_def untouched_def)
next
  case False
  then obtain k where k: "c = Some k" "cb_fun k = READ_PRESSURE_CB" "cb_now k = evb_off (be_input b)"
    using assms(2,3) by (auto simp: evb_notify_def bev_ok_def split: option.splits)
  then have "run_cb evsel ucb c (b, s) = read_pressure_cb evsel (evb_off (be_input b)) (b, s)" by (simp add: run_cb_def)
  then show thesis using pressure_ok [OF assms(1,2) refl] that False by (metis (no_types, lifting))
qed

text \<open>The end of \<open>bufferevent_readcb\<close> after bytes have arrived.\<close>

lemma read_done_ok:
  assumes "good X s" and "bev_ok X b"
    and low: "wm_high (be_wm_read b) = 0 \<or> wm_low (be_wm_read b) \<le> wm_high (be_wm_read b)"
  obtains b' s' where "read_done evsel (b, s) = Some (read_call b, b', s')" and "good X s'" and "bev_ok X b'" and "same_setup b b'"
    and "untouched X (be_read b) s s'" and "be_output b' = be_output b" and "contents (be_input b') = contents (be_input b)"
    and "evb_off (be_input b') = evb_off (be_input b)" and "flow b' s'"
    and "\<not> full b \<Longrightarrow> scheduled evsel (be_read b) (be_timeout_read b) s'"
proof -
  have e: "be_read b \<in> X" using assms(2) by (simp add: bev_ok_def)
  obtain r s1 where s1: "bufferevent_add evsel s (be_read b) (be_timeout_read b) = Some (r, s1)" "good X s1"
    "untouched X (be_read b) s s1" "scheduled evsel (be_read b) (be_timeout_read b) s1"
    by (rule add_ok [OF assms(1) e])
  show thesis
  proof (cases "full b")
    case True
    obtain b' s' where b': "stop_reading evsel (b, s1) = Some (b', s')" "good X s'" "bev_ok X b'" "same_setup b b'"
      "untouched X (be_read b) s1 s'" "flow b' s'" "be_output b' = be_output b" "contents (be_input b') = contents (be_input b)"
      "evb_off (be_input b') = evb_off (be_input b)"
      by (rule stop_ok [OF s1(2) assms(2)])
    have "untouched X (be_read b) s s'" using s1(3) b'(5) by (simp add: untouched_def)
    moreover have "read_done evsel (b, s) = Some (read_call b, b', s')"
      using s1(1) b'(1) True low same_setupD [OF b'(4)] by (auto simp: read_done_def read_call_def full_def Let_def)
    ultimately show thesis using that b' True by blast
  next
    case False
    then have "read_done evsel (b, s) = Some (read_call b, b, s1)"
      using s1(1) by (auto simp: read_done_def read_call_def full_def Let_def)
    moreover have "flow b s1" using False by (simp add: flow_def)
    ultimately show thesis using that [of b s1] s1 assms(2) by simp
  qed
qed

text \<open>From the return of the read on.\<close>

lemma readcb_arrived:
  assumes b1: "good X s1" "bev_ok X b1" and room: "read_room b" and st1: "same_setup b b1" and ev: "event \<noteq> EV_TIMEOUT"
    and nfull: "\<not> full b" and bs: "bs \<noteq> []" "answer io fd t b = Inr bs" "contents (be_input b1) = contents (be_input b) @ bs"
  obtains c b' s' where "read_done evsel (b1, s1) = Some (c, b', s')" and "good X s'" and "bev_ok X b'" and "same_setup b b'"
    and "be_output b' = be_output b1" and "flow b' s'" and "untouched X (be_read b) s1 s'"
    and "read_outcome io alloc fd event t b bs c b'" and "evb_off (be_input b') = evb_off (be_input b1)"
    and "\<not> full b' \<longrightarrow> scheduled evsel (be_read b) (be_timeout_read b) s'"
proof -
  note S = same_setupD [OF st1]
  obtain b' s' where b': "read_done evsel (b1, s1) = Some (read_call b1, b', s')" "good X s'" "bev_ok X b'" "same_setup b1 b'"
    "untouched X (be_read b1) s1 s'" "be_output b' = be_output b1" "contents (be_input b') = contents (be_input b1)"
    "evb_off (be_input b') = evb_off (be_input b1)" "flow b' s'"
    "\<not> full b1 \<Longrightarrow> scheduled evsel (be_read b1) (be_timeout_read b1) s'"
    by (rule read_done_ok [OF b1]) (use room S in \<open>auto simp: read_room_def\<close>)
  have "read_call b' = read_call b1" using same_setupD [OF b'(4)] b'(8) by (simp add: read_call_def)
  then have "read_outcome io alloc fd event t b bs (read_call b1) b'"
    using ev nfull bs b'(7) by (auto simp: read_outcome_def)
  moreover have "full b' = full b1" by (rule full_setup [OF b'(4,8)])
  moreover have "same_setup b b'" by (rule same_setup_trans [OF st1 b'(4)])
  ultimately show thesis using that b' S by simp
qed

lemma readcb_nothing:
  assumes b1: "good X s1" "bev_ok X b1" and st1: "same_setup b b1" and ev: "event \<noteq> EV_TIMEOUT" and nfull: "\<not> full b"
    and same: "contents (be_input b1) = contents (be_input b)" "evb_off (be_input b1) = evb_off (be_input b)"
    and res: "res = (-1 :: int) \<and> (isl (answer io fd t b) \<or> (\<exists>n. \<not> alloc n)) \<or> res = 0 \<and> answer io fd t b = Inr []"
  obtains c s' where
    "(if res = -1 then
        if io_errno io t = EAGAIN \<or> io_errno io t = EINTR
        then do { (r, s2) \<leftarrow> bufferevent_add evsel s1 (be_read b1) (be_timeout_read b1); Some (None, b1, s2) }
        else bev_error (EVBUFFER_READ OR EVBUFFER_ERROR) (b1, s1)
      else bev_error (EVBUFFER_READ OR EVBUFFER_EOF) (b1, s1)) = Some (c, b1, s')"
    and "good X s'" and "flow b1 s'" and "untouched X (be_read b) s1 s'" and "read_outcome io alloc fd event t b [] c b1"
    and "c = None \<longrightarrow> scheduled evsel (be_read b) (be_timeout_read b) s'"
proof -
  note S = same_setupD [OF st1]
  have nf: "\<not> full b1" using nfull full_setup [OF st1 same(2)] by simp
  have e1: "be_read b1 \<in> X" using b1(2) by (simp add: bev_ok_def)
  have err: "be_errorcb b \<noteq> None" using b1(2) S by (simp add: bev_ok_def)
  show thesis
  proof (cases "res = -1 \<and> (io_errno io t = EAGAIN \<or> io_errno io t = EINTR)")
    case True
    obtain r s2 where s2: "bufferevent_add evsel s1 (be_read b1) (be_timeout_read b1) = Some (r, s2)" "good X s2"
      "untouched X (be_read b1) s1 s2" "scheduled evsel (be_read b1) (be_timeout_read b1) s2"
      by (rule add_ok [OF b1(1) e1])
    have "read_outcome io alloc fd event t b [] None b1"
      using True res ev nfull same by (simp add: read_outcome_def Let_def)
    then show thesis using that [of None s2] True s2 nf by (simp add: flow_def S)
  next
    case False
    define what where "what = (if res = 0 then EVBUFFER_READ OR EVBUFFER_EOF else EVBUFFER_READ OR EVBUFFER_ERROR)"
    let ?c = "map_option (\<lambda>f. ErrorCb f what (be_cbarg b)) (be_errorcb b)"
    have "read_outcome io alloc fd event t b [] ?c b1"
      using False res ev nfull same by (auto simp: read_outcome_def what_def Let_def)
    then show thesis
      using that [of ?c s1] False res b1(1) nf err by (auto simp: bev_error_ok [OF b1(2)] flow_def S what_def untouched_def)
  qed
qed

lemma readcb_ok:
  assumes g: "good X s" and ok: "bev_ok X b" and fl: "event = EV_TIMEOUT \<Longrightarrow> flow b s" and io: "io_ok io" and room: "read_room b"
  obtains c b' s' bs where "bufferevent_readcb evsel ucb io fd event (b, s) = Some (c, b', s')" and "good X s'" and "bev_ok X b'"
    and "same_setup b b'" and "be_output b' = be_output b" and "flow b' s'" and "untouched X (be_read b) s s'"
    and "read_outcome io (os_alloc (os s) (tick s)) fd event (tick s) b bs c b'"
    and "wm_high (be_wm_read b) \<noteq> 0 \<Longrightarrow> evb_off (be_input b') \<le> max (wm_high (be_wm_read b)) (evb_off (be_input b))"
    and "event \<noteq> EV_TIMEOUT \<Longrightarrow> \<not> full b \<Longrightarrow> \<not> full b' \<Longrightarrow> bs \<noteq> [] \<or> c = None \<Longrightarrow>
      scheduled evsel (be_read b) (be_timeout_read b) s'"
proof -
  let ?high = "wm_high (be_wm_read b)" and ?off = "evb_off (be_input b)"
  have how: "int_of_size (sub64 ?high ?off) = int ?high - int ?off"
    using room howmuch_value by (simp add: read_room_def)
  consider "event = EV_TIMEOUT" | "event \<noteq> EV_TIMEOUT" "full b" | "event \<noteq> EV_TIMEOUT" "\<not> full b" by blast
  then show thesis
  proof cases
    case 1
    then have "bufferevent_readcb evsel ucb io fd event (b, s)
        = Some (map_option (\<lambda>f. ErrorCb f (EVBUFFER_READ OR EVBUFFER_TIMEOUT) (be_cbarg b)) (be_errorcb b), b, s)"
      using bev_error_ok [OF ok] by (simp add: bufferevent_readcb_def)
    then show thesis
      by (rule that [where bs = "[]"]) (use g ok fl 1 in \<open>simp_all add: read_outcome_def untouched_def\<close>)
  next
    case 2
    obtain b' s' where b': "stop_reading evsel (b, s) = Some (b', s')" "good X s'" "bev_ok X b'" "same_setup b b'"
      "untouched X (be_read b) s s'" "flow b' s'" "be_output b' = be_output b" "contents (be_input b') = contents (be_input b)"
      "evb_off (be_input b') = evb_off (be_input b)"
      by (rule stop_ok [OF g ok])
    have "bufferevent_readcb evsel ucb io fd event (b, s) = Some (None, b', s')"
      using 2 b'(1) how by (simp add: bufferevent_readcb_def full_def Let_def)
    then show thesis
      by (rule that [where bs = "[]"]) (use b' 2 in \<open>simp_all add: read_outcome_def\<close>)
  next
    case 3
    obtain res inp c0 bs where rd: "evbuffer_read (os_alloc (os s) (tick s)) (io_ioctl io (tick s) fd) (io_read io (tick s) fd)
        (be_input b) (asked b) = Some (res, inp, c0)"
      "fetched (answer io fd (tick s) b) (os_alloc (os s) (tick s)) b res inp c0 bs"
      by (rule fetch_ok [OF ok io room 3(2)])
    note F = rd(2) [unfolded fetched_def]
    let ?b0 = "b\<lparr>be_input := inp\<rparr>" and ?s0 = "s\<lparr>tick := tick s + 1\<rparr>"
    have ok0: "bev_ok X ?b0" using ok F by (auto simp: bev_ok_def)
    have c0: "c0 = None \<or> c0 = evb_notify (be_input ?b0) ?off" using F by auto
    obtain b1 s1 where b1: "run_cb evsel ucb c0 (?b0, ?s0) = Some (b1, s1)" "good X s1" "bev_ok X b1" "same_setup ?b0 b1"
      "untouched X (be_read ?b0) ?s0 s1" "be_output b1 = be_output ?b0" "contents (be_input b1) = contents (be_input ?b0)"
      "evb_off (be_input b1) = evb_off (be_input ?b0)"
      by (rule run_input_cb_ok [OF tick_event [OF g] ok0 c0])
    have st1: "same_setup b b1" using b1(4) same_setup_trans [of b ?b0 b1] by simp
    have un1: "untouched X (be_read b) s s1" using b1(5) by simp
    have eq: "bufferevent_readcb evsel ucb io fd event (b, s) =
       (if res = -1 then
          if io_errno io (tick s) = EAGAIN \<or> io_errno io (tick s) = EINTR
          then do { (r, s2) \<leftarrow> bufferevent_add evsel s1 (be_read b1) (be_timeout_read b1); Some (None, b1, s2) }
          else bev_error (EVBUFFER_READ OR EVBUFFER_ERROR) (b1, s1)
        else if res = 0 then bev_error (EVBUFFER_READ OR EVBUFFER_EOF) (b1, s1)
        else read_done evsel (b1, s1))"
      using 3 how rd(1) b1(1) F by (auto simp: bufferevent_readcb_def Let_def full_def asked_def)
    show thesis
    proof (cases "bs = []")
      case False
      then have k: "answer io fd (tick s) b = Inr bs" "0 < res" using F by auto
      have in1: "contents (be_input b1) = contents (be_input b) @ bs" "?high \<noteq> 0 \<Longrightarrow> evb_off (be_input b1) \<le> ?high"
        using F b1(7,8) by simp_all
      obtain c b' s' where b': "read_done evsel (b1, s1) = Some (c, b', s')" "good X s'" "bev_ok X b'" "same_setup b b'"
        "be_output b' = be_output b1" "flow b' s'" "untouched X (be_read b) s1 s'" "read_outcome io (os_alloc (os s) (tick s)) fd event (tick s) b bs c b'"
        "evb_off (be_input b') = evb_off (be_input b1)" "\<not> full b' \<longrightarrow> scheduled evsel (be_read b) (be_timeout_read b) s'"
        by (rule readcb_arrived [OF b1(2,3) room st1 3 False k(1) in1(1)])
      have "bufferevent_readcb evsel ucb io fd event (b, s) = Some (c, b', s')" using eq k(2) b'(1) by simp
      then show thesis
        by (rule that [OF _ b'(2-4) _ b'(6) untouched_trans [OF un1 b'(7)] b'(8)])
          (use b'(5,9,10) b1(6) in1(2) in \<open>simp_all add: le_max_iff_disj\<close>)
    next
      case True
      then have same: "contents (be_input b1) = contents (be_input b)" using F b1(7) by simp
      then have off: "evb_off (be_input b1) = evb_off (be_input b)"
        using ok b1(3) length_contents unfolding bev_ok_def by metis
      have res: "res = -1 \<and> (isl (answer io fd (tick s) b) \<or> (\<exists>n. \<not> os_alloc (os s) (tick s) n)) \<or>
          res = 0 \<and> answer io fd (tick s) b = Inr []"
        using F True by auto
      have eq0: "bufferevent_readcb evsel ucb io fd event (b, s) =
         (if res = -1 then
            if io_errno io (tick s) = EAGAIN \<or> io_errno io (tick s) = EINTR
            then do { (r, s2) \<leftarrow> bufferevent_add evsel s1 (be_read b1) (be_timeout_read b1); Some (None, b1, s2) }
            else bev_error (EVBUFFER_READ OR EVBUFFER_ERROR) (b1, s1)
          else bev_error (EVBUFFER_READ OR EVBUFFER_EOF) (b1, s1))"
        using eq res by auto
      obtain c s' where s': "bufferevent_readcb evsel ucb io fd event (b, s) = Some (c, b1, s')" "good X s'" "flow b1 s'"
        "untouched X (be_read b) s1 s'" "read_outcome io (os_alloc (os s) (tick s)) fd event (tick s) b [] c b1"
        "c = None \<longrightarrow> scheduled evsel (be_read b) (be_timeout_read b) s'"
        by (rule readcb_nothing [OF b1(2,3) st1 3 same off res, folded eq0])
      show thesis
        by (rule that [OF s'(1,2) b1(3) st1 _ s'(3) untouched_trans [OF un1 s'(4)] s'(5)]) (use b1(6) off True s'(6) in simp_all)
    qed
  qed
qed

text \<open>Taking bytes out of the input buffer.\<close>

lemma read_ok:
  assumes g: "good X s" and ok: "bev_ok X b" and fl: "flow b s"
  obtains b' s' where "bufferevent_read evsel ucb (b, s) n =
      Some (min n (evb_off (be_input b)), take n (contents (be_input b)), b', s')" and "good X s'" and "bev_ok X b'"
    and "same_setup b b'" and "be_output b' = be_output b" and "flow b' s'" and "untouched X (be_read b) s s'"
    and "contents (be_input b') = drop n (contents (be_input b))"
    and "full b \<Longrightarrow> \<not> full b' \<Longrightarrow> has (be_enabled b) EV_READ \<Longrightarrow> scheduled evsel (be_read b) (be_timeout_read b) s'"
proof -
  let ?m = "min n (evb_off (be_input b))"
  have evb: "evb_ok (be_input b)" "length (contents (be_input b)) = evb_off (be_input b)" using ok by (simp_all add: bev_ok_def)
  have tk: "take ?m (contents (be_input b)) = take n (contents (be_input b))"
    "drop ?m (contents (be_input b)) = drop n (contents (be_input b))"
    by (simp_all add: min_def evb(2))
  have size: "(if evb_off (be_input b) < n then evb_off (be_input b) else n) = ?m" by simp
  have data: "cells_read (evb_cells (be_input b)) (evb_buffer (be_input b)) ?m = Some (take n (contents (be_input b)))"
    using evb_ok_read [OF evb(1), of ?m] by (simp add: tk)
  show thesis
  proof (cases "?m = 0")
    case True
    have "drop n (contents (be_input b)) = contents (be_input b)" using True evb(2) by (simp add: min_def split: if_splits)
    moreover have "bufferevent_read evsel ucb (b, s) n = Some (?m, take n (contents (be_input b)), b, s)"
      unfolding bufferevent_read_def prod.case Let_def size data using True by simp
    ultimately show thesis using that [of b s] g ok fl by (simp add: untouched_def)
  next
    case False
    define inp where "inp = fst (evbuffer_drain (be_input b) ?m)"
    note D = evbuffer_drain_correct [OF evb(1), of ?m, folded inp_def]
    let ?b0 = "b\<lparr>be_input := inp\<rparr>"
    have ok0: "bev_ok X ?b0" using ok D(1,4) by (simp add: bev_ok_def)
    obtain b' s' where b': "run_cb evsel ucb (evb_notify inp (evb_off (be_input b))) (?b0, s) = Some (b', s')" "good X s'" "bev_ok X b'"
      "same_setup ?b0 b'" "untouched X (be_read ?b0) s s'" "be_output b' = be_output ?b0"
      "contents (be_input b') = contents (be_input ?b0)" "evb_off (be_input b') = evb_off (be_input ?b0)"
      "full ?b0 \<longrightarrow> b' = ?b0 \<and> s' = s"
      "\<not> full ?b0 \<and> evb_notify inp (evb_off (be_input b)) \<noteq> None \<and> has (be_enabled ?b0) EV_READ \<longrightarrow>
        scheduled evsel (be_read ?b0) (be_timeout_read ?b0) s'"
      by (rule run_input_cb_ok [OF g ok0, of "evb_notify inp (evb_off (be_input b))" "evb_off (be_input b)" ucb]) simp_all
    have "evb_off (be_input b) \<noteq> 0" using False by simp
    then have drain: "evbuffer_drain (be_input b) ?m = (inp, evb_notify inp (evb_off (be_input b)))"
      using D(3) False unfolding inp_def by (metis prod.collapse)
    have "bufferevent_read evsel ucb (b, s) n = Some (?m, take n (contents (be_input b)), b', s')"
      unfolding bufferevent_read_def prod.case Let_def size data using False b'(1) by (simp add: drain)
    moreover have st: "same_setup b b'" using same_setup_trans [of b ?b0 b'] b'(4) by simp
    moreover have fullD: "full b' = full ?b0" by (rule full_setup [OF b'(4,8)])
    moreover have shrink: "full b' \<Longrightarrow> full b"
      using arg_cong [OF D(2), of length] D(1) evb(2) by (simp add: fullD) (auto simp: full_def)
    moreover have "flow b' s'" using fl b'(9) shrink fullD D(4) by (auto simp: flow_def)
    moreover have "full b \<Longrightarrow> evb_notify inp (evb_off (be_input b)) \<noteq> None"
      using fl D(4) by (simp add: flow_def evb_notify_def)
    ultimately show thesis
      by (intro that [of b' s']) (use b' D(2) tk in simp_all)
  qed
qed

end

subsection \<open>The output\<close>

definition write_call :: "bufferevent \<Rightarrow> usercall option" where
  "write_call b =
     (if evb_off (be_output b) \<le> wm_low (be_wm_write b) then map_option (\<lambda>f. WriteCb f (be_cbarg b)) (be_writecb b) else None)"

text \<open>What a call of \<open>bufferevent_writecb\<close> amounts to: \<open>bs\<close> are the bytes that the descriptor took.\<close>

definition write_outcome ::
  "bev_io \<Rightarrow> int \<Rightarrow> 16 word \<Rightarrow> nat \<Rightarrow> bufferevent \<Rightarrow> byte list \<Rightarrow> usercall option \<Rightarrow> bufferevent \<Rightarrow> bool" where
  "write_outcome io fd event t b bs c b' \<longleftrightarrow>
     contents (be_output b) = bs @ contents (be_output b') \<and>
     (let err = (\<lambda>what. map_option (\<lambda>f. ErrorCb f (EVBUFFER_WRITE OR what) (be_cbarg b)) (be_errorcb b)) in
      if event = EV_TIMEOUT then bs = [] \<and> c = err EVBUFFER_TIMEOUT
      else if evb_off (be_output b) = 0 then bs = [] \<and> c = write_call b
      else (case io_write io t fd (contents (be_output b)) of
              Inr k \<Rightarrow> length bs = k \<and> c = (if k = 0 then err EVBUFFER_EOF else write_call b')
            | Inl e \<Rightarrow> bs = [] \<and> c = (if io_errno io t = EAGAIN \<or> io_errno io t = EINTR \<or> io_errno io t = EINPROGRESS
                                   then None else err EVBUFFER_ERROR)))"

lemma taken_outcome:
  assumes "write_outcome io fd event t b bs c b'"
  shows "bs = taken io fd event t b"
  using assms by (auto simp: write_outcome_def taken_def Let_def split: if_splits sum.splits)

context event_client
begin

lemma reschedule_ok:
  assumes "good X s" and "bev_ok X b"
  obtains s' where "reschedule_write evsel (b, s) = Some (b, s')" and "good X s'" and "untouched X (be_write b) s s'"
    and "contents (be_output b) \<noteq> [] \<longrightarrow> scheduled evsel (be_write b) (be_timeout_write b) s'"
proof -
  have len: "length (contents (be_output b)) = evb_off (be_output b)" and e: "be_write b \<in> X"
    using assms(2) by (simp_all add: bev_ok_def)
  show thesis
  proof (cases "evb_off (be_output b) = 0")
    case True
    then show thesis using that [of s] assms(1) len by (simp add: reschedule_write_def untouched_def)
  next
    case False
    obtain r s' where "bufferevent_add evsel s (be_write b) (be_timeout_write b) = Some (r, s')" "good X s'"
      "untouched X (be_write b) s s'" "scheduled evsel (be_write b) (be_timeout_write b) s'"
      by (rule add_ok [OF assms(1) e])
    then show thesis using that [of s'] False by (simp add: reschedule_write_def)
  qed
qed

lemma flow_write:
  assumes "bev_ok X b" and "flow b s" and "untouched X (be_write b) s s'" and "same_setup b b'" and "be_input b' = be_input b"
  shows "flow b' s'"
  using assms untouched_queued [OF assms(3), of "be_read b"] same_setupD [OF assms(4)]
  by (simp add: flow_def full_def bev_ok_def)

lemma write_ok:
  assumes g: "good X s" and ok: "bev_ok X b" and fl: "flow b s"
    and room: "evb_misalign (be_output b) + evb_off (be_output b) + length data \<le> 2 ^ 63"
  obtains r b' s' where "bufferevent_write evsel ucb (b, s) data = Some (r, b', s')" and "good X s'" and "bev_ok X b'"
    and "same_setup b b'" and "be_input b' = be_input b" and "flow b' s'" and "untouched X (be_write b) s s'"
    and "r = 0 \<and> contents (be_output b') = contents (be_output b) @ data \<and>
        (data \<noteq> [] \<and> has (be_enabled b) EV_WRITE \<longrightarrow> scheduled evsel (be_write b) (be_timeout_write b) s') \<or>
      r = -1 \<and> contents (be_output b') = contents (be_output b)"
    and "\<forall>t n. os_alloc (os s) t n \<Longrightarrow> r = 0"
proof -
  have evb: "evb_ok (be_output b)" and cb: "evb_cb (be_output b) = None" and e: "be_write b \<in> X" using ok by (simp_all add: bev_ok_def)
  obtain r out c where out: "evbuffer_add (os_alloc (os s) (tick s)) (be_output b) data = Some (r, out, c)" "evb_ok out"
    "evb_cb out = evb_cb (be_output b)"
    "r = 0 \<and> contents out = contents (be_output b) @ data \<and> c = (if data = [] then None else evb_notify out (evb_off (be_output b))) \<or>
      r = -1 \<and> contents out = contents (be_output b) \<and> c = None"
    "\<forall>k. os_alloc (os s) (tick s) k \<Longrightarrow> r = 0"
    by (rule evbuffer_add_correct [OF evb room, of "os_alloc (os s) (tick s)"]) blast
  have c: "c = None" using out(3,4) cb by (auto simp: evb_notify_def)
  let ?b = "b\<lparr>be_output := out\<rparr>" and ?s = "s\<lparr>tick := tick s + 1\<rparr>"
  have ok1: "bev_ok X ?b" using ok out(2,3) by (simp add: bev_ok_def)
  have g1: "good X ?s" by (rule tick_event [OF g])
  have un1: "untouched X (be_write b) s ?s" by (simp add: untouched_def)
  show thesis
  proof (cases "r = 0 \<and> data \<noteq> [] \<and> has (be_enabled b) EV_WRITE")
    case True
    obtain r2 s2 where s2: "bufferevent_add evsel ?s (be_write b) (be_timeout_write b) = Some (r2, s2)" "good X s2"
      "untouched X (be_write b) ?s s2" "scheduled evsel (be_write b) (be_timeout_write b) s2"
      by (rule add_ok [OF g1 e])
    have "bufferevent_write evsel ucb (b, s) data = Some (r, ?b, s2)"
      using out(1) True s2(1) by (simp add: bufferevent_write_def run_cb_def c)
    moreover have "untouched X (be_write b) s s2" using untouched_trans [OF un1 s2(3)] .
    ultimately show thesis
      using that [of r ?b s2] s2(2,4) ok1 out(4) True flow_write [OF ok fl] by auto
  next
    case False
    then have "bufferevent_write evsel ucb (b, s) data = Some (r, ?b, ?s)"
      using out(1,4) by (auto simp: bufferevent_write_def run_cb_def c)
    then show thesis
      using that [of r ?b ?s] g1 ok1 un1 out(4,5) False flow_write [OF ok fl un1] by auto
  qed
qed

lemma write_done_ok:
  assumes "good X s" and "bev_ok X b"
  obtains s' where "write_done evsel (b, s) = Some (write_call b, b, s')" and "good X s'" and "untouched X (be_write b) s s'"
    and "contents (be_output b) \<noteq> [] \<longrightarrow> scheduled evsel (be_write b) (be_timeout_write b) s'"
proof -
  obtain s' where s': "reschedule_write evsel (b, s) = Some (b, s')" "good X s'" "untouched X (be_write b) s s'"
    "contents (be_output b) \<noteq> [] \<longrightarrow> scheduled evsel (be_write b) (be_timeout_write b) s'"
    by (rule reschedule_ok [OF assms])
  then have "write_done evsel (b, s) = Some (write_call b, b, s')" by (simp add: write_done_def write_call_def)
  then show thesis using that s' by blast
qed

text \<open>From the return of \<open>write\<close> on.\<close>

lemma writecb_taken:
  assumes b1: "good X s1" "bev_ok X b1" and st: "same_setup b b1" and ev: "event \<noteq> EV_TIMEOUT" "evb_off (be_output b) \<noteq> 0"
    and k: "io_write io t fd (contents (be_output b)) = Inr k" "k \<le> evb_off (be_output b)"
    and out: "contents (be_output b1) = drop k (contents (be_output b))" and len: "length (contents (be_output b)) = evb_off (be_output b)"
  obtains c s' where "(if k = 0 then bev_error (EVBUFFER_WRITE OR EVBUFFER_EOF) (b1, s1) else write_done evsel (b1, s1)) = Some (c, b1, s')"
    and "good X s'" and "untouched X (be_write b) s1 s'"
    and "write_outcome io fd event t b (take k (contents (be_output b))) c b1"
    and "k \<noteq> 0 \<and> contents (be_output b1) \<noteq> [] \<longrightarrow> scheduled evsel (be_write b) (be_timeout_write b) s'"
proof (cases "k = 0")
  case True
  have "write_outcome io fd event t b [] (map_option (\<lambda>f. ErrorCb f (EVBUFFER_WRITE OR EVBUFFER_EOF) (be_cbarg b)) (be_errorcb b)) b1"
    using ev k out True by (simp add: write_outcome_def)
  then show thesis
    using that [of _ s1] True b1(1) by (simp add: bev_error_ok [OF b1(2)] same_setupD [OF st] untouched_def)
next
  case False
  note S = same_setupD [OF st]
  obtain s' where s': "write_done evsel (b1, s1) = Some (write_call b1, b1, s')" "good X s'" "untouched X (be_write b1) s1 s'"
    "contents (be_output b1) \<noteq> [] \<longrightarrow> scheduled evsel (be_write b1) (be_timeout_write b1) s'"
    by (rule write_done_ok [OF b1])
  have "write_outcome io fd event t b (take k (contents (be_output b))) (write_call b1) b1"
    using ev k out len False by (simp add: write_outcome_def)
  then show thesis using that [of _ s'] False s' S by simp
qed

lemma writecb_refused:
  assumes g: "good X s" and ok: "bev_ok X b" and ev: "event \<noteq> EV_TIMEOUT" "evb_off (be_output b) \<noteq> 0"
    and e: "io_write io t fd (contents (be_output b)) = Inl e"
  obtains c s' where "(if io_errno io t = EAGAIN \<or> io_errno io t = EINTR \<or> io_errno io t = EINPROGRESS
      then do { st' \<leftarrow> reschedule_write evsel (b, s); Some (None, st') }
      else bev_error (EVBUFFER_WRITE OR EVBUFFER_ERROR) (b, s)) = Some (c, b, s')"
    and "good X s'" and "untouched X (be_write b) s s'" and "write_outcome io fd event t b [] c b"
    and "c = None \<longrightarrow> scheduled evsel (be_write b) (be_timeout_write b) s'"
proof -
  have len: "length (contents (be_output b)) = evb_off (be_output b)" using ok by (simp add: bev_ok_def)
  have ne: "be_errorcb b \<noteq> None" using ok by (simp add: bev_ok_def)
  show thesis
  proof (cases "io_errno io t = EAGAIN \<or> io_errno io t = EINTR \<or> io_errno io t = EINPROGRESS")
    case True
    obtain s' where s': "reschedule_write evsel (b, s) = Some (b, s')" "good X s'" "untouched X (be_write b) s s'"
      "contents (be_output b) \<noteq> [] \<longrightarrow> scheduled evsel (be_write b) (be_timeout_write b) s'"
      by (rule reschedule_ok [OF g ok])
    have "write_outcome io fd event t b [] None b" using ev e True by (simp add: write_outcome_def)
    moreover have "contents (be_output b) \<noteq> []" using len ev(2) by auto
    ultimately show thesis using that [of None s'] True s' by simp
  next
    case False
    have "write_outcome io fd event t b []
        (map_option (\<lambda>f. ErrorCb f (EVBUFFER_WRITE OR EVBUFFER_ERROR) (be_cbarg b)) (be_errorcb b)) b"
      using ev e False by (simp add: write_outcome_def)
    then show thesis using that [of _ s] False g ne by (simp add: bev_error_ok [OF ok] untouched_def)
  qed
qed

text \<open>The state that a function for writing may leave: \<open>b'\<close> differs from \<open>b\<close> in the output buffer only.\<close>

definition wrote :: "eid set \<Rightarrow> bufferevent \<Rightarrow> 'a event_core_scheme \<Rightarrow> bufferevent \<Rightarrow> 'a event_core_scheme \<Rightarrow> bool" where
  "wrote X b s b' s' \<longleftrightarrow> good X s' \<and> bev_ok X b' \<and> same_setup b b' \<and> be_input b' = be_input b \<and> flow b' s' \<and>
     untouched X (be_write b) s s'"

lemma writecb_try:
  assumes g: "good X s" and ok: "bev_ok X b" and fl: "flow b s" and io: "io_ok io"
    and ev: "event \<noteq> EV_TIMEOUT" "evb_off (be_output b) \<noteq> 0"
  obtains c b' s' bs where "bufferevent_writecb evsel ucb io fd event (b, s) = Some (c, b', s')" and "wrote X b s b' s'"
    and "write_outcome io fd event (tick s) b bs c b'"
    and "contents (be_output b') \<noteq> [] \<and> (bs \<noteq> [] \<or> c = None) \<longrightarrow> scheduled evsel (be_write b) (be_timeout_write b) s'"
proof -
  let ?wr = "io_write io (tick s) fd" and ?cs = "contents (be_output b)"
  have evb: "evb_ok (be_output b)" "length ?cs = evb_off (be_output b)" and cb: "evb_cb (be_output b) = None"
    using ok by (simp_all add: bev_ok_def)
  have wr: "k \<le> evb_off (be_output b) \<and> k < 2 ^ 31" if "?wr ?cs = Inr k" for k
    using io that evb(2) unfolding io_ok_def by metis
  obtain r out c where w: "evbuffer_write ?wr (be_output b) = Some (r, out, c)" "evb_ok out" "evb_cb out = evb_cb (be_output b)"
    "(\<exists>e. ?wr ?cs = Inl e) \<and> r = -1 \<and> out = be_output b \<and> c = None \<or>
      (\<exists>k. ?wr ?cs = Inr k \<and> r = int k \<and> contents out = drop k ?cs \<and> c = (if k = 0 then None else evb_notify out (evb_off (be_output b))))"
    by (rule evbuffer_write_correct [OF evb(1), where wr = ?wr]) (use wr in blast)+
  have c: "c = None" using w(3,4) cb by (auto simp: evb_notify_def)
  let ?b = "b\<lparr>be_output := out\<rparr>" and ?s = "s\<lparr>tick := tick s + 1\<rparr>"
  have ok1: "bev_ok X ?b" using ok w(2,3) by (simp add: bev_ok_def)
  have g1: "good X ?s" by (rule tick_event [OF g])
  have W: "wrote X b s ?b s'" if "good X s'" "untouched X (be_write b) ?s s'" for s'
    using that ok1 flow_write [OF ok fl] by (simp add: wrote_def)
  show thesis
  proof (cases "?wr ?cs")
    case (Inl e)
    then have b: "?b = b" "r = -1" using w(4) by simp_all
    obtain c' s' where s': "(if io_errno io (tick s) = EAGAIN \<or> io_errno io (tick s) = EINTR \<or> io_errno io (tick s) = EINPROGRESS
        then do { st' \<leftarrow> reschedule_write evsel (b, ?s); Some (None, st') }
        else bev_error (EVBUFFER_WRITE OR EVBUFFER_ERROR) (b, ?s)) = Some (c', b, s')"
      "good X s'" "untouched X (be_write b) ?s s'" "write_outcome io fd event (tick s) b [] c' b"
      "c' = None \<longrightarrow> scheduled evsel (be_write b) (be_timeout_write b) s'"
      by (rule writecb_refused [OF g1 ok ev Inl])
    have "bufferevent_writecb evsel ucb io fd event (b, s) = Some (c', b, s')"
      using ev w(1) s'(1) b c by (simp add: bufferevent_writecb_def run_cb_def cong: if_cong)
    then show thesis using that [of c' b s' "[]"] s'(4,5) W [OF s'(2,3)] b(1) by simp
  next
    case (Inr k)
    then have r: "r = int k" "contents (be_output ?b) = drop k ?cs" using w(4) by simp_all
    obtain c' s' where s': "(if k = 0 then bev_error (EVBUFFER_WRITE OR EVBUFFER_EOF) (?b, ?s) else write_done evsel (?b, ?s)) = Some (c', ?b, s')"
      "good X s'" "untouched X (be_write b) ?s s'" "write_outcome io fd event (tick s) b (take k ?cs) c' ?b"
      "k \<noteq> 0 \<and> contents (be_output ?b) \<noteq> [] \<longrightarrow> scheduled evsel (be_write b) (be_timeout_write b) s'"
      by (rule writecb_taken [OF g1 ok1 same_setup_upd(2) ev Inr conjunct1 [OF wr [OF Inr]] r(2) evb(2)])
    have "bufferevent_writecb evsel ucb io fd event (b, s) = Some (c', ?b, s')"
      using ev w(1) s'(1) r(1) c by (cases "k = 0") (simp_all add: bufferevent_writecb_def run_cb_def)
    moreover have "c' \<noteq> None" if "k = 0" using s'(1) that ok1 by (auto simp: bev_error_ok [OF ok1] bev_ok_def)
    ultimately show thesis using that [of c' ?b s' "take k ?cs"] s'(4,5) W [OF s'(2,3)] by auto
  qed
qed

lemma writecb_ok:
  assumes g: "good X s" and ok: "bev_ok X b" and fl: "flow b s" and io: "io_ok io"
  obtains c b' s' bs where "bufferevent_writecb evsel ucb io fd event (b, s) = Some (c, b', s')" and "wrote X b s b' s'"
    and "write_outcome io fd event (tick s) b bs c b'"
    and "event \<noteq> EV_TIMEOUT \<and> contents (be_output b') \<noteq> [] \<and> (bs \<noteq> [] \<or> c = None) \<longrightarrow>
      scheduled evsel (be_write b) (be_timeout_write b) s'"
proof -
  consider "event = EV_TIMEOUT" | "event \<noteq> EV_TIMEOUT" "evb_off (be_output b) = 0" | "event \<noteq> EV_TIMEOUT" "evb_off (be_output b) \<noteq> 0"
    by blast
  then show thesis
  proof cases
    case 1
    then have "bufferevent_writecb evsel ucb io fd event (b, s)
        = Some (map_option (\<lambda>f. ErrorCb f (EVBUFFER_WRITE OR EVBUFFER_TIMEOUT) (be_cbarg b)) (be_errorcb b), b, s)"
      by (simp add: bufferevent_writecb_def bev_error_ok [OF ok])
    then show thesis
      by (rule that [where bs = "[]"]) (use g ok fl 1 in \<open>simp_all add: wrote_def write_outcome_def untouched_def\<close>)
  next
    case 2
    obtain s' where s': "write_done evsel (b, s) = Some (write_call b, b, s')" "good X s'" "untouched X (be_write b) s s'"
      "contents (be_output b) \<noteq> [] \<longrightarrow> scheduled evsel (be_write b) (be_timeout_write b) s'"
      by (rule write_done_ok [OF g ok])
    have "bufferevent_writecb evsel ucb io fd event (b, s) = Some (write_call b, b, s')"
      using 2 s'(1) by (simp add: bufferevent_writecb_def)
    then show thesis
      by (rule that [where bs = "[]"]) (use s' ok 2 flow_write [OF ok fl s'(3)] in \<open>simp_all add: wrote_def write_outcome_def\<close>)
  next
    case 3
    show thesis by (rule writecb_try [OF g ok fl io 3]) (use that in blast)
  qed
qed

text \<open>Enabling: with an error \<open>enabled\<close> stays as it is, though the event for reading may have been added.\<close>

lemma enable_ok:
  assumes g: "good X s" and ok: "bev_ok X b"
  obtains r b' s' where "bufferevent_enable evsel (b, s) event = Some (r, b', s')" and "good X s'" and "bev_ok X b'"
    and "r = 0 \<and> b' = b\<lparr>be_enabled := be_enabled b OR event\<rparr> \<and> (has event EV_READ \<longrightarrow> queued s' (be_read b)) \<and>
        (has event EV_WRITE \<longrightarrow> queued s' (be_write b)) \<or> r = -1 \<and> b' = b"
proof -
  have e: "be_read b \<in> X" "be_write b \<in> X" "be_read b \<noteq> be_write b" using ok by (simp_all add: bev_ok_def)
  have add: "\<exists>r s'. (if p then bufferevent_add evsel s x t else Some (0, s)) = Some (r, s') \<and> good X s' \<and> untouched X x s s' \<and>
      (r \<noteq> -1 \<and> p \<longrightarrow> queued s' x)" if gs: "good X s" "x \<in> X" for s x t p
  proof (cases p)
    case True
    obtain r s' where "bufferevent_add evsel s x t = Some (r, s')" "good X s'" "untouched X x s s'"
      "add_outcome s x (if t \<noteq> 0 then Some (Timeval t 0) else None) r s'"
      by (rule add_ok [OF gs])
    then show ?thesis using True by (simp add: add_outcome_def)
  qed (use gs in \<open>simp add: untouched_def\<close>)
  obtain r1 s1 where s1: "(if has event EV_READ then bufferevent_add evsel s (be_read b) (be_timeout_read b) else Some (0, s)) = Some (r1, s1)"
    "good X s1" "r1 \<noteq> -1 \<and> has event EV_READ \<longrightarrow> queued s1 (be_read b)"
    using add [OF g e(1)] by blast
  obtain r2 s2 where s2: "(if has event EV_WRITE then bufferevent_add evsel s1 (be_write b) (be_timeout_write b) else Some (0, s1)) = Some (r2, s2)"
    "good X s2" "untouched X (be_write b) s1 s2" "r2 \<noteq> -1 \<and> has event EV_WRITE \<longrightarrow> queued s2 (be_write b)"
    using add [OF s1(2) e(2)] by blast
  have q: "queued s2 (be_read b) = queued s1 (be_read b)" by (rule untouched_queued [OF s2(3) e(1,3)])
  show thesis
  proof (cases "r1 = -1 \<or> r2 = -1")
    case True
    then have "bufferevent_enable evsel (b, s) event = Some (-1, b, if r1 = -1 then s1 else s2)"
      unfolding bufferevent_enable_def prod.case s1(1) using s2(1) by (cases "r1 = -1") simp_all
    then show thesis by (rule that) (use s1(2) s2(2) ok in simp_all)
  next
    case False
    then have "bufferevent_enable evsel (b, s) event = Some (0, b\<lparr>be_enabled := be_enabled b OR event\<rparr>, s2)"
      unfolding bufferevent_enable_def prod.case s1(1) using s2(1) by simp
    then show thesis by (rule that) (use s1(3) s2(2,4) q False ok in \<open>simp_all add: bev_ok_def\<close>)
  qed
qed

text \<open>The read timeout 0 takes no timer away.\<close>

lemma settimeout_zero:
  assumes g: "good X s" and ok: "bev_ok X b"
  obtains b' s' where "bufferevent_settimeout evsel (b, s) 0 tw = Some (b', s')" and "good X s'" and "be_timeout_read b' = 0"
    and "timed s' (be_read b) = timed s (be_read b)" and "deadline s' (be_read b) = deadline s (be_read b)"
proof -
  have e: "be_read b \<in> X" "be_write b \<in> X" "be_read b \<noteq> be_write b" using ok by (simp_all add: bev_ok_def)
  have pend: "\<exists>p. event_pending u x w False = Some (p, None, u)" for u :: "'a event_core_scheme" and x w
    by (simp add: event_pending_def Let_def)
  obtain pr where pr: "event_pending s (be_read b) EV_READ False = Some (pr, None, s)" using pend by blast
  obtain r1 s1 where s1: "(if pr \<noteq> 0 then bufferevent_add evsel s (be_read b) 0 else Some (0, s)) = Some (r1, s1)" "good X s1"
    "timed s1 (be_read b) = timed s (be_read b) \<and> deadline s1 (be_read b) = deadline s (be_read b)"
  proof (cases "pr = 0")
    case False
    obtain r s1 where "bufferevent_add evsel s (be_read b) 0 = Some (r, s1)" "good X s1" "add_outcome s (be_read b) None r s1"
      using add_event [OF g e(1), of None] by (auto simp: bufferevent_add_def)
    then show thesis using that [of r s1] False by (auto simp: add_outcome_def flags_bit deadline_def split: if_splits)
  qed (use that g in simp)
  obtain pw where pw: "event_pending s1 (be_write b) EV_WRITE False = Some (pw, None, s1)" using pend by blast
  obtain r2 s2 where s2: "(if pw \<noteq> 0 then bufferevent_add evsel s1 (be_write b) tw else Some (0, s1)) = Some (r2, s2)" "good X s2"
    "untouched X (be_write b) s1 s2"
  proof (cases "pw = 0")
    case False
    obtain r s2 where "bufferevent_add evsel s1 (be_write b) tw = Some (r, s2)" "good X s2" "untouched X (be_write b) s1 s2"
      by (rule add_ok [OF s1(2) e(2)])
    then show thesis using that [of r s2] False by simp
  qed (use that s1 in \<open>simp add: untouched_def\<close>)
  have "evs s2 (be_read b) = evs s1 (be_read b)" using s2(3) e by (simp add: untouched_def)
  then have "timed s2 (be_read b) = timed s1 (be_read b)" "deadline s2 (be_read b) = deadline s1 (be_read b)"
    by (simp_all add: flags_bit deadline_def)
  moreover have "bufferevent_settimeout evsel (b, s) 0 tw = Some (b\<lparr>be_timeout_read := 0, be_timeout_write := tw\<rparr>, s2)"
    unfolding bufferevent_settimeout_def prod.case Let_def using pr s1(1) pw s2(1) by (simp cong: if_cong)
  ultimately show thesis using that s1(3) s2(2) by simp
qed

lemma setwatermark_ok:
  assumes g: "good X s" and ok: "bev_ok X b" and r: "has events EV_READ"
  obtains b' s' where "bufferevent_setwatermark evsel (b, s) events low high = Some (b', s')" and "good X s'" and "bev_ok X b'"
    and "be_wm_read b' = \<lparr>wm_low = low, wm_high = high\<rparr>" and "contents (be_input b') = contents (be_input b)"
    and "\<not> full b' \<and> has (be_enabled b) EV_READ \<longrightarrow> scheduled evsel (be_read b) (be_timeout_read b) s'"
proof -
  define b2 where "b2 = (if has events EV_WRITE then b\<lparr>be_wm_read := \<lparr>wm_low = low, wm_high = high\<rparr>, be_wm_write := \<lparr>wm_low = low, wm_high = high\<rparr>\<rparr>
    else b\<lparr>be_wm_read := \<lparr>wm_low = low, wm_high = high\<rparr>\<rparr>)"
  have ok2: "bev_ok X b2" using ok by (simp add: b2_def bev_ok_def)
  obtain b' s' where b': "read_pressure_cb evsel (evb_off (be_input b2)) (b2, s) = Some (b', s')" "good X s'" "bev_ok X b'"
    "same_setup b2 b'" "untouched X (be_read b2) s s'" "be_output b' = be_output b2" "contents (be_input b') = contents (be_input b2)"
    "evb_off (be_input b') = evb_off (be_input b2)" "full b2 \<longrightarrow> b' = b2 \<and> s' = s"
    "\<not> full b2 \<and> has (be_enabled b2) EV_READ \<longrightarrow> scheduled evsel (be_read b2) (be_timeout_read b2) s'"
    by (rule pressure_ok [OF g ok2 refl])
  have "bufferevent_setwatermark evsel (b, s) events low high = Some (b', s')"
    using b'(1) r by (simp add: bufferevent_setwatermark_def b2_def Let_def split: if_splits)
  moreover have "full b' = full b2" by (rule full_setup [OF b'(4,8)])
  ultimately show thesis
    using that [of b' s'] b' same_setupD(4) [OF b'(4)] by (auto simp: b2_def split: if_splits)
qed

end

subsection \<open>A concrete buffered event\<close>

definition demo_evbuffer :: "byte list \<Rightarrow> evbuffer" where
  "demo_evbuffer bs = \<lparr>evb_buffer = 0, evb_orig = Some (map Some bs @ replicate (256 - length bs) None), evb_misalign = 0,
     evb_totallen = 256, evb_off = length bs, evb_cb = None, evb_cbarg = 0\<rparr>"

definition demo_bev :: bufferevent where
  "demo_bev = \<lparr>be_base = Base, be_read = 7, be_write = 8, be_input = demo_evbuffer [1, 2], be_output = demo_evbuffer [5, 6],
     be_wm_read = \<lparr>wm_low = 0, wm_high = 4\<rparr>, be_wm_write = \<lparr>wm_low = 0, wm_high = 0\<rparr>, be_readcb = Some 1, be_writecb = Some 2,
     be_errorcb = Some 3, be_cbarg = 0, be_timeout_read = 0, be_timeout_write = 0, be_enabled = EV_READ OR EV_WRITE\<rparr>"

definition demo_io :: bev_io where
  "demo_io = \<lparr>io_ioctl = (\<lambda>_ _. Some 3), io_read = (\<lambda>_ _ k. Inr (take k [7, 8, 9])), io_write = (\<lambda>_ _ bs. Inr (min 1 (length bs))),
     io_errno = (\<lambda>_. 0)\<rparr>"

lemma demo_evbuffer_ok: "length bs \<le> 256 \<Longrightarrow> evb_ok (demo_evbuffer bs)" "contents (demo_evbuffer bs) = bs"
    "evb_off (demo_evbuffer bs) = length bs" "evb_cb (demo_evbuffer bs) = None" "evb_misalign (demo_evbuffer bs) = 0"
    "evb_totallen (demo_evbuffer bs) = 256"
  by (auto simp: demo_evbuffer_def evb_ok_def evb_cells_def contents_def len_ok_def intro: exI [of _ 8])

lemma demo_bev_ok: "bev_ok {7, 8} demo_bev" "flow demo_bev s" "read_room demo_bev" "io_ok demo_io"
  by (simp_all add: bev_ok_def demo_bev_def demo_evbuffer_ok flow_def full_def read_room_def io_ok_def demo_io_def)
    (simp add: min_def)

lemma demo_client: "client_ok {7, 8} demo"
proof -
  have "usable demo x" "wants_io (evs demo x)" "clear_ncalls demo x \<noteq> None" if "x \<in> {7, 8}" for x
  proof -
    have x: "0 < x" "x < 2 ^ 30" using that by auto
    show "usable demo x" by (rule demo_usable [OF x])
    show "wants_io (evs demo x)" "clear_ncalls demo x \<noteq> None"
      by (simp_all add: demo_evs [OF x(1)] wants_io_def demo_event_def zero_event_def clear_ncalls_safe flag_defs del: not_None_eq)
  qed
  then show ?thesis by (simp add: client_ok_def demo_okD)
qed

subsection \<open>Properties\<close>

text \<open>
  C31. \<open>bufferevent_readcb\<close> on a consistent base returns and keeps every invariant. The input grows by exactly the bytes that \<open>read\<close>
  delivered, never above the high water mark (a read for which there is no memory may not be made and counts as failed); at the mark reading is off and draining will
  restart it. After a read that delivered bytes \<open>readcb\<close> is called exactly if the low mark is reached; \<open>errorcb\<close> is called exactly on a timeout, on an end of file and on a
  failed read whose \<open>errno\<close> is neither \<open>EAGAIN\<close> nor \<open>EINTR\<close>, each with its own flag. After bytes below the mark, and after \<open>EAGAIN\<close> and \<open>EINTR\<close>, the event is
  scheduled again. Output and write event are untouched.
\<close>

theorem bufferevent_readcb_spec:
  assumes "client_ok X s" and "bev_ok X b" and "event = EV_TIMEOUT \<Longrightarrow> flow b s" and "io_ok io" and "read_room b"
  shows "\<exists>c b' s' bs. bufferevent_readcb ops ucb io fd event (b, s) = Some (c, b', s') \<and> client_ok X s' \<and> bev_ok X b' \<and>
    same_setup b b' \<and> be_output b' = be_output b \<and> evs s' (be_write b) = evs s (be_write b) \<and> flow b' s' \<and>
    read_outcome io (os_alloc (os s) (tick s)) fd event (tick s) b bs c b' \<and>
    (wm_high (be_wm_read b) \<noteq> 0 \<longrightarrow> evb_off (be_input b') \<le> max (wm_high (be_wm_read b)) (evb_off (be_input b))) \<and>
    (event \<noteq> EV_TIMEOUT \<and> \<not> full b \<and> \<not> full b' \<and> (bs \<noteq> [] \<or> c = None) \<longrightarrow>
      scheduled ops (be_read b) (be_timeout_read b) s')"
proof -
  obtain c b' s' bs where R: "bufferevent_readcb ops ucb io fd event (b, s) = Some (c, b', s')" "client_ok X s'" "bev_ok X b'"
    "same_setup b b'" "be_output b' = be_output b" "flow b' s'" "untouched X (be_read b) s s'"
    "read_outcome io (os_alloc (os s) (tick s)) fd event (tick s) b bs c b'"
    "wm_high (be_wm_read b) \<noteq> 0 \<longrightarrow> evb_off (be_input b') \<le> max (wm_high (be_wm_read b)) (evb_off (be_input b))"
    "event \<noteq> EV_TIMEOUT \<and> \<not> full b \<and> \<not> full b' \<and> (bs \<noteq> [] \<or> c = None) \<longrightarrow> scheduled ops (be_read b) (be_timeout_read b) s'"
    by (rule ec.readcb_ok [OF assms]) blast+
  have "evs s' (be_write b) = evs s (be_write b)" using R(7) assms(2) by (auto simp: untouched_def bev_ok_def)
  with R show ?thesis by blast
qed

theorem bufferevent_readcb_spec_witness:
  "\<exists>c b' s' bs. bufferevent_readcb ops (\<lambda>_. Some) demo_io 7 EV_READ (demo_bev, demo) = Some (c, b', s') \<and>
     contents (be_input b') = [1, 2] @ bs \<and> length (contents (be_input b')) \<le> 4"
proof -
  have "contents (be_input demo_bev) = [1, 2]" "evb_off (be_input demo_bev) = 2" "wm_high (be_wm_read demo_bev) = 4"
    by (simp_all add: demo_bev_def demo_evbuffer_ok)
  moreover obtain c b' s' bs where "bufferevent_readcb ops (\<lambda>_. Some) demo_io 7 EV_READ (demo_bev, demo) = Some (c, b', s')"
    "bev_ok {7, 8} b'" "read_outcome demo_io (os_alloc (os demo) (tick demo)) 7 EV_READ (tick demo) demo_bev bs c b'"
    "wm_high (be_wm_read demo_bev) \<noteq> 0 \<longrightarrow>
       evb_off (be_input b') \<le> max (wm_high (be_wm_read demo_bev)) (evb_off (be_input demo_bev))"
    using bufferevent_readcb_spec [OF demo_client demo_bev_ok(1,2,4,3), where ucb = "\<lambda>_. Some" and fd = 7 and event = EV_READ]
    by blast
  moreover from this(2) have "length (contents (be_input b')) = evb_off (be_input b')" by (simp add: bev_ok_def)
  ultimately show ?thesis by (auto simp: read_outcome_def)
qed

text \<open>
  C32. \<open>bufferevent_writecb\<close> offers the descriptor the whole output and removes exactly the prefix that it took, so that what was
  written and what is held are the output before. While output is left the event is scheduled again, unless the user is told of an error; \<open>writecb\<close> is called
  when the output is not above the low mark, \<open>errorcb\<close> exactly on a timeout, an end of file or an error that is none of
  \<open>EAGAIN\<close>, \<open>EINTR\<close> and \<open>EINPROGRESS\<close>.
\<close>

theorem bufferevent_writecb_spec:
  assumes "client_ok X s" and "bev_ok X b" and "flow b s" and "io_ok io"
  shows "\<exists>c b' s' bs. bufferevent_writecb ops ucb io fd event (b, s) = Some (c, b', s') \<and> client_ok X s' \<and> bev_ok X b' \<and>
    same_setup b b' \<and> be_input b' = be_input b \<and> flow b' s' \<and> evs s' (be_read b) = evs s (be_read b) \<and>
    write_outcome io fd event (tick s) b bs c b' \<and>
    (event \<noteq> EV_TIMEOUT \<and> contents (be_output b') \<noteq> [] \<and> (bs \<noteq> [] \<or> c = None) \<longrightarrow>
      scheduled ops (be_write b) (be_timeout_write b) s')"
proof -
  obtain c b' s' bs where W: "bufferevent_writecb ops ucb io fd event (b, s) = Some (c, b', s')" "ec.wrote X b s b' s'"
    "write_outcome io fd event (tick s) b bs c b'"
    "event \<noteq> EV_TIMEOUT \<and> contents (be_output b') \<noteq> [] \<and> (bs \<noteq> [] \<or> c = None) \<longrightarrow>
      scheduled ops (be_write b) (be_timeout_write b) s'"
    by (rule ec.writecb_ok [OF assms])
  have "evs s' (be_read b) = evs s (be_read b)" using W(2) assms(2) by (auto simp: ec.wrote_def untouched_def bev_ok_def)
  with W show ?thesis unfolding ec.wrote_def by blast
qed

theorem bufferevent_writecb_spec_witness:
  "\<exists>c b' s' bs. bufferevent_writecb ops (\<lambda>_. Some) demo_io 7 EV_WRITE (demo_bev, demo) = Some (c, b', s') \<and>
     [5, 6] = bs @ contents (be_output b') \<and> length bs = 1"
proof -
  have "contents (be_output demo_bev) = [5, 6]" "evb_off (be_output demo_bev) = 2" "EV_WRITE \<noteq> (EV_TIMEOUT :: 16 word)"
    by (simp_all add: demo_bev_def demo_evbuffer_ok EV_WRITE_def EV_TIMEOUT_def)
  then show ?thesis
    using bufferevent_writecb_spec [OF demo_client demo_bev_ok(1,2,4), where ucb = "\<lambda>_. Some" and fd = 7 and event = EV_WRITE]
    by (simp add: write_outcome_def demo_io_def Let_def) blast
qed

text \<open>
  C33. \<open>bufferevent_read\<close> hands out the oldest bytes of the input and removes them; if this brings a full input below the high mark and
  reading is enabled, the event for reading is scheduled again, so the stop of \<open>bufferevent_readcb\<close> is not for ever.
\<close>

theorem bufferevent_read_spec:
  assumes "client_ok X s" and "bev_ok X b" and "flow b s"
  shows "\<exists>b' s'. bufferevent_read ops ucb (b, s) n = Some (min n (evb_off (be_input b)), take n (contents (be_input b)), b', s') \<and>
    client_ok X s' \<and> bev_ok X b' \<and> same_setup b b' \<and> be_output b' = be_output b \<and> flow b' s' \<and>
    contents (be_input b') = drop n (contents (be_input b)) \<and>
    (full b \<and> \<not> full b' \<and> has (be_enabled b) EV_READ \<longrightarrow> scheduled ops (be_read b) (be_timeout_read b) s')"
  by (rule ec.read_ok [OF assms, of ucb n]) blast

theorem bufferevent_read_spec_witness:
  "\<exists>b' s'. bufferevent_read ops (\<lambda>_. Some) (demo_bev, demo) 1 = Some (1, [1], b', s') \<and> contents (be_input b') = [2]"
proof -
  have "contents (be_input demo_bev) = [1, 2]" "evb_off (be_input demo_bev) = 2"
    by (simp_all add: demo_bev_def demo_evbuffer_ok)
  then show ?thesis using bufferevent_read_spec [OF demo_client demo_bev_ok(1,2), where ucb = "\<lambda>_. Some" and n = 1] by auto
qed

text \<open>
  C34. \<open>bufferevent_write\<close> appends the data to the output and, if writing is enabled, schedules the event for writing; if memory runs out it
  returns -1 and the output is what it was. With memory available it returns 0.
\<close>

theorem bufferevent_write_spec:
  assumes "client_ok X s" and "bev_ok X b" and "flow b s"
    and "evb_misalign (be_output b) + evb_off (be_output b) + length data \<le> 2 ^ 63"
  shows "\<exists>r b' s'. bufferevent_write ops ucb (b, s) data = Some (r, b', s') \<and> client_ok X s' \<and> bev_ok X b' \<and> same_setup b b' \<and>
    be_input b' = be_input b \<and> flow b' s' \<and>
    (r = 0 \<and> contents (be_output b') = contents (be_output b) @ data \<and>
       (data \<noteq> [] \<and> has (be_enabled b) EV_WRITE \<longrightarrow> scheduled ops (be_write b) (be_timeout_write b) s') \<or>
     r = -1 \<and> contents (be_output b') = contents (be_output b)) \<and>
    ((\<forall>t n. os_alloc (os s) t n) \<longrightarrow> r = 0)"
  by (rule ec.write_ok [OF assms, of ucb]) blast

theorem bufferevent_write_spec_witness:
  "\<exists>b' s'. bufferevent_write ops (\<lambda>_. Some) (demo_bev, demo) [9] = Some (0, b', s') \<and> contents (be_output b') = [5, 6, 9]"
proof -
  have "contents (be_output demo_bev) = [5, 6]" "evb_misalign (be_output demo_bev) + evb_off (be_output demo_bev) + length [9] \<le> 2 ^ 63"
    "\<forall>t n. os_alloc (os demo) t n"
    by (simp_all add: demo_bev_def demo_evbuffer_ok demo_defs)
  then show ?thesis
    using bufferevent_write_spec [OF demo_client demo_bev_ok(1,2), where ucb = "\<lambda>_. Some" and data = "[9]"] by auto
qed

text \<open>
  \<open>bufferevent_enable\<close> either returns 0, and then every direction asked for is enabled and its event registered, or it returns -1
  and \<open>enabled\<close> is unchanged; the base stays consistent in both cases.
\<close>

theorem bufferevent_enable_spec:
  assumes "client_ok X s" and "bev_ok X b"
  shows "\<exists>r b' s'. bufferevent_enable ops (b, s) event = Some (r, b', s') \<and> client_ok X s' \<and> bev_ok X b' \<and>
    (r = 0 \<and> b' = b\<lparr>be_enabled := be_enabled b OR event\<rparr> \<and> (has event EV_READ \<longrightarrow> queued s' (be_read b)) \<and>
       (has event EV_WRITE \<longrightarrow> queued s' (be_write b)) \<or>
     r = -1 \<and> b' = b)"
  by (rule ec.enable_ok [OF assms, of event]) blast

theorem bufferevent_enable_spec_witness:
  "\<exists>r b' s'. bufferevent_enable ops (demo_bev, demo) EV_READ = Some (r, b', s') \<and> client_ok {7, 8} s' \<and> (r = 0 \<or> r = -1)"
  using bufferevent_enable_spec [OF demo_client demo_bev_ok(1), of EV_READ] by blast

text \<open>
  \<open>bufferevent_settimeout\<close> with a read timeout of 0, which means none, leaves a timer that is already running in place: \<open>event_add\<close> without
  a timeout does not touch it, so the old timeout still fires.
\<close>

theorem settimeout_zero_keeps_timer:
  assumes "client_ok X s" and "bev_ok X b" and "timed s (be_read b)"
  shows "\<exists>b' s'. bufferevent_settimeout ops (b, s) 0 tw = Some (b', s') \<and> be_timeout_read b' = 0 \<and> timed s' (be_read b) \<and>
    deadline s' (be_read b) = deadline s (be_read b)"
  by (rule ec.settimeout_zero [OF assms(1,2), of tw]) (use assms(3) in blast)

end
