(* ===== verification/Workqueue.thy ===== *)
theory Workqueue
  imports Prelude
begin

text \<open>
  The pool of worker threads, \<open>workqueue.cpp\<close> and \<open>workqueue.hpp\<close>. The two macros on lists are modelled on the links of the nodes.
  A thread is a program counter, and one step of a thread is one access to the shared state: a lock, an unlock, a test, the body of a
  critical section. Every interleaving is a list of choices of which thread moves; \<open>wq_exec\<close> is the step that a choice makes, \<open>None\<close> if
  the thread is blocked. A worker or a job is named by its address; any number of client threads calls \<open>workqueue_add_job\<close> and
  \<open>workqueue_shutdown\<close>.
\<close>

subsection \<open>The lists\<close>

record links =
  prev_of :: "nat \<Rightarrow> nat option"
  next_of :: "nat \<Rightarrow> nat option"

definition LL_ADD :: "nat \<Rightarrow> nat option \<times> links \<Rightarrow> nat option \<times> links" where
  "LL_ADD item st =
     (case st of (list, l) \<Rightarrow>
        (Some item, l\<lparr>prev_of := (prev_of l)(item := None), next_of := (next_of l)(item := list)\<rparr>))"

definition LL_REMOVE :: "nat \<Rightarrow> nat option \<times> links \<Rightarrow> nat option \<times> links" where
  "LL_REMOVE item st =
     (case st of (list, l) \<Rightarrow>
        let l1 = (case prev_of l item of None \<Rightarrow> l | Some p \<Rightarrow> l\<lparr>next_of := (next_of l)(p := next_of l item)\<rparr>);
            l2 = (case next_of l1 item of None \<Rightarrow> l1 | Some n \<Rightarrow> l1\<lparr>prev_of := (prev_of l1)(n := prev_of l1 item)\<rparr>);
            list' = (if list = Some item then next_of l2 item else list)
        in (list', l2\<lparr>prev_of := (prev_of l2)(item := None), next_of := (next_of l2)(item := None)\<rparr>))"

subsection \<open>The state\<close>

text \<open>
  Where a worker stands in \<open>worker_function\<close>: before the lock (line 26), at the test of the inner loop (27), in \<open>pthread_cond_wait\<close>
  (33) and on its way out of it, behind the inner loop (36), before the unlock with the job taken (45), in the job's function (51), at
  \<open>free\<close> (54), and gone. Waiting at the condition variable is the state \<open>Waiting\<close>.
\<close>

datatype worker_pc = Locking | Testing | Waiting | Waking | Deciding | Unlocking "nat option" | Running nat | Exiting | Exited

text \<open>Where a client stands in \<open>workqueue_add_job\<close> and in \<open>workqueue_shutdown\<close>.\<close>

datatype client_pc = Idle | AddLock nat | AddItem nat | AddSignal | AddUnlock
  | ShutMark "nat option" | ShutNext nat | ShutLock | ShutClear | ShutUnlock

datatype thread = Worker nat | Client nat

text \<open>
  \<open>called\<close> and \<open>executed\<close> are the history of the jobs handed to \<open>workqueue_add_job\<close> and of the calls of job functions, \<open>shut\<close> records that
  a shutdown has emptied the lists, \<open>dangling\<close> that a freed worker was accessed.
\<close>

record workqueue =
  workers :: "nat option"
  waiting_jobs :: "nat option"
  jobs_mutex :: "thread option"
  wlinks :: links
  jlinks :: links
  terminate :: "nat \<Rightarrow> bool"
  created :: "nat list"
  wpc :: "nat \<Rightarrow> worker_pc"
  cpc :: "nat \<Rightarrow> client_pc"
  called :: "nat list"
  executed :: "nat list"
  shut :: bool
  dangling :: bool

subsection \<open>The threads\<close>

definition set_wpc :: "nat \<Rightarrow> worker_pc \<Rightarrow> workqueue \<Rightarrow> workqueue" where
  "set_wpc w p s = s\<lparr>wpc := (wpc s)(w := p)\<rparr>"

definition set_cpc :: "nat \<Rightarrow> client_pc \<Rightarrow> workqueue \<Rightarrow> workqueue" where
  "set_cpc c p s = s\<lparr>cpc := (cpc s)(c := p)\<rparr>"

definition mutex_lock :: "thread \<Rightarrow> workqueue \<Rightarrow> workqueue option" where
  "mutex_lock t s = (if jobs_mutex s = None then Some (s\<lparr>jobs_mutex := Some t\<rparr>) else None)"

definition worker_step :: "nat \<Rightarrow> workqueue \<Rightarrow> workqueue option" where
  "worker_step w s =
     (case wpc s w of
        Locking \<Rightarrow> map_option (set_wpc w Testing) (mutex_lock (Worker w) s)
      | Testing \<Rightarrow>
          Some (if waiting_jobs s = None \<and> \<not> terminate s w then (set_wpc w Waiting s)\<lparr>jobs_mutex := None\<rparr>
                else set_wpc w Deciding s)
      | Waiting \<Rightarrow> None
      | Waking \<Rightarrow> map_option (set_wpc w Testing) (mutex_lock (Worker w) s)
      | Deciding \<Rightarrow>
          Some (if terminate s w then set_wpc w Exiting s
                else case waiting_jobs s of
                  None \<Rightarrow> set_wpc w (Unlocking None) s
                | Some job \<Rightarrow> (case LL_REMOVE job (waiting_jobs s, jlinks s) of
                    (list, l) \<Rightarrow> set_wpc w (Unlocking (Some job)) (s\<lparr>waiting_jobs := list, jlinks := l\<rparr>)))
      | Unlocking job \<Rightarrow>
          Some ((set_wpc w (case job of None \<Rightarrow> Locking | Some j \<Rightarrow> Running j) s)\<lparr>jobs_mutex := None\<rparr>)
      | Running job \<Rightarrow> Some ((set_wpc w Locking s)\<lparr>executed := executed s @ [job]\<rparr>)
      | Exiting \<Rightarrow> Some (set_wpc w Exited s)
      | Exited \<Rightarrow> None)"

text \<open>\<open>pthread_cond_broadcast\<close>\<close>

definition cond_broadcast :: "workqueue \<Rightarrow> workqueue" where
  "cond_broadcast s = s\<lparr>wpc := (\<lambda>w. if wpc s w = Waiting then Waking else wpc s w)\<rparr>"

text \<open>\<open>pthread_cond_signal\<close> wakes one waiting worker, of the system's choice, if there is one.\<close>

definition cond_signal :: "nat option \<Rightarrow> workqueue \<Rightarrow> workqueue option" where
  "cond_signal w s =
     (case w of
        None \<Rightarrow> if list_all (\<lambda>v. wpc s v \<noteq> Waiting) (created s) then Some s else None
      | Some v \<Rightarrow> if v \<in> set (created s) \<and> wpc s v = Waiting then Some (set_wpc v Waking s) else None)"

definition workqueue_add_job :: "nat \<Rightarrow> nat option \<Rightarrow> workqueue \<Rightarrow> workqueue option" where
  "workqueue_add_job c woken s =
     (case cpc s c of
        AddLock job \<Rightarrow> map_option (set_cpc c (AddItem job)) (mutex_lock (Client c) s)
      | AddItem job \<Rightarrow>
          (case LL_ADD job (waiting_jobs s, jlinks s) of
             (list, l) \<Rightarrow> Some (set_cpc c AddSignal (s\<lparr>waiting_jobs := list, jlinks := l\<rparr>)))
      | AddSignal \<Rightarrow> map_option (set_cpc c AddUnlock) (cond_signal woken s)
      | AddUnlock \<Rightarrow> Some ((set_cpc c Idle s)\<lparr>jobs_mutex := None\<rparr>)
      | _ \<Rightarrow> None)"

text \<open>The access to a worker; a worker that has exited has been freed.\<close>

definition touch :: "nat \<Rightarrow> workqueue \<Rightarrow> workqueue" where
  "touch w s = s\<lparr>dangling := (dangling s \<or> wpc s w = Exited)\<rparr>"

definition workqueue_shutdown :: "nat \<Rightarrow> workqueue \<Rightarrow> workqueue option" where
  "workqueue_shutdown c s =
     (case cpc s c of
        ShutMark None \<Rightarrow> Some (set_cpc c ShutLock s)
      | ShutMark (Some w) \<Rightarrow> Some (set_cpc c (ShutNext w) ((touch w s)\<lparr>terminate := (terminate s)(w := True)\<rparr>))
      | ShutNext w \<Rightarrow> Some (set_cpc c (ShutMark (next_of (wlinks s) w)) (touch w s))
      | ShutLock \<Rightarrow> map_option (set_cpc c ShutClear) (mutex_lock (Client c) s)
      | ShutClear \<Rightarrow> Some (cond_broadcast (set_cpc c ShutUnlock (s\<lparr>workers := None, waiting_jobs := None, shut := True\<rparr>)))
      | ShutUnlock \<Rightarrow> Some ((set_cpc c Idle s)\<lparr>jobs_mutex := None\<rparr>)
      | _ \<Rightarrow> None)"

text \<open>
  Who moves next. A client may call \<open>workqueue_add_job\<close> with a job it has not added before; \<open>Spurious\<close> is a wake-up of
  \<open>pthread_cond_wait\<close> without a signal.
\<close>

datatype choice = StepWorker nat | Spurious nat | CallAdd nat nat | StepAdd nat "nat option" | CallShutdown nat | StepShutdown nat

definition wq_exec :: "choice \<Rightarrow> workqueue \<Rightarrow> workqueue option" where
  "wq_exec ch s =
     (case ch of
        StepWorker w \<Rightarrow> if w \<in> set (created s) then worker_step w s else None
      | Spurious w \<Rightarrow> if w \<in> set (created s) \<and> wpc s w = Waiting then Some (set_wpc w Waking s) else None
      | CallAdd c job \<Rightarrow> if cpc s c = Idle \<and> job \<notin> set (called s)
                          then Some ((set_cpc c (AddLock job) s)\<lparr>called := called s @ [job]\<rparr>) else None
      | StepAdd c woken \<Rightarrow> workqueue_add_job c woken s
      | CallShutdown c \<Rightarrow> if cpc s c = Idle then Some (set_cpc c (ShutMark (workers s)) s) else None
      | StepShutdown c \<Rightarrow> workqueue_shutdown c s)"

fun wq_run :: "choice list \<Rightarrow> workqueue \<Rightarrow> workqueue option" where
  "wq_run [] s = Some s"
| "wq_run (ch # chs) s = do { s' \<leftarrow> wq_exec ch s; wq_run chs s' }"

subsection \<open>Starting\<close>

text \<open>
  \<open>malloc\<close> and \<open>pthread_create\<close> are given by the number of the iteration. The workers that have been started run while the loop goes
  on; they do not touch what it changes, so their steps are those after it.
\<close>

fun start_workers :: "(nat \<Rightarrow> nat option) \<Rightarrow> (nat \<Rightarrow> bool) \<Rightarrow> nat list \<Rightarrow> workqueue \<Rightarrow> int \<times> workqueue" where
  "start_workers malloc create [] s = (0, s)"
| "start_workers malloc create (i # is) s =
     (case malloc i of
        None \<Rightarrow> (1, s)
      | Some w \<Rightarrow>
          if \<not> create i then (1, s)
          else case LL_ADD w (workers s, wlinks s) of
            (list, l) \<Rightarrow> start_workers malloc create is
              ((set_wpc w Locking s)\<lparr>terminate := (terminate s)(w := False), created := created s @ [w], workers := list, wlinks := l\<rparr>))"

definition blank_workqueue :: workqueue where
  "blank_workqueue = \<lparr>workers = None, waiting_jobs = None, jobs_mutex = None,
     wlinks = \<lparr>prev_of = (\<lambda>_. None), next_of = (\<lambda>_. None)\<rparr>, jlinks = \<lparr>prev_of = (\<lambda>_. None), next_of = (\<lambda>_. None)\<rparr>,
     terminate = (\<lambda>_. False), created = [], wpc = (\<lambda>_. Locking), cpc = (\<lambda>_. Idle), called = [], executed = [], shut = False,
     dangling = False\<rparr>"

definition workqueue_init :: "(nat \<Rightarrow> nat option) \<Rightarrow> (nat \<Rightarrow> bool) \<Rightarrow> int \<Rightarrow> int \<times> workqueue" where
  "workqueue_init malloc create numWorkers =
     start_workers malloc create [0..<nat (if numWorkers < 1 then 1 else numWorkers)] blank_workqueue"

end
