(* ===== verification/Log.thy ===== *)
theory Log
  imports Prelude
begin

text \<open>
  The log, \<open>log.cpp\<close>: appending an entry to \<open><base>.log\<close> and shifting the files \<open><base>.log\<close>, \<open><base>1.log\<close>, ... when the first has become too
  large. The directory is a map from names to contents. Whether \<open>fopen\<close>, \<open>remove\<close> and \<open>rename\<close> succeed, and the time, are read from
  \<open>log_env\<close> at the position \<open>log_tick\<close> of the call. \<open>sprintf\<close> into an array of 256 bytes is undefined for a longer name; so is a
  conversion of a format for which there is no argument.
\<close>

subsection \<open>Formatting\<close>

definition digit :: "nat \<Rightarrow> char" where
  "digit n = char_of (48 + n)"

text \<open>The conversions \<open>%d\<close> and \<open>%0wd\<close>.\<close>

fun digits :: "nat \<Rightarrow> string" where
  "digits n = (if n < 10 then [digit n] else digits (n div 10) @ [digit (n mod 10)])"

declare digits.simps [simp del]

definition decimal :: "int \<Rightarrow> string" where
  "decimal i = (if i < 0 then CHR ''-'' # digits (nat (- i)) else digits (nat i))"

definition padded :: "nat \<Rightarrow> int \<Rightarrow> string" where
  "padded w i =
     (if i < 0 then CHR ''-'' # replicate (w - 1 - length (digits (nat (- i)))) CHR ''0'' @ digits (nat (- i))
      else replicate (w - length (digits (nat i))) CHR ''0'' @ digits (nat i))"

text \<open>The effect of a format that is given no arguments.\<close>

fun printf_plain :: "string \<Rightarrow> string option" where
  "printf_plain [] = Some []"
| "printf_plain (c # cs) =
     (if c \<noteq> CHR ''%'' then map_option ((#) c) (printf_plain cs)
      else case cs of
        [] \<Rightarrow> None
      | d # ds \<Rightarrow> if d = CHR ''%'' then map_option ((#) CHR ''%'') (printf_plain ds) else None)"

subsection \<open>State\<close>

record calendar =
  tm_year :: int
  tm_mon :: int
  tm_mday :: int
  tm_hour :: int
  tm_min :: int
  tm_sec :: int
  tm_usec :: int

record log_env =
  fopen_ok :: "nat \<Rightarrow> bool"
  remove_ok :: "nat \<Rightarrow> bool"
  rename_ok :: "nat \<Rightarrow> bool"
  local_time :: "nat \<Rightarrow> calendar"

record log_state =
  files :: "string \<Rightarrow> string option"
  log_tick :: nat
  sszLogBaseName :: string
  slMaxLogSize :: int
  siMaxLogNum :: int
  siLogInitialized :: bool

text \<open>\<open>sprintf\<close> of a name into \<open>char[256]\<close>; the name of the current file, and of the one with a number.\<close>

definition file_name :: "string \<Rightarrow> string option" where
  "file_name nm = (if length nm < 256 then Some nm else None)"

definition current_name :: "string \<Rightarrow> string" where
  "current_name base = base @ ''.log''"

definition numbered_name :: "string \<Rightarrow> int \<Rightarrow> string" where
  "numbered_name base i = base @ decimal i @ ''.log''"

subsection \<open>Shifting the files\<close>

text \<open>The loop from \<open>i\<close> down to 0.\<close>

definition shift_source :: "string \<Rightarrow> int \<Rightarrow> string" where
  "shift_source base i = (if i = 0 then current_name base else numbered_name base i)"

fun shift_from :: "log_env \<Rightarrow> string \<Rightarrow> nat \<Rightarrow> log_state \<Rightarrow> (int \<times> log_state) option" where
  "shift_from env base n s =
     do { src \<leftarrow> file_name (shift_source base (int n));
          (ok, s1) \<leftarrow> (case files s src of
              None \<Rightarrow> Some (True, s)
            | Some c \<Rightarrow> do {
                dst \<leftarrow> file_name (numbered_name base (int n + 1));
                Some (if rename_ok env (log_tick s)
                      then (True, s\<lparr>files := (files s)(src := None, dst := Some c), log_tick := log_tick s + 1\<rparr>)
                      else (False, s\<lparr>log_tick := log_tick s + 1\<rparr>)) });
          if \<not> ok then Some (-1, s1)
          else case n of 0 \<Rightarrow> Some (0, s1) | Suc m \<Rightarrow> shift_from env base m s1 }"

declare shift_from.simps [simp del]

definition ShiftFiles :: "log_env \<Rightarrow> string \<Rightarrow> int \<Rightarrow> int \<Rightarrow> log_state \<Rightarrow> (int \<times> log_state) option" where
  "ShiftFiles env base limit num s =
     do { cur \<leftarrow> file_name (current_name base);
          case files s cur of
            None \<Rightarrow> Some (-1, s)
          | Some c \<Rightarrow>
              if int (length c) < limit then Some (0, s)
              else do {
                old \<leftarrow> file_name (numbered_name base (num - 1));
                let (ok, s1) = (case files s old of
                    None \<Rightarrow> (True, s)
                  | Some _ \<Rightarrow> if remove_ok env (log_tick s)
                              then (True, s\<lparr>files := (files s)(old := None), log_tick := log_tick s + 1\<rparr>)
                              else (False, s\<lparr>log_tick := log_tick s + 1\<rparr>));
                if \<not> ok then Some (-1, s1)
                else if num - 2 < 0 then Some (0, s1)
                else shift_from env base (nat (num - 2)) s1 } }"

subsection \<open>Writing an entry\<close>

definition GetCurrentTimeStr :: "calendar \<Rightarrow> string" where
  "GetCurrentTimeStr t =
     padded 4 (tm_year t + 1900) @ ''-'' @ padded 2 (tm_mon t + 1) @ ''-'' @ padded 2 (tm_mday t) @ '' '' @
     padded 2 (tm_hour t) @ '':'' @ padded 2 (tm_min t) @ '':'' @ padded 2 (tm_sec t) @ ''.'' @ padded 6 (tm_usec t)"

text \<open>\<open>WriteLog\<close> passes its variable arguments on; \<open>Log\<close>, its only caller, gives it none.\<close>

definition VWriteLog :: "log_env \<Rightarrow> string \<Rightarrow> int \<Rightarrow> int \<Rightarrow> string \<Rightarrow> log_state \<Rightarrow> (int \<times> log_state) option" where
  "VWriteLog env base limit num format s =
     do { cur \<leftarrow> file_name (current_name base);
          if \<not> fopen_ok env (log_tick s) then Some (-1, s\<lparr>log_tick := log_tick s + 1\<rparr>)
          else do {
            text \<leftarrow> printf_plain format;
            let old = (case files s cur of None \<Rightarrow> [] | Some c \<Rightarrow> c);
            let entry = ''['' @ GetCurrentTimeStr (local_time env (log_tick s)) @ ''] '' @ text;
            let s1 = s\<lparr>files := (files s)(cur := Some (old @ entry)), log_tick := log_tick s + 1\<rparr>;
            ShiftFiles env base limit num s1 } }"

definition WriteLog :: "log_env \<Rightarrow> string \<Rightarrow> int \<Rightarrow> int \<Rightarrow> string \<Rightarrow> log_state \<Rightarrow> (int \<times> log_state) option" where
  "WriteLog env base limit num format s = VWriteLog env base limit num format s"

definition LogInit :: "string \<Rightarrow> int \<Rightarrow> int \<Rightarrow> log_state \<Rightarrow> log_state" where
  "LogInit base limit num s =
     s\<lparr>sszLogBaseName := take 255 base, slMaxLogSize := limit, siMaxLogNum := num, siLogInitialized := True\<rparr>"

definition DEBUG :: int where "DEBUG = 0"
definition ERROR :: int where "ERROR = 1"

text \<open>
  \<open>msg\<close> is the text that \<open>vsnprintf\<close> makes of the caller's format and arguments. The array holds \<open>1024 * 1024\<close> bytes, of which the last two are
  never written by \<open>vsnprintf\<close>; \<open>len\<close> is the length the text would have had. Behind its null byte the array is not initialised.
\<close>

definition log_line :: "int \<Rightarrow> string \<Rightarrow> string option" where
  "log_line level msg =
     (let tag = (if level = DEBUG then ''[DEBUG]'' else ''[ERROR]'');
          buf = tag @ take (1024 * 1024 - length tag - 2) msg;
          len = length tag + length msg
      in if len - 1 < length buf then Some (if buf ! (len - 1) \<noteq> CHR 0x0A then buf @ [CHR 0x0A] else buf)
         else if len - 1 = length buf then Some (buf @ [CHR 0x0A])
         else None)"

definition Log :: "log_env \<Rightarrow> int \<Rightarrow> string \<Rightarrow> log_state \<Rightarrow> log_state option" where
  "Log env level msg s =
     do { line \<leftarrow> log_line level msg;
          (r, s') \<leftarrow> WriteLog env (sszLogBaseName s) (slMaxLogSize s) (siMaxLogNum s) line s;
          Some s' }"

end
