(* ===== verification/Server.thy ===== *)
theory Server
  imports BufferEventSpec Workqueue Log
begin

text \<open>
  The echo server \<open>src/mainsvrd.cpp\<close>: a connection is accepted, gets a base and a buffered event of its own, and is served by a worker thread that
  runs the loop of that base; whatever arrives is written back.

  The state of the library here is that of the client's own base, with \<open>NullBase\<close> for every other base. The calls of the system
  that \<open>on_accept\<close> makes itself are given by their results in \<open>accept_env\<close>; the descriptors closed are returned as a list.
\<close>

subsection \<open>Data\<close>

record client =
  cl_fd :: int
  cl_evbase :: bool
  cl_buf_ev :: "bufferevent option"
  cl_output :: "evbuffer option"

record accept_env =
  ae_accept :: int
  ae_getfl :: int
  ae_setfl :: int
  ae_client :: bool
  ae_job :: bool

definition SOCKET_READ_TIMEOUT_SECONDS :: int where "SOCKET_READ_TIMEOUT_SECONDS = 10"
definition SOCKET_WRITE_TIMEOUT_SECONDS :: int where "SOCKET_WRITE_TIMEOUT_SECONDS = 10"

text \<open>The functions that the server sets on a buffered event.\<close>

definition BUFFERED_ON_READ :: nat where "BUFFERED_ON_READ = 1"
definition BUFFERED_ON_WRITE :: nat where "BUFFERED_ON_WRITE = 2"
definition BUFFERED_ON_ERROR :: nat where "BUFFERED_ON_ERROR = 3"

subsection \<open>Closing a connection\<close>

text \<open>The arguments are the results of the two calls of \<open>fcntl\<close>.\<close>

definition setnonblock :: "int \<Rightarrow> int \<Rightarrow> int" where
  "setnonblock getfl setfl = (if getfl < 0 then getfl else if setfl < 0 then -1 else 0)"

definition closeClient :: "client \<Rightarrow> int list \<times> client" where
  "closeClient c = (if cl_fd c \<ge> 0 then ([cl_fd c], c\<lparr>cl_fd := -1\<rparr>) else ([], c))"

definition closeAndFreeClient ::
  "('a event_core_scheme) eventop \<Rightarrow> client \<Rightarrow> 'a event_core_scheme \<Rightarrow> (int list \<times> 'a event_core_scheme) option" where
  "closeAndFreeClient evsel c s =
     do { let (closed, c1) = closeClient c;
          s1 \<leftarrow> (case cl_buf_ev c1 of None \<Rightarrow> Some s | Some b \<Rightarrow> bufferevent_free evsel (b, s));
          s2 \<leftarrow> (if cl_evbase c1 then event_base_free evsel s1 Base else Some s1);
          Some (closed, s2) }"

subsection \<open>The callbacks of a connection\<close>

text \<open>
  The loop of \<open>buffered_on_read\<close>. The count is an \<open>int\<close>; the results of \<open>evbuffer_remove\<close> and \<open>evbuffer_add\<close> are not looked at.
\<close>

partial_function (option) copy_input ::
  "('a event_core_scheme) eventop \<Rightarrow> (cbcall \<Rightarrow> 'a bev_state \<Rightarrow> ('a bev_state) option) \<Rightarrow> evbuffer \<Rightarrow> 'a bev_state \<Rightarrow>
     (evbuffer \<times> 'a bev_state) option" where
  "copy_input evsel ucb out st =
     (case st of (b, s) \<Rightarrow>
        let nbytes = int_of_size (evb_off (be_input b))
        in if nbytes > 0 then do {
             let n = (if nbytes > 4096 then 4096 else nbytes);
             (r, data, inp, c) \<leftarrow> evbuffer_remove (be_input b) (size_of_int n);
             (b1, s1) \<leftarrow> run_cb evsel ucb c (b\<lparr>be_input := inp\<rparr>, s);
             (r, out1, c) \<leftarrow> evbuffer_add (os_alloc (os s1) (tick s1)) out data;
             (b2, s2) \<leftarrow> run_cb evsel ucb c (b1, s1\<lparr>tick := tick s1 + 1\<rparr>);
             copy_input evsel ucb out1 (b2, s2) }
           else Some (out, st))"

definition buffered_on_read ::
  "('a event_core_scheme) eventop \<Rightarrow> (cbcall \<Rightarrow> 'a bev_state \<Rightarrow> ('a bev_state) option) \<Rightarrow> client \<Rightarrow> 'a bev_state \<Rightarrow>
     (int list \<times> client \<times> 'a bev_state) option" where
  "buffered_on_read evsel ucb c st =
     do { out \<leftarrow> cl_output c;
          (out1, st1) \<leftarrow> copy_input evsel ucb out st;
          (r, out2, st2) \<leftarrow> bufferevent_write_buffer evsel ucb st1 out1;
          let (closed, c1) = (if r \<noteq> 0 then closeClient c else ([], c));
          Some (closed, c1\<lparr>cl_output := Some out2\<rparr>, st2) }"

definition buffered_on_error :: "client \<Rightarrow> int list \<times> client" where
  "buffered_on_error c = closeClient c"

subsection \<open>Accepting a connection\<close>

text \<open>
  The result is the list of descriptors closed and, if the connection is handed to the pool, the client. \<open>s\<close> is the state in which the base
  of the client is made. The result of \<open>bufferevent_enable\<close> is not looked at.
\<close>

definition on_accept ::
  "('a event_core_scheme) eventop \<Rightarrow> accept_env \<Rightarrow> 'a event_core_scheme \<Rightarrow> (int list \<times> client option \<times> 'a event_core_scheme) option" where
  "on_accept evsel env s =
     (let fd = ae_accept env in
      if fd < 0 then Some ([], None, s)
      else if setnonblock (ae_getfl env) (ae_setfl env) < 0 then Some ([fd], None, s)
      else if \<not> ae_client env then Some ([fd], None, s)
      else
        let c0 = \<lparr>cl_fd = fd, cl_evbase = False, cl_buf_ev = None, cl_output = None\<rparr>;
            give_up = (\<lambda>c s. do { (closed, s') \<leftarrow> closeAndFreeClient evsel c s; Some (closed, None, s') })
        in case evbuffer_new (os_alloc (os s) (tick s)) of
             None \<Rightarrow> give_up c0 (s\<lparr>tick := tick s + 1\<rparr>)
           | Some out \<Rightarrow> do {
               let c1 = c0\<lparr>cl_output := Some out\<rparr>;
               (ok, s1) \<leftarrow> event_base_new evsel (s\<lparr>tick := tick s + 1\<rparr>);
               let c2 = c1\<lparr>cl_evbase := True\<rparr>;
               (case bufferevent_new s1 fd (Some BUFFERED_ON_READ) (Some BUFFERED_ON_WRITE) (Some BUFFERED_ON_ERROR) 0 of
                  (None, s2) \<Rightarrow> give_up c2 s2
                | (Some b, s2) \<Rightarrow> do {
                    (r, st3) \<leftarrow> bufferevent_base_set Base (b, s2);
                    st4 \<leftarrow> bufferevent_settimeout evsel st3 SOCKET_READ_TIMEOUT_SECONDS SOCKET_WRITE_TIMEOUT_SECONDS;
                    (r, st5) \<leftarrow> bufferevent_enable evsel st4 EV_READ;
                    let c3 = c2\<lparr>cl_buf_ev := Some (fst st5)\<rparr>;
                    (if \<not> ae_job env then give_up c3 (snd st5) else Some ([], Some c3, snd st5)) }) })"

text \<open>
  The job of a connection: \<open>event_base_dispatch\<close> with the callbacks \<open>cl\<close>, then everything is released. The callbacks change the \<open>struct client\<close>
  and its buffered event; \<open>client_of\<close> is where they keep it in the state.
\<close>

definition server_job_function ::
  "('a event_core_scheme) eventop \<Rightarrow> ('a event_core_scheme) Loop.client \<Rightarrow> ('a event_core_scheme \<Rightarrow> client) \<Rightarrow> 'a event_core_scheme \<Rightarrow>
     (int list \<times> 'a event_core_scheme) option" where
  "server_job_function evsel cl client_of s =
     do { (r, s1) \<leftarrow> event_base_dispatch evsel cl s Base;
          closeAndFreeClient evsel (client_of s1) s1 }"

subsection \<open>Running the server\<close>

text \<open>
  The results of the calls of the system that \<open>runServer\<close> makes itself. The process is left by \<open>err\<close> (\<open>ServerExit\<close>) or the function
  returns, having closed some descriptors.
\<close>

record server_env =
  se_socket :: int
  se_bind :: int
  se_listen :: int
  se_getfl :: int
  se_setfl :: int

datatype server_end = ServerExit int | ServerReturn int "int list"

definition NUM_THREADS :: int where "NUM_THREADS = 8"
definition ON_ACCEPT :: callback where "ON_ACCEPT = User 3"

text \<open>
  \<open>g\<close> is the state of the base that \<open>event_init\<close> makes, \<open>s\<close> that of the listening base, \<open>ev\<close> the address of \<open>ev_accept\<close>; \<open>cl\<close> are the
  callbacks, \<open>malloc\<close> and \<open>create\<close> those of \<open>workqueue_init\<close>. \<open>event_base_new\<close> never returns \<open>NULL\<close>. The pool is given as it was
  started; the call of \<open>workqueue_shutdown\<close> after a failed start is begun by the thread 0.
\<close>

definition runServer ::
  "('a event_core_scheme) eventop \<Rightarrow> server_env \<Rightarrow> (nat \<Rightarrow> nat option) \<Rightarrow> (nat \<Rightarrow> bool) \<Rightarrow> ('a event_core_scheme) Loop.client \<Rightarrow> eid \<Rightarrow>
     'a event_core_scheme \<Rightarrow> 'a event_core_scheme \<Rightarrow> (server_end \<times> 'a event_core_scheme \<times> workqueue option) option" where
  "runServer evsel env malloc create cl ev g s =
     do { (ok, g1) \<leftarrow> event_init evsel g;
          if se_socket env < 0 then Some (ServerExit 1, s, None)
          else if se_bind env < 0 then Some (ServerExit 1, s, None)
          else if se_listen env < 0 then Some (ServerExit 1, s, None)
          else if setnonblock (se_getfl env) (se_setfl env) < 0 then Some (ServerExit 1, s, None)
          else do {
            (ok, s1) \<leftarrow> event_base_new evsel s;
            let (r, q) = workqueue_init malloc create NUM_THREADS;
            if r \<noteq> 0 then do {
              q1 \<leftarrow> wq_exec (CallShutdown 0) q;
              Some (ServerReturn 1 [se_socket env], s1, Some q1) }
            else do {
              let s2 = event_set s1 ev (se_socket env) (EV_READ OR EV_PERSIST) ON_ACCEPT 0;
              (r, s3) \<leftarrow> event_base_set s2 Base ev;
              (r, s4) \<leftarrow> event_add evsel s3 ev None;
              (r, s5) \<leftarrow> event_base_dispatch evsel cl s4 Base;
              s6 \<leftarrow> event_base_free evsel s5 Base;
              Some (ServerReturn 0 [se_socket env], s6, Some q) } } }"

subsection \<open>Stopping the server\<close>

text \<open>
  The signal handler asks the loop of the listening base to end and starts the shutdown of the pool, as the thread \<open>c\<close>, whose further steps are
  those of \<open>workqueue_shutdown\<close>. \<open>evbase_accept\<close> is the global variable.
\<close>

definition killServer ::
  "('a event_core_scheme) eventop \<Rightarrow> base_ptr \<Rightarrow> nat \<Rightarrow> 'a event_core_scheme \<times> workqueue \<Rightarrow> ('a event_core_scheme \<times> workqueue) option" where
  "killServer evsel evbase_accept c st =
     (case st of (s, q) \<Rightarrow>
        do { (r, s1) \<leftarrow> event_base_loopexit evsel s evbase_accept None;
             q1 \<leftarrow> wq_exec (CallShutdown c) q;
             Some (s1, q1) })"

definition sighandler ::
  "('a event_core_scheme) eventop \<Rightarrow> base_ptr \<Rightarrow> nat \<Rightarrow> 'a event_core_scheme \<times> workqueue \<Rightarrow> ('a event_core_scheme \<times> workqueue) option" where
  "sighandler evsel evbase_accept c st = killServer evsel evbase_accept c st"

subsection \<open>The program\<close>

definition server_main ::
  "('a event_core_scheme) eventop \<Rightarrow> server_env \<Rightarrow> (nat \<Rightarrow> nat option) \<Rightarrow> (nat \<Rightarrow> bool) \<Rightarrow> ('a event_core_scheme) Loop.client \<Rightarrow> eid \<Rightarrow>
     'a event_core_scheme \<Rightarrow> 'a event_core_scheme \<Rightarrow> log_state \<Rightarrow>
     (server_end \<times> 'a event_core_scheme \<times> workqueue option \<times> log_state) option" where
  "server_main evsel env malloc create cl ev g s l =
     do { let l1 = LogInit ''server'' 20000000 10 l;
          (e, s1, q) \<leftarrow> runServer evsel env malloc create cl ev g s;
          Some (e, s1, q, l1) }"

end
