(* ===== verification/ServerSpec.thy ===== *)
theory ServerSpec
  imports Server "HOL-Library.Sublist"
begin

text \<open>
  What the echo server guarantees: on a readable connection everything received is moved to the output in order. And what it does
  not guarantee: without memory bytes are lost, and a signal at the wrong time ends in a null dereference.
\<close>

subsection \<open>Echo\<close>

text \<open>Buffers small enough for the arithmetic on \<open>size_t\<close> and \<open>int\<close> not to wrap.\<close>

definition copy_room :: "evbuffer \<Rightarrow> bufferevent \<Rightarrow> bool" where
  "copy_room out b \<longleftrightarrow> evb_ok out \<and> evb_cb out = None \<and> evb_totallen out \<le> 2 ^ 60 \<and> evb_off (be_input b) < 2 ^ 31 \<and>
     evb_off out + evb_off (be_input b) \<le> 2 ^ 57"

definition echo_room :: "evbuffer \<Rightarrow> bufferevent \<Rightarrow> bool" where
  "echo_room out b \<longleftrightarrow> copy_room out b \<and> evb_totallen (be_output b) \<le> 2 ^ 62"

lemma no_cb: "run_cb evsel ucb None st = Some st"
  by (simp add: run_cb_def)

context event_client
begin

text \<open>What has happened when the loop of \<open>buffered_on_read\<close> has consumed \<open>n\<close> bytes; \<open>saved\<close> are the bytes it could store.\<close>

definition copied :: "eid set \<Rightarrow> evbuffer \<Rightarrow> bufferevent \<Rightarrow> 'a event_core_scheme \<Rightarrow> nat \<Rightarrow> byte list \<Rightarrow> evbuffer \<Rightarrow> bufferevent \<Rightarrow>
    'a event_core_scheme \<Rightarrow> bool" where
  "copied X out b s n saved out' b' s' \<longleftrightarrow> good X s' \<and> bev_ok X b' \<and> same_setup b b' \<and> be_output b' = be_output b \<and>
     untouched X (be_read b) s s' \<and> evb_ok out' \<and> evb_cb out' = None \<and>
     contents (be_input b') = drop n (contents (be_input b)) \<and> contents out' = contents out @ saved \<and>
     subseq saved (take n (contents (be_input b))) \<and> evb_totallen out' \<le> 2 ^ 60 \<and>
     ((\<forall>t n. os_alloc (os s) t n) \<longrightarrow> saved = take n (contents (be_input b)))"

lemma copied_trans:
  assumes "copied X out b s n k out1 b1 s1" and "copied X out1 b1 s1 m l out2 b2 s2"
  shows "copied X out b s (n + m) (k @ l) out2 b2 s2"
proof -
  let ?in = "contents (be_input b)"
  have "subseq (k @ l) (take n ?in @ take m (drop n ?in))"
    using assms by (intro list_emb_append_mono) (simp_all add: copied_def)
  moreover have "drop (n + m) ?in = drop m (drop n ?in)" by (simp add: add.commute)
  moreover have "same_setup b b2" using assms same_setup_trans [of b b1 b2] by (simp add: copied_def)
  moreover have "be_read b1 = be_read b" using assms same_setupD(2) [of b b1] by (simp add: copied_def)
  ultimately show ?thesis using assms by (auto simp: copied_def untouched_def take_add)
qed

text \<open>One iteration.\<close>

lemma copy_step:
  assumes g: "good X s" and ok: "bev_ok X b" and room: "copy_room out b" and some: "evb_off (be_input b) \<noteq> 0"
  obtains n k out1 b1 s1 where "copy_input evsel ucb out (b, s) = copy_input evsel ucb out1 (b1, s1)" and "0 < n"
    and "n \<le> evb_off (be_input b)" and "copied X out b s n k out1 b1 s1"
proof -
  let ?in = "contents (be_input b)" and ?off = "evb_off (be_input b)"
  define n where "n = min 4096 ?off"
  have n: "0 < n" "n \<le> ?off" "n \<le> 4096" using some by (simp_all add: n_def)
  have small: "?off < 2 ^ 31" using room by (simp add: copy_room_def)
  have evb: "evb_ok (be_input b)" "length ?in = ?off" using ok by (simp_all add: bev_ok_def)
  have size: "size_of_int (if int ?off > 4096 then 4096 else int ?off) = n"
    using small by (simp add: n_def size_of_int_def)
  obtain inp c where rm: "evbuffer_remove (be_input b) n = Some (int_of_size (min n ?off), take n ?in, inp, c)"
    "evb_ok inp" "contents inp = drop n ?in" "evb_cb inp = evb_cb (be_input b)"
    "c = (if n = 0 \<or> ?off = 0 then None else evb_notify inp ?off)"
    by (rule evbuffer_remove_correct [OF evb(1), of n]) blast
  let ?b0 = "b\<lparr>be_input := inp\<rparr>"
  have ok0: "bev_ok X ?b0" using ok rm(2,4) by (simp add: bev_ok_def)
  have c: "c = None \<or> c = evb_notify (be_input ?b0) ?off" using rm(5) by simp
  obtain b1 s1 where b1: "run_cb evsel ucb c (?b0, s) = Some (b1, s1)" "good X s1" "bev_ok X b1" "same_setup ?b0 b1"
    "untouched X (be_read ?b0) s s1" "be_output b1 = be_output ?b0" "contents (be_input b1) = contents (be_input ?b0)"
    "evb_off (be_input b1) = evb_off (be_input ?b0)"
    by (rule run_input_cb_ok [OF g ok0 c])
  have os1: "os s1 = os s" using b1(5) by (simp add: untouched_def)
  have out: "evb_ok out" "evb_misalign out + evb_off out + length (take n ?in) \<le> 2 ^ 63"
    using room n(3) by (auto simp: copy_room_def evb_ok_def)
  obtain r out1 c1 where ad: "evbuffer_add (os_alloc (os s1) (tick s1)) out (take n ?in) = Some (r, out1, c1)" "evb_ok out1"
    "evb_cb out1 = evb_cb out"
    "r = 0 \<and> contents out1 = contents out @ take n ?in \<and> c1 = (if take n ?in = [] then None else evb_notify out1 (evb_off out)) \<or>
      r = -1 \<and> contents out1 = contents out \<and> c1 = None"
    "\<forall>k. os_alloc (os s1) (tick s1) k \<Longrightarrow> r = 0"
    "evb_totallen out1 \<le> max (max 256 (evb_totallen out)) (4 * (evb_off out + length (take n ?in)))"
    by (rule evbuffer_add_correct [OF out, of "os_alloc (os s1) (tick s1)"]) blast
  have c1: "c1 = None" using ad(3,4) room by (auto simp: evb_notify_def copy_room_def)
  let ?s2 = "s1\<lparr>tick := tick s1 + 1\<rparr>"
  have "copy_input evsel ucb out (b, s) = copy_input evsel ucb out1 (b1, ?s2)"
    using some size rm(1) b1(1) ad(1)
    by (subst copy_input.simps) (simp add: int_of_size_small [OF small] c1 no_cb Let_def split del: if_split cong: if_cong)
  moreover obtain k where k: "contents out1 = contents out @ k" "subseq k (take n ?in)"
    "(\<forall>t n. os_alloc (os s) t n) \<longrightarrow> k = take n ?in"
    using ad(4,5) os1 by fastforce
  moreover have "evb_totallen out1 \<le> 2 ^ 60" using ad(6) room n(2) evb(2) by (auto simp: copy_room_def max_def split: if_splits)
  moreover have "same_setup b b1" using b1(4) same_setup_trans [of b ?b0 b1] by simp
  moreover have "untouched X (be_read b) s ?s2" using b1(5) by (simp add: untouched_def)
  ultimately show thesis
    using that [of out1 b1 ?s2 n k] n(1,2) tick_event [OF b1(2)] b1 os1 ad(2,3) rm(3) room by (simp add: copied_def copy_room_def)
qed

lemma copy_input_ok:
  assumes "good X s" and "bev_ok X b" and "copy_room out b"
  shows "\<exists>saved out' b' s'. copy_input evsel ucb out (b, s) = Some (out', b', s') \<and>
    copied X out b s (evb_off (be_input b)) saved out' b' s'"
  using assms
proof (induction "evb_off (be_input b)" arbitrary: b s out rule: less_induct)
  case less
  have len: "length (contents (be_input b)) = evb_off (be_input b)" "length (contents out) = evb_off out"
    using less.prems(2,3) by (simp_all add: bev_ok_def copy_room_def)
  show ?case
  proof (cases "evb_off (be_input b) = 0")
    case True
    then have "copy_input evsel ucb out (b, s) = Some (out, b, s)" by (simp add: copy_input.simps int_of_size_small)
    moreover have "copied X out b s 0 [] out b s"
      using less.prems by (simp add: copied_def untouched_def copy_room_def)
    ultimately show ?thesis using True by metis
  next
    case False
    obtain n k out1 b1 s1 where st: "copy_input evsel ucb out (b, s) = copy_input evsel ucb out1 (b1, s1)" "0 < n"
      "n \<le> evb_off (be_input b)" "copied X out b s n k out1 b1 s1"
      by (rule copy_step [OF less.prems False])
    note C = st(4) [unfolded copied_def]
    have off: "evb_off (be_input b1) = evb_off (be_input b) - n" "evb_off out1 = evb_off out + length k"
      using C len length_contents [of "be_input b1"] length_contents [of out1] by (simp_all add: bev_ok_def)
    moreover have "length k \<le> n" using C list_emb_length [of "(=)" k] st(3) len(1) by fastforce
    ultimately have "copy_room out1 b1" using C less.prems(3) st(3) by (auto simp: copy_room_def)
    then obtain l out' b' s' where "copy_input evsel ucb out1 (b1, s1) = Some (out', b', s')"
      "copied X out1 b1 s1 (evb_off (be_input b1)) l out' b' s'"
      using less.hyps [of b1 s1 out1] off(1) st(2,3) C by auto
    then show ?thesis using st(1,3) copied_trans [OF st(4)] off(1) by (metis le_add_diff_inverse)
  qed
qed

text \<open>The end of \<open>buffered_on_read\<close>: the client's buffer is handed to the connection.\<close>

lemma write_buffer_ok:
  assumes g: "good X s" and ok: "bev_ok X b" and fl: "flow b s" and out: "evb_ok out" "evb_cb out = None"
    and room: "evb_misalign (be_output b) + evb_off (be_output b) + evb_off out \<le> 2 ^ 63"
  obtains r out' b' s' where "bufferevent_write_buffer evsel ucb (b, s) out = Some (r, out', b', s')" and "good X s'" and "bev_ok X b'"
    and "same_setup b b'" and "be_input b' = be_input b" and "flow b' s'" and "evb_ok out'" and "untouched X (be_write b) s s'"
    and "evb_cb out' = None"
    and "r = 0 \<and> contents out' = [] \<and> contents (be_output b') = contents (be_output b) @ contents out \<and>
        (contents out \<noteq> [] \<and> has (be_enabled b) EV_WRITE \<longrightarrow> scheduled evsel (be_write b) (be_timeout_write b) s') \<or>
      r = -1 \<and> out' = out \<and> contents (be_output b') = contents (be_output b)"
    and "(\<forall>t n. os_alloc (os s) t n) \<longrightarrow> r = 0"
proof -
  let ?cs = "contents out"
  have len: "length ?cs = evb_off out" using out(1) by simp
  have data: "cells_read (evb_cells out) (evb_buffer out) (evb_off out) = Some ?cs"
    using evb_ok_read [OF out(1) order_refl] len by simp
  obtain r b' s' where w: "bufferevent_write evsel ucb (b, s) ?cs = Some (r, b', s')" "good X s'" "bev_ok X b'"
    "same_setup b b'" "be_input b' = be_input b" "flow b' s'" "untouched X (be_write b) s s'"
    "r = 0 \<and> contents (be_output b') = contents (be_output b) @ ?cs \<and>
        (?cs \<noteq> [] \<and> has (be_enabled b) EV_WRITE \<longrightarrow> scheduled evsel (be_write b) (be_timeout_write b) s') \<or>
      r = -1 \<and> contents (be_output b') = contents (be_output b)"
    "\<forall>t n. os_alloc (os s) t n \<Longrightarrow> r = 0"
    by (rule write_ok [OF g ok fl, of ?cs ucb]) (use room len in simp_all)
  obtain out' c where dr: "evbuffer_drain out (evb_off out) = (out', c)" by (cases "evbuffer_drain out (evb_off out)")
  note D = evbuffer_drain_correct [OF out(1), of "evb_off out", unfolded dr fst_conv snd_conv]
  have out': "evb_ok out'" "contents out' = []" "evb_cb out' = None" "c = None"
    using D len out(2) dr by (simp_all add: evb_notify_def)
  show thesis
  proof (cases "r = 0")
    case True
    then have "bufferevent_write_buffer evsel ucb (b, s) out = Some (r, out', b', s')"
      using data w(1) dr out'(4) by (simp add: bufferevent_write_buffer_def no_cb)
    then show thesis using that w(2-8) out'(1-3) True by simp
  next
    case False
    then have "bufferevent_write_buffer evsel ucb (b, s) out = Some (r, out, b', s')"
      using data w(1,8) by (simp add: bufferevent_write_buffer_def)
    then show thesis using that w(2-9) out False by auto
  qed
qed

lemma on_read_ok:
  assumes g: "good X s" and ok: "bev_ok X b" and out: "cl_output c = Some out" and room: "echo_room out b"
  obtains saved r out' b' s' where "buffered_on_read evsel ucb c (b, s) =
      (case if r \<noteq> (0 :: int) then closeClient c else ([], c) of (closed, c1) \<Rightarrow> Some (closed, c1\<lparr>cl_output := Some out'\<rparr>, b', s'))"
    and "good X s'" and "bev_ok X b'" and "same_setup b b'" and "flow b' s'" and "evb_ok out'" and "contents (be_input b') = []"
    and "evb_cb out' = None" and "os s' = os s"
    and "subseq saved (contents (be_input b))"
    and "r = 0 \<and> contents out' = [] \<and> contents (be_output b') = contents (be_output b) @ contents out @ saved \<and>
        (contents out @ saved \<noteq> [] \<and> has (be_enabled b) EV_WRITE \<longrightarrow> scheduled evsel (be_write b) (be_timeout_write b) s') \<or>
      r = -1 \<and> contents out' = contents out @ saved \<and> contents (be_output b') = contents (be_output b)"
    and "(\<forall>t n. os_alloc (os s) t n) \<longrightarrow> saved = contents (be_input b) \<and> r = 0"
proof -
  have cr: "copy_room out b" using room by (simp add: echo_room_def)
  have inp: "length (contents (be_input b)) = evb_off (be_input b)" using ok by (simp add: bev_ok_def)
  obtain saved out1 b1 s1 where cp: "copy_input evsel ucb out (b, s) = Some (out1, b1, s1)"
    "copied X out b s (evb_off (be_input b)) saved out1 b1 s1"
    using copy_input_ok [OF g ok cr] by blast
  note C = cp(2) [unfolded copied_def] and S = same_setupD
  have sv: "subseq saved (contents (be_input b))" "contents (be_input b1) = []" using C inp by simp_all
  have off: "evb_off (be_input b1) = 0" "evb_off out1 = evb_off out + length saved"
    using C sv(2) cr length_contents [of "be_input b1"] length_contents [of out1] by (simp_all add: bev_ok_def copy_room_def)
  have flow1: "flow b1 s1" using off(1) by (auto simp: flow_def full_def)
  have "length saved \<le> evb_off (be_input b)" using list_emb_length [OF sv(1)] inp by simp
  then have room1: "evb_misalign (be_output b1) + evb_off (be_output b1) + evb_off out1 \<le> 2 ^ 63"
    using room ok C off(2) by (auto simp: echo_room_def copy_room_def bev_ok_def evb_ok_def)
  obtain r out' b' s' where w: "bufferevent_write_buffer evsel ucb (b1, s1) out1 = Some (r, out', b', s')" "good X s'" "bev_ok X b'"
    "same_setup b1 b'" "be_input b' = be_input b1" "flow b' s'" "evb_ok out'" "untouched X (be_write b1) s1 s'" "evb_cb out' = None"
    "r = 0 \<and> contents out' = [] \<and> contents (be_output b') = contents (be_output b1) @ contents out1 \<and>
        (contents out1 \<noteq> [] \<and> has (be_enabled b1) EV_WRITE \<longrightarrow> scheduled evsel (be_write b1) (be_timeout_write b1) s') \<or>
      r = -1 \<and> out' = out1 \<and> contents (be_output b') = contents (be_output b1)"
    "(\<forall>t n. os_alloc (os s1) t n) \<longrightarrow> r = 0"
    by (rule write_buffer_ok [OF _ _ flow1 _ _ room1, of X ucb]) (use C in simp_all)
  have os: "os s1 = os s" "os s' = os s" using C w(8) by (simp_all add: untouched_def)
  have st: "same_setup b b1" "same_setup b b'" using C same_setup_trans [OF _ w(4)] by simp_all
  have "buffered_on_read evsel ucb c (b, s) =
      (case if r \<noteq> 0 then closeClient c else ([], c) of (closed, c1) \<Rightarrow> Some (closed, c1\<lparr>cl_output := Some out'\<rparr>, b', s'))"
    using out cp(1) w(1) by (simp add: buffered_on_read_def)
  then show thesis
    by (rule that [where saved = saved]) (use w C sv st inp S [OF st(1)] os in \<open>auto\<close>)
qed

end

definition demo_connection :: client where
  "demo_connection = \<lparr>cl_fd = 7, cl_evbase = True, cl_buf_ev = None, cl_output = Some (demo_evbuffer [4])\<rparr>"

lemma demo_echo_room: "echo_room (demo_evbuffer [4]) demo_bev"
  by (simp add: echo_room_def copy_room_def demo_bev_def demo_evbuffer_ok)

text \<open>
  C38. The echo server echoes. \<open>buffered_on_read\<close> on a consistent base returns, empties the input and keeps every invariant. With memory available
  the output grows by exactly what the client's own buffer held and what was received, in this order, the event for writing is scheduled and
  the descriptor stays open. Without memory it may lose bytes that were received, but what it keeps is in order; if the output cannot
  grow at all the descriptor is closed once.
\<close>

theorem server_echoes:
  assumes "client_ok X s" and "bev_ok X b" and "cl_output c = Some out" and "echo_room out b"
  shows "\<exists>saved closed c' out' b' s'. buffered_on_read ops ucb c (b, s) = Some (closed, c', b', s') \<and> client_ok X s' \<and> bev_ok X b' \<and>
    same_setup b b' \<and> flow b' s' \<and> cl_output c' = Some out' \<and> evb_ok out' \<and> contents (be_input b') = [] \<and>
    subseq saved (contents (be_input b)) \<and>
    (closed = [] \<and> cl_fd c' = cl_fd c \<and> contents out' = [] \<and> contents (be_output b') = contents (be_output b) @ contents out @ saved \<and>
       (contents out @ saved \<noteq> [] \<and> has (be_enabled b) EV_WRITE \<longrightarrow> scheduled ops (be_write b) (be_timeout_write b) s') \<or>
     (closed, cl_fd c') = (if cl_fd c \<ge> 0 then ([cl_fd c], -1) else ([], cl_fd c)) \<and> contents out' = contents out @ saved \<and>
       contents (be_output b') = contents (be_output b)) \<and>
    ((\<forall>t n. os_alloc (os s) t n) \<longrightarrow>
       closed = [] \<and> contents (be_output b') = contents (be_output b) @ contents out @ contents (be_input b))"
proof -
  obtain saved r out' b' s' where R: "buffered_on_read ops ucb c (b, s) =
      (case if r \<noteq> (0 :: int) then closeClient c else ([], c) of (closed, c1) \<Rightarrow> Some (closed, c1\<lparr>cl_output := Some out'\<rparr>, b', s'))"
    "client_ok X s'" "bev_ok X b'" "same_setup b b'" "flow b' s'" "evb_ok out'" "contents (be_input b') = []"
    "evb_cb out' = None" "os s' = os s" "subseq saved (contents (be_input b))"
    "r = 0 \<and> contents out' = [] \<and> contents (be_output b') = contents (be_output b) @ contents out @ saved \<and>
        (contents out @ saved \<noteq> [] \<and> has (be_enabled b) EV_WRITE \<longrightarrow> scheduled ops (be_write b) (be_timeout_write b) s') \<or>
      r = -1 \<and> contents out' = contents out @ saved \<and> contents (be_output b') = contents (be_output b)"
    "(\<forall>t n. os_alloc (os s) t n) \<longrightarrow> saved = contents (be_input b) \<and> r = 0"
    by (rule ec.on_read_ok [OF assms])
  obtain closed c1 where c1: "(if r \<noteq> 0 then closeClient c else ([], c)) = (closed, c1)"
    by (cases "if r \<noteq> 0 then closeClient c else ([], c)") blast
  then have "buffered_on_read ops ucb c (b, s) = Some (closed, c1\<lparr>cl_output := Some out'\<rparr>, b', s')" using R(1) by simp
  moreover have "r = 0 \<Longrightarrow> closed = [] \<and> cl_fd c1 = cl_fd c"
    "r \<noteq> 0 \<Longrightarrow> (closed, cl_fd c1) = (if cl_fd c \<ge> 0 then ([cl_fd c], -1) else ([], cl_fd c))"
    using c1 by (auto simp: closeClient_def split: if_splits)
  ultimately show ?thesis
    using R(2-12) by (intro exI [of _ saved] exI [of _ closed] exI [of _ "c1\<lparr>cl_output := Some out'\<rparr>"] exI [of _ out'] exI [of _ b'] exI [of _ s'])
      auto
qed

theorem server_echoes_witness:
  "\<exists>c' b' s'. buffered_on_read ops (\<lambda>_. Some) demo_connection (demo_bev, demo) = Some ([], c', b', s') \<and>
     contents (be_input b') = [] \<and> contents (be_output b') = [5, 6, 4, 1, 2]"
proof -
  have "contents (be_input demo_bev) = [1, 2]" "contents (be_output demo_bev) = [5, 6]" "\<forall>t n. os_alloc (os demo) t n"
    by (simp_all add: demo_bev_def demo_evbuffer_ok demo_defs)
  then show ?thesis
    using server_echoes [OF demo_client demo_bev_ok(1), where c = demo_connection and out = "demo_evbuffer [4]" and ucb = "\<lambda>_. Some"]
    by (fastforce simp: demo_connection_def demo_echo_room demo_evbuffer_ok)
qed

text \<open>
  \<open>buffered_on_read\<close> does not look at the result of \<open>evbuffer_add\<close>: the bytes have left the input by then, and if the addition fails they
  are gone.
\<close>

definition unused_buffer :: evbuffer where
  "unused_buffer = \<lparr>evb_buffer = 0, evb_orig = None, evb_misalign = 0, evb_totallen = 0, evb_off = 0, evb_cb = None, evb_cbarg = 0\<rparr>"

lemma echo_loses_input:
  assumes cb: "evb_cb (be_input b) = None" and ok: "evb_ok (be_input b)" and off: "0 < evb_off (be_input b)" "evb_off (be_input b) \<le> 256"
    and none: "\<And>t n. \<not> os_alloc (os s) t n"
  shows "\<exists>b' s'. copy_input evsel ucb unused_buffer (b, s) = Some (unused_buffer, b', s') \<and> contents (be_input b') = [] \<and>
    be_output b' = be_output b"
proof -
  let ?n = "evb_off (be_input b)" and ?in = "contents (be_input b)"
  have len: "length ?in = ?n" using ok by simp
  have n: "size_of_int (int ?n) = ?n" "int_of_size ?n = int ?n" using off(2) by (simp_all add: size_of_int_def int_of_size_small)
  obtain inp c where rm: "evbuffer_remove (be_input b) ?n = Some (int_of_size (min ?n ?n), take ?n ?in, inp, c)"
    "evb_ok inp" "contents inp = drop ?n ?in" "evb_cb inp = evb_cb (be_input b)"
    "c = (if ?n = 0 \<or> ?n = 0 then None else evb_notify inp ?n)"
    by (rule evbuffer_remove_correct [OF ok, of ?n]) blast
  have inp: "c = None" "contents inp = []" "evb_off inp = 0"
    using rm(2-5) cb len length_contents [OF rm(2)] by (simp_all add: evb_notify_def)
  have "grow_length 256 ?n = Some 256" using off(2) by (simp add: grow_length.simps)
  then have ad: "evbuffer_add (os_alloc (os s) (tick s)) unused_buffer (take ?n ?in) = Some (-1, unused_buffer, None)"
    using off none by (simp add: evbuffer_add_def evbuffer_expand_def unused_buffer_def len u64_def)
  let ?st = "(b\<lparr>be_input := inp\<rparr>, s\<lparr>tick := tick s + 1\<rparr>)"
  have "copy_input evsel ucb unused_buffer (b, s) = copy_input evsel ucb unused_buffer ?st"
    using rm(1) ad off n by (subst copy_input.simps) (simp add: inp(1) no_cb)
  also have "\<dots> = Some (unused_buffer, ?st)" by (simp add: copy_input.simps inp(3) int_of_size_small)
  finally show ?thesis using inp(2) by simp
qed

text \<open>
  The handler of \<open>SIGINT\<close> and \<open>SIGTERM\<close> is installed before \<open>evbase_accept\<close> is set and stays installed after it is reset to \<open>NULL\<close>; a
  signal at such a time ends in a null dereference, once there is memory for the event.
\<close>

lemma sighandler_null_base:
  assumes "os_calloc (os s) (tick s) = Some eo"
  shows "sighandler evsel NullBase c (s, q) = None"
  using assms
  by (simp add: sighandler_def killServer_def event_base_loopexit_def event_base_once_def evtimer_set_def event_set_def upd_ev_def event_base_set_def
      has_def EV_TIMEOUT_def EV_SIGNAL_def Let_def)

end
