(* ===== verification/AcceptSpec.thy ===== *)
theory AcceptSpec
  imports ServerSpec
begin

text \<open>
  Setting up a connection of the server: \<open>on_accept\<close> returns whatever call of the system fails, and either hands the pool a connection in
  the state that the echo theorem requires or closes the descriptor once and leaves nothing registered.
\<close>

subsection \<open>Adding an event for a descriptor touches no other event\<close>

lemma queue_others:
  "event_queue_insert s e q = Some s' \<Longrightarrow> x \<noteq> e \<Longrightarrow> evs s' x = evs s x"
  "event_queue_remove s e q = Some s' \<Longrightarrow> x \<noteq> e \<Longrightarrow> evs s' x = evs s x"
  by (auto simp: event_queue_insert_def event_queue_remove_def upd_ev_def Let_def bind_eq_Some_conv split: if_splits prod.splits)

lemma clear_ncalls_evs: "clear_ncalls s e = Some s' \<Longrightarrow> evs s' = evs s"
  by (auto simp: clear_ncalls_def write_ncalls_def split: option.splits if_splits)

lemma gettime_evs: "evs (snd (gettime s)) = evs s"
  by (simp add: gettime_state)

lemma epoll_ctl_evs: "evs (snd (epoll_ctl c fd ev s)) = evs s"
  by (simp add: epoll_ctl_def Let_def)

lemma epoll_recalc_evs: "epoll_recalc s mx = Some (r, s') \<Longrightarrow> evs s' = evs s"
  by (auto simp: epoll_recalc_def Let_def split: if_splits Option.bind_splits)

lemma epoll_add_fd_evs:
  assumes "epoll_add_fd s e = Some (r, s')"
  shows "evs s' = evs s"
proof -
  let ?fd = "ev_fd (evs s e)"
  obtain r1 s1 where s1: "(if ?fd \<ge> ep_nfds s then epoll_recalc s ?fd else Some (0, s)) = Some (r1, s1)"
    using assms by (auto simp: epoll_add_fd_def Let_def bind_eq_Some_conv)
  then have "evs s1 = evs s" using epoll_recalc_evs by (auto split: if_splits)
  moreover have "evs s' = evs s1"
  proof -
    define c where "c = (if evread (ep_fds s1 ! nat ?fd) \<noteq> None \<or> evwrite (ep_fds s1 ! nat ?fd) \<noteq> None then CTL_MOD else CTL_ADD)"
    define ev where "ev = table_events (ep_fds s1 ! nat ?fd) OR wanted_events (ev_events (evs s1 e))"
    note A = assms [unfolded epoll_add_fd_def Let_def s1 Option.bind_lunit prod.case, folded c_def, folded ev_def]
    obtain r2 s2 where "epoll_ctl c ?fd ev s1 = (r2, s2)" by (cases "epoll_ctl c ?fd ev s1")
    then show ?thesis using A epoll_ctl_evs [of c ?fd ev s1] by (auto split: if_splits)
  qed
  ultimately show ?thesis by simp
qed

lemma event_add_timeout_others:
  assumes add: "event_add_timeout s e tv = Some s'" and x: "x \<noteq> e"
  shows "evs s' x = evs s x"
proof -
  obtain s1 where s1: "(if has (ev_flags (evs s e)) EVLIST_TIMEOUT then event_queue_remove s e EVLIST_TIMEOUT else Some s) = Some s1"
    using add by (auto simp: event_add_timeout_def bind_eq_Some_conv)
  obtain s2 where s2: "(if has (ev_flags (evs s1 e)) EVLIST_ACTIVE \<and> has (ev_res (evs s1 e)) EV_TIMEOUT
               then do { s' \<leftarrow> clear_ncalls s1 e; event_queue_remove s' e EVLIST_ACTIVE }
               else Some s1) = Some s2"
    using add s1 unfolding event_add_timeout_def by (auto simp del: bind_assoc simp: bind_eq_Some_conv)
  obtain t s3 where s3: "gettime s2 = (t, s3)" by (cases "gettime s2")
  obtain now where now: "event_queue_insert (upd_ev e (\<lambda>v. v\<lparr>ev_timeout := timeradd now tv\<rparr>) s3) e EVLIST_TIMEOUT = Some s'"
    using add s1 s2 s3 unfolding event_add_timeout_def by (auto simp: bind_eq_Some_conv)
  have "evs s1 x = evs s x" using s1 queue_others(2) [OF _ x] by (auto split: if_splits)
  moreover have "evs s2 x = evs s1 x"
    using s2 queue_others(2) [OF _ x] clear_ncalls_evs by (fastforce simp: bind_eq_Some_conv split: if_splits)
  moreover have "evs s3 x = evs s2 x" using gettime_evs [of s2] s3 by simp
  moreover have "evs s' x = evs s3 x" using queue_others(1) [OF now x] x by (simp add: upd_ev_def)
  ultimately show ?thesis by simp
qed

lemma event_add_insert_others:
  assumes add: "event_add_insert (epollops (Suc n)) s e = Some (r, s')" and io: "\<not> has (ev_events (evs s e)) EV_SIGNAL" and x: "x \<noteq> e"
  shows "evs s' x = evs s x"
proof -
  consider "s' = s" | s1 where "epoll_add_fd s e = Some (r, s1)" "s' = s1 \<or> event_queue_insert s1 e EVLIST_INSERTED = Some s'"
    using add io by (auto simp: event_add_insert_def epoll_add_def bind_eq_Some_conv split: if_splits)
  then show ?thesis
  proof cases
    case 2
    then show ?thesis using epoll_add_fd_evs [OF 2(1)] queue_others(1) [of s1 e EVLIST_INSERTED s' x] x by auto
  qed simp
qed

lemma event_add_others:
  assumes add: "event_add (epollops (Suc n)) s e tv = Some (r, s')" and io: "\<not> has (ev_events (evs s e)) EV_SIGNAL" and x: "x \<noteq> e"
  shows "evs s' x = evs s x"
proof -
  obtain r1 s1 where s1: "event_add_reserve s e tv = (r1, s1)" by (cases "event_add_reserve s e tv")
  have e1: "evs s1 = evs s" using s1 by (auto simp: event_add_reserve_def split: if_splits prod.splits)
  consider "s' = s1" | r2 s2 where "event_add_insert (epollops (Suc n)) s1 e = Some (r2, s2)"
      "s' = s2 \<or> (\<exists>t. event_add_timeout s2 e t = Some s')"
    using add s1 by (auto simp: event_add_def bind_eq_Some_conv split: if_splits option.splits)
  then show ?thesis
  proof cases
    case 2
    then have "evs s2 x = evs s1 x" using event_add_insert_others [OF 2(1) _ x] io e1 by simp
    then show ?thesis using 2(2) event_add_timeout_others [of s2 e _ s' x] x e1 by auto
  qed (use e1 in simp)
qed

subsection \<open>Initialising an event that is not registered\<close>

lemma elem_init_sel:
  "hp_p (min_heap_elem_init h e) = hp_p h" "hp_n (min_heap_elem_init h e) = hp_n h" "hp_a (min_heap_elem_init h e) = hp_a h"
  "helems (min_heap_elem_init h e) = helems h"
  by (simp_all add: min_heap_elem_init_def helems_def)

lemma heap_ok_elem_init:
  assumes ok: "heap_ok K h" and e: "e \<notin> set (helems h)"
  shows "heap_ok K (min_heap_elem_init h e)"
proof -
  have "hp_idx (min_heap_elem_init h e) (helems h ! i) = hp_idx h (helems h ! i)" if "i < length (helems h)" for i
    using nth_mem [OF that] e by (auto simp: min_heap_elem_init_def)
  then show ?thesis using ok by (simp add: heap_ok_def heap_rep_def elem_init_sel)
qed

text \<open>The event \<open>e\<close>, which is on no list, is given the value \<open>v\<close>.\<close>

definition reset_event :: "eid \<Rightarrow> event \<Rightarrow> 'a event_core_scheme \<Rightarrow> 'a event_core_scheme" where
  "reset_event e v s = s\<lparr>evs := (evs s)(e := v), timeheap := min_heap_elem_init (timeheap s) e\<rparr>"

lemma reset_event_ok:
  assumes ok: "base_ok s" and e: "\<not> queued s e" "e \<notin> epoll_own s" and v: "ev_flags v = EVLIST_INIT"
  shows "base_ok (reset_event e v s)" and "queued (reset_event e v s) = queued s"
proof -
  let ?s = "reset_event e v s"
  note core = base_okD(1) [OF ok]
  have q: "\<not> inserted s e" "\<not> active s e" "\<not> timed s e" using e by (simp_all add: queued_def)
  have same: "inserted ?s = inserted s" "active ?s = active s" "timed ?s = timed s"
    using q by (auto simp: fun_eq_iff flags_bit reset_event_def v bit_EVLIST)
  then show "queued ?s = queued s" by (simp add: fun_eq_iff queued_def)
  have int: "internal ?s x = internal s x" "evs ?s x = evs s x" if "x \<noteq> e" for x
    using that by (simp_all add: flags_bit reset_event_def)
  have lists: "inq ?s = inq s" "actq ?s = actq s" "tmq ?s = tmq s"
    by (simp_all add: inq_def actq_def tmq_def reset_event_def elem_init_sel)
  have cnt: "counted ?s = counted s"
  proof -
    have "{x. inserted s x \<and> \<not> internal ?s x} = {x. inserted s x \<and> \<not> internal s x}"
      "{x. active s x \<and> \<not> internal ?s x} = {x. active s x \<and> \<not> internal s x}"
      "{x. timed s x \<and> \<not> internal ?s x} = {x. timed s x \<and> \<not> internal s x}"
      using q int(1) by metis+
    then show ?thesis by (simp add: counted_def same)
  qed
  have notin: "e \<notin> set (tmq s)" using core_okD(5) [OF core] q by blast
  have "heap_ok (deadline ?s) (timeheap ?s)"
  proof -
    have "heap_ok (deadline s) (min_heap_elem_init (timeheap s) e)"
      using heap_ok_elem_init [OF core_okD(3) [OF core]] notin by (simp add: tmq_def)
    moreover have "deadline ?s x = deadline s x" if "x \<in> set (helems (min_heap_elem_init (timeheap s) e))" for x
      using that notin by (auto simp: deadline_def reset_event_def tmq_def elem_init_sel)
    ultimately show ?thesis using heap_ok_cong by (simp add: reset_event_def)
  qed
  moreover have "x \<in> set (actq s p) \<longleftrightarrow> active s x \<and> ev_pri (evs ?s x) = int p" "active s x \<Longrightarrow> pri_ok ?s x"
    "inserted s x \<or> active s x \<or> timed s x \<Longrightarrow> ev_base (evs ?s x) = Base" for x p
  proof -
    have "evs ?s x = evs s x \<or> x = e" "nactivequeues ?s = nactivequeues s" using int(2) by (auto simp: reset_event_def)
    then show "x \<in> set (actq s p) \<longleftrightarrow> active s x \<and> ev_pri (evs ?s x) = int p" "active s x \<Longrightarrow> pri_ok ?s x"
      "inserted s x \<or> active s x \<or> timed s x \<Longrightarrow> ev_base (evs ?s x) = Base"
      using core_okD(6) [OF core, of x p] core_okD(7,11) [OF core, of x] q by (auto simp: pri_ok_def)
  qed
  moreover have "\<forall>x. flags_ok (ev_flags (evs ?s x))" using core_okD(10) [OF core] by (simp add: reset_event_def v)
  ultimately have "core_ok ?s"
    using core_okD(1,2,4,5,8,9) [OF core] cnt unfolding core_ok_def same lists
    by (simp add: reset_event_def)
  moreover have "epoll_inv ?s {x. inserted ?s x}" "epoll_own ?s = epoll_own s"
  proof -
    have "ev_view (evs ?s x) = ev_view (evs s x)" if "x \<in> {x. inserted s x} \<union> epoll_own s" for x
    proof -
      have "x \<noteq> e" using that e(2) q by auto
      from int(2) [OF this] show ?thesis by simp
    qed
    then show "epoll_inv ?s {x. inserted ?s x}" "epoll_own ?s = epoll_own s"
      using epoll_inv_cong [OF base_okD(2) [OF ok], of ?s] unfolding same by (simp_all add: reset_event_def)
  qed
  moreover have "own_ok (epoll_own s) ?s" using base_okD(3) [OF ok] by (simp add: own_ok_def same)
  ultimately show "base_ok ?s" by (simp add: base_ok_def)
qed

subsection \<open>The parts of on_accept\<close>

text \<open>Two blocks that \<open>calloc\<close> returns do not overlap; 8 and 136 are the offsets of the events in a \<open>struct bufferevent\<close>.\<close>

definition blocks_apart :: "'a event_core_scheme \<Rightarrow> bool" where
  "blocks_apart s \<longleftrightarrow> (\<forall>t u p q. os_calloc (os s) t = Some p \<and> os_calloc (os s) u = Some q \<and> t \<noteq> u \<longrightarrow> p + 8 \<noteq> q \<and> p + 136 \<noteq> q)"

text \<open>The base of a connection before anything is registered on it; \<open>es\<close> is the event of its socket pair.\<close>

definition quiet :: "eid \<Rightarrow> 'b epoll_world_scheme \<Rightarrow> bool" where
  "quiet es s \<longleftrightarrow> base_ok s \<and> clock_ok s \<and> (\<forall>x. \<not> queued s x) \<and> epoll_own s = {es} \<and> ev_pncalls (evs s es) = None \<and>
     current_base s = NullBase"

lemma quiet_free:
  assumes "quiet es s"
  obtains s' where "event_base_free ops s Base = Some s'" and "\<forall>x. \<not> queued s' x"
proof -
  have "all_ready s" using assms by (simp add: quiet_def all_ready_def queued_def)
  then show thesis using base_free_ok [of s] assms that by (simp add: quiet_def clear_ncalls_safe del: not_None_eq) blast
qed

definition fresh_evbuffer :: evbuffer where
  "fresh_evbuffer = \<lparr>evb_buffer = 0, evb_orig = None, evb_misalign = 0, evb_totallen = 0, evb_off = 0, evb_cb = None, evb_cbarg = 0\<rparr>"

lemma fresh_evbuffer_ok:
  "evb_ok fresh_evbuffer" "evb_cb fresh_evbuffer = None" "evb_off fresh_evbuffer = 0" "evb_totallen fresh_evbuffer = 0"
  by (simp_all add: fresh_evbuffer_def evb_ok_def evb_cells_def len_ok_def)

lemma evbuffer_new_fresh: "evbuffer_new alloc = (if alloc 56 then Some fresh_evbuffer else None)"
  by (simp add: evbuffer_new_def fresh_evbuffer_def)

text \<open>The events of a connection and its buffered event, when they have been set up.\<close>

definition conn_event :: "int \<Rightarrow> 16 word \<Rightarrow> callback \<Rightarrow> nat \<Rightarrow> event" where
  "conn_event fd events cb p = zero_event\<lparr>ev_base := Base, ev_callback := cb, ev_arg := p, ev_fd := fd, ev_events := events,
     ev_flags := EVLIST_INIT\<rparr>"

definition conn_bev :: "nat \<Rightarrow> bufferevent" where
  "conn_bev p = \<lparr>be_base = Base, be_read = p + 8, be_write = p + 136, be_input = fresh_evbuffer, be_output = fresh_evbuffer,
     be_wm_read = \<lparr>wm_low = 0, wm_high = 0\<rparr>, be_wm_write = \<lparr>wm_low = 0, wm_high = 0\<rparr>, be_readcb = Some BUFFERED_ON_READ,
     be_writecb = Some BUFFERED_ON_WRITE, be_errorcb = Some BUFFERED_ON_ERROR, be_cbarg = 0,
     be_timeout_read = SOCKET_READ_TIMEOUT_SECONDS, be_timeout_write = SOCKET_WRITE_TIMEOUT_SECONDS, be_enabled = EV_WRITE\<rparr>"

text \<open>\<open>bufferevent_new\<close>, \<open>bufferevent_base_set\<close> and \<open>bufferevent_settimeout\<close> as \<open>on_accept\<close> calls them.\<close>

definition conn_setup :: "'b epoll_world_scheme \<Rightarrow> int \<Rightarrow> (bufferevent option \<times> 'b epoll_world_scheme) option" where
  "conn_setup s fd =
     (case bufferevent_new s fd (Some BUFFERED_ON_READ) (Some BUFFERED_ON_WRITE) (Some BUFFERED_ON_ERROR) 0 of
        (None, s2) \<Rightarrow> Some (None, s2)
      | (Some b, s2) \<Rightarrow> do {
          (r, st3) \<leftarrow> bufferevent_base_set Base (b, s2);
          (b4, s4) \<leftarrow> bufferevent_settimeout ops st3 SOCKET_READ_TIMEOUT_SECONDS SOCKET_WRITE_TIMEOUT_SECONDS;
          Some (Some b4, s4) })"

lemma conn_setup_run:
  assumes cb: "current_base s = NullBase" and pri: "nactivequeues s = 1" and p: "os_calloc (os s) (tick s) = Some p"
  shows "conn_setup s fd =
    (if \<not> os_alloc (os s) (tick s + 1) 56 then Some (None, s\<lparr>tick := tick s + 2\<rparr>)
     else if \<not> os_alloc (os s) (tick s + 2) 56 then Some (None, s\<lparr>tick := tick s + 3\<rparr>)
     else Some (Some (conn_bev p), reset_event (p + 136) (conn_event fd EV_WRITE WRITECB p)
       (reset_event (p + 8) (conn_event fd EV_READ READCB p) (s\<lparr>tick := tick s + 3\<rparr>))))"
proof -
  have no_timer: "\<not> has (0 :: 32 word) EVLIST_INSERTED" "\<not> has EVLIST_INIT EVLIST_INSERTED" "\<not> has EVLIST_INIT EVLIST_ACTIVE"
    "\<not> has EVLIST_INIT EVLIST_TIMEOUT"
    by (simp_all add: has_def EVLIST_INIT_def EVLIST_INSERTED_def EVLIST_ACTIVE_def EVLIST_TIMEOUT_def)
  show ?thesis
    using p cb pri
    by (simp add: conn_setup_def bufferevent_new_def evbuffer_new_fresh event_set_def upd_ev_def bufferevent_base_set_def
        event_base_set_def bufferevent_settimeout_def event_pending_def no_timer bufferevent_setcb_def conn_bev_def reset_event_def
        conn_event_def zero_event_def Let_def fun_upd_twist [of "p + 8" "p + 136"])
qed

lemma quiet_tick: "quiet es s \<Longrightarrow> quiet es (s\<lparr>tick := n\<rparr>)"
  by (simp add: quiet_def clock_ok_def epoll_own_def queued_def flags_bit base_ok_tick)

lemma quiet_reset:
  assumes q: "quiet es s" and e: "e \<noteq> es" and v: "ev_flags v = EVLIST_INIT"
  shows "quiet es (reset_event e v s)"
proof -
  have own: "epoll_own (reset_event e v s) = epoll_own s" by (simp add: epoll_own_def reset_event_def)
  show ?thesis
    using q reset_event_ok [of s e v] e v unfolding quiet_def own
    by (simp add: clock_ok_def reset_event_def)
qed

lemma quiet_client:
  assumes q: "quiet es s" and ev: "evs s (p + 8) = conn_event fd EV_READ READCB p" "evs s (p + 136) = conn_event fd EV_WRITE WRITECB p"
    and apart: "p + 8 \<noteq> es" "p + 136 \<noteq> es" and fd: "0 \<le> fd" "fd < 2 ^ 30"
  shows "client_ok {p + 8, p + 136} s"
proof -
  have "tmq s = []"
  proof -
    have "x \<notin> set (tmq s)" for x using q core_okD(5) [OF base_okD(1), of s x] by (simp add: quiet_def queued_def)
    then show ?thesis by (metis last_in_set)
  qed
  moreover have "usable s x \<and> wants_io (evs s x) \<and> clear_ncalls s x \<noteq> None" if "x \<in> {p + 8, p + 136}" for x
    using that apart fd q ev
    by (auto simp: usable_def quiet_def epoll_fit_def wants_io_def conn_event_def zero_event_def clear_ncalls_safe flag_defs
        simp del: not_None_eq)
  ultimately show ?thesis using q by (simp add: client_ok_def quiet_def)
qed

text \<open>\<open>bufferevent_enable\<close> as \<open>on_accept\<close> calls it, on a connection that has been set up.\<close>

definition enabled_conn :: "eid \<Rightarrow> nat \<Rightarrow> int \<Rightarrow> bufferevent \<Rightarrow> 'b epoll_world_scheme \<Rightarrow> bool" where
  "enabled_conn es p fd b s \<longleftrightarrow> (\<exists>en. b = (conn_bev p)\<lparr>be_enabled := en\<rparr> \<and> has en EV_WRITE \<and> (has en EV_READ \<longrightarrow> queued s (p + 8))) \<and>
     client_ok {p + 8, p + 136} s \<and> ev_fd (evs s (p + 8)) = fd \<and> (\<forall>x. queued s x \<longrightarrow> x = p + 8) \<and>
     epoll_own s = {es} \<and> ev_pncalls (evs s es) = None \<and> current_base s = NullBase"

lemma read_write_bits:
  "has (EV_READ :: 16 word) EV_READ" "\<not> has (EV_READ :: 16 word) EV_WRITE" "has (EV_WRITE :: 16 word) EV_WRITE"
  "\<not> has (EV_WRITE :: 16 word) EV_READ" "\<not> has (EV_READ :: 16 word) EV_SIGNAL" "has (EV_WRITE OR EV_READ :: 16 word) EV_WRITE"
  by (simp_all add: has_def EV_READ_def EV_WRITE_def EV_SIGNAL_def)

lemma conn_enable:
  assumes q: "quiet es s" and ev: "evs s (p + 8) = conn_event fd EV_READ READCB p" "evs s (p + 136) = conn_event fd EV_WRITE WRITECB p"
    and apart: "p + 8 \<noteq> es" "p + 136 \<noteq> es" and fd: "0 \<le> fd" "fd < 2 ^ 30"
  obtains r b' s' where "bufferevent_enable ops (conn_bev p, s) EV_READ = Some (r, b', s')" and "enabled_conn es p fd b' s'"
proof -
  let ?X = "{p + 8, p + 136}" and ?tv = "Some (Timeval SOCKET_READ_TIMEOUT_SECONDS 0)"
  have ok: "client_ok ?X s" by (rule quiet_client [OF q ev apart fd])
  obtain r s' where s': "event_add ops s (p + 8) ?tv = Some (r, s')" "client_ok ?X s'" "add_outcome s (p + 8) ?tv r s'"
    using ec.add_event [OF ok, of "p + 8" ?tv] by auto
  obtain r2 s2 where t: "event_add ops s (p + 8) ?tv = Some (r2, s2)" "epoll_own s2 = epoll_own s" "lib_frame s s2"
      "r2 = -1 \<longrightarrow> (\<forall>x. x \<notin> epoll_own s \<longrightarrow> evs s2 x = evs s x)" "r2 \<noteq> -1 \<longrightarrow> added (epoll_own s) s (p + 8) ?tv s2"
    by (rule client_add [OF ok, of "p + 8" ?tv]) blast+
  have eq: "r2 = r" "s2 = s'" using s'(1) t(1) by simp_all
  have oth: "evs s' x = evs s x" if "x \<noteq> p + 8" for x
    by (rule event_add_others [OF s'(1) _ that]) (simp add: ev conn_event_def read_write_bits)
  have fd': "ev_fd (evs s' (p + 8)) = fd"
  proof (cases "r = -1")
    case True
    then show ?thesis using t(4) eq q apart ev(1) by (simp add: quiet_def conn_event_def)
  next
    case False
    then show ?thesis using added_self [of "epoll_own s" s "p + 8" ?tv s'] t(5) eq ev(1) by (auto simp: conn_event_def)
  qed
  have only: "x = p + 8" if "queued s' x" for x
  proof (rule ccontr)
    assume "x \<noteq> p + 8"
    then have "queued s' x = queued s x" using oth by (simp add: queued_def flags_bit)
    then show False using that q by (simp add: quiet_def)
  qed
  have own: "epoll_own s' = {es}" "ev_pncalls (evs s' es) = None" "current_base s' = NullBase"
    using t(2,3) eq q oth [of es] apart lib_frameD(6) [of s s'] by (simp_all add: quiet_def)
  have run: "bufferevent_enable ops (conn_bev p, s) EV_READ =
      (if r = -1 then Some (-1, conn_bev p, s') else Some (0, (conn_bev p)\<lparr>be_enabled := EV_WRITE OR EV_READ\<rparr>, s'))"
    using s'(1) by (simp add: bufferevent_enable_def bufferevent_add_def read_write_bits conn_bev_def SOCKET_READ_TIMEOUT_SECONDS_def)
  have "queued s' (p + 8)" if "r \<noteq> -1" using s'(3) that by (simp add: add_outcome_def)
  then have C: "enabled_conn es p fd ((conn_bev p)\<lparr>be_enabled := en\<rparr>) s'" if "r = -1 \<and> en = EV_WRITE \<or> r \<noteq> -1 \<and> en = EV_WRITE OR EV_READ" for en
  proof -
    have "has en EV_WRITE \<and> (has en EV_READ \<longrightarrow> queued s' (p + 8))"
      using that \<open>r \<noteq> -1 \<Longrightarrow> queued s' (p + 8)\<close> by (auto simp: read_write_bits)
    moreover have "\<forall>x. queued s' x \<longrightarrow> x = p + 8" using only by blast
    ultimately show ?thesis using s'(2) fd' own unfolding enabled_conn_def by blast
  qed
  show thesis
  proof (cases "r = -1")
    case True
    have "(conn_bev p)\<lparr>be_enabled := EV_WRITE\<rparr> = conn_bev p" by (simp add: conn_bev_def)
    then show thesis using that [of "-1" "conn_bev p" s'] run C [of EV_WRITE] True by simp
  next
    case False
    then show thesis using that [OF _ C] run by simp
  qed
qed

lemma conn_close:
  assumes c: "enabled_conn es p fd b s" and cl: "cl_fd cl = fd" "cl_evbase cl" "cl_buf_ev cl = Some b" and fd: "0 \<le> fd"
  obtains s' where "closeAndFreeClient ops cl s = Some ([fd], s')" and "\<forall>x. \<not> queued s' x"
proof -
  let ?X = "{p + 8, p + 136}"
  note C = c [unfolded enabled_conn_def]
  obtain en where "b = (conn_bev p)\<lparr>be_enabled := en\<rparr>" using C by blast
  then have be: "be_read b = p + 8" "be_write b = p + 136" by (simp_all add: conn_bev_def)
  have ok: "client_ok ?X s" using C by blast
  obtain r1 s1 where s1: "event_del ops s (p + 8) = Some (r1, s1)" "client_ok ?X s1" "deleted s (p + 8) s1" "epoll_own s1 = epoll_own s"
    by (rule client_del [OF ok, of "p + 8"]) blast+
  obtain r2 s2 where s2: "event_del ops s1 (p + 136) = Some (r2, s2)" "client_ok ?X s2" "deleted s1 (p + 136) s2" "epoll_own s2 = epoll_own s1"
    by (rule client_del [OF s1(2), of "p + 136"]) blast+
  have e2: "evs s2 = with_flags (p + 136) (off_queues (ev_flags (evs s1 (p + 136)))) s1"
    "evs s1 = with_flags (p + 8) (off_queues (ev_flags (evs s (p + 8)))) s" "lib_frame s s1" "lib_frame s1 s2"
    using s1(3) s2(3) by (simp_all add: deleted_def)
  have nq: "\<not> queued s2 x" for x
    using C e2(1,2) by (auto simp: queued_def flags_bit with_flags_def)
  have "es \<notin> ?X" using ok C by (auto simp: client_ok_def usable_def)
  then have "quiet es s2"
    using s2(2) nq C s1(4) s2(4) e2 lib_frameD(6) [OF e2(3)] lib_frameD(6) [OF e2(4)]
    by (simp add: quiet_def client_ok_def with_flags_def)
  then obtain s' where s': "event_base_free ops s2 Base = Some s'" "\<forall>x. \<not> queued s' x" by (rule quiet_free)
  have "closeAndFreeClient ops cl s = Some ([fd], s')"
    using cl fd s1(1) s2(1) s'(1) be by (simp add: closeAndFreeClient_def closeClient_def bufferevent_free_def)
  then show thesis using that s'(2) by blast
qed

lemma conn_setup_then:
  assumes "conn_setup s fd = Some (ob, s4)"
  shows "(case bufferevent_new s fd (Some BUFFERED_ON_READ) (Some BUFFERED_ON_WRITE) (Some BUFFERED_ON_ERROR) 0 of
      (None, s2) \<Rightarrow> F s2
    | (Some b, s2) \<Rightarrow> do {
        (r, st3) \<leftarrow> bufferevent_base_set Base (b, s2);
        st4 \<leftarrow> bufferevent_settimeout ops st3 SOCKET_READ_TIMEOUT_SECONDS SOCKET_WRITE_TIMEOUT_SECONDS;
        G st4 }) = (case ob of None \<Rightarrow> F s4 | Some b \<Rightarrow> G (b, s4))"
  using assms by (auto simp: conn_setup_def bind_eq_Some_conv split: option.splits prod.splits)

lemma new_base_quiet:
  assumes fresh: "fresh_process s" and w: "willing_system s" and apart: "blocks_apart s" and new: "new_base s s'"
    and cb: "current_base s' = NullBase"
  obtains es p where "quiet es s'" and "os_calloc (os s') (tick s') = Some p" and "p + 8 \<noteq> es" and "p + 136 \<noteq> es"
    and "nactivequeues s' = 1" and "os s' = os s"
proof -
  obtain es b t where es: "evs s' = (evs s)(es := signal_event es b)" "ev_signal (sig s') = Some es"
      "os_calloc (os s) t = Some es" "t < tick s'"
    using new unfolding new_base_def by blast
  have N: "nactivequeues s' = 1" "os s' = os s" using new by (simp_all add: new_base_def)
  obtain p where p: "os_calloc (os s') (tick s') = Some p" using w unfolding willing_system_def N(2) by blast
  then have "p + 8 \<noteq> es \<and> p + 136 \<noteq> es"
    using apart es(3,4) N(2) unfolding blocks_apart_def by (metis nat_neq_iff)
  moreover have "quiet es s'"
    using new_base_ok [OF fresh w new] new_base_idle(1) [OF fresh new] es(1,2) cb loop_okD(1,3) [of s']
    by (simp add: quiet_def epoll_own_def signal_event_def zero_event_def)
  ultimately show thesis using that p N by blast
qed

text \<open>The connection is handed to the pool in the state that the echo theorem asks for.\<close>

definition connection_ready :: "client \<Rightarrow> int \<Rightarrow> 'b epoll_world_scheme \<Rightarrow> bool" where
  "connection_ready cl fd s \<longleftrightarrow> cl_fd cl = fd \<and> cl_evbase cl \<and>
     (\<exists>b out. cl_buf_ev cl = Some b \<and> cl_output cl = Some out \<and> contents out = [] \<and> echo_room out b \<and>
        bev_ok {be_read b, be_write b} b \<and> client_ok {be_read b, be_write b} s \<and> flow b s \<and>
        contents (be_input b) = [] \<and> contents (be_output b) = [] \<and>
        be_readcb b = Some BUFFERED_ON_READ \<and> be_writecb b = Some BUFFERED_ON_WRITE \<and> be_errorcb b = Some BUFFERED_ON_ERROR \<and>
        be_timeout_read b = 10 \<and> be_timeout_write b = 10 \<and> be_wm_read b = \<lparr>wm_low = 0, wm_high = 0\<rparr> \<and> ev_fd (evs s (be_read b)) = fd \<and> has (be_enabled b) EV_WRITE \<and>
        (has (be_enabled b) EV_READ \<longrightarrow> queued s (be_read b)))"

lemma enabled_conn_ready:
  assumes "enabled_conn es p fd b s"
  shows "connection_ready \<lparr>cl_fd = fd, cl_evbase = True, cl_buf_ev = Some b, cl_output = Some fresh_evbuffer\<rparr> fd s"
proof -
  note C = assms [unfolded enabled_conn_def]
  obtain en where b: "b = (conn_bev p)\<lparr>be_enabled := en\<rparr>" "has en EV_WRITE" "has en EV_READ \<longrightarrow> queued s (p + 8)" using C by blast
  have "contents fresh_evbuffer = []" by (simp add: contents_def fresh_evbuffer_def)
  moreover have "evb_ok fresh_evbuffer" "evb_cb fresh_evbuffer = None" "evb_off fresh_evbuffer = 0" "evb_totallen fresh_evbuffer = 0"
    by (rule fresh_evbuffer_ok)+
  ultimately show ?thesis
    using C b(2,3) unfolding b(1)
    by (simp add: connection_ready_def conn_bev_def bev_ok_def echo_room_def copy_room_def flow_def full_def
        SOCKET_READ_TIMEOUT_SECONDS_def SOCKET_WRITE_TIMEOUT_SECONDS_def)
qed

lemma accept_new_base:
  assumes fresh: "fresh_process s" and w: "willing_system s" and apart: "blocks_apart s" and fd: "0 \<le> fd" "fd < 2 ^ 30"
  obtains ob s1 s4 where "event_base_new ops s = Some (True, s1)" and "conn_setup s1 fd = Some (ob, s4)"
    and "\<exists>es. case ob of None \<Rightarrow> quiet es s4 | Some b \<Rightarrow> \<exists>r p b' s'. bufferevent_enable ops (b, s4) EV_READ = Some (r, b', s') \<and> enabled_conn es p fd b' s'"
    and "(\<forall>t. os_alloc (os s) t 56) \<longrightarrow> ob \<noteq> None"
proof -
  obtain s1 where s1: "event_base_new ops s = Some (True, s1)" "new_base s s1" "current_base s1 = NullBase"
    by (rule new_base_run [OF _ w]) (use fresh in \<open>simp_all add: fresh_process_def\<close>)
  obtain es p where q: "quiet es s1" "os_calloc (os s1) (tick s1) = Some p" "p + 8 \<noteq> es" "p + 136 \<noteq> es" "nactivequeues s1 = 1" "os s1 = os s"
    by (rule new_base_quiet [OF fresh w apart s1(2,3)]) blast
  note run = conn_setup_run [OF s1(3) q(5,2), of fd]
  show thesis
  proof (cases "os_alloc (os s1) (tick s1 + 1) 56 \<and> os_alloc (os s1) (tick s1 + 2) 56")
    case False
    define n where "n = (if os_alloc (os s1) (tick s1 + 1) 56 then tick s1 + 3 else tick s1 + 2)"
    have "conn_setup s1 fd = Some (None, s1\<lparr>tick := n\<rparr>)" using False run by (simp add: n_def)
    from that [OF s1(1) this] show thesis using quiet_tick [OF q(1)] False q(6) by auto
  next
    case True
    define s4 where "s4 = reset_event (p + 136) (conn_event fd EV_WRITE WRITECB p)
       (reset_event (p + 8) (conn_event fd EV_READ READCB p) (s1\<lparr>tick := tick s1 + 3\<rparr>))"
    have "ev_flags (conn_event fd x y p) = EVLIST_INIT" for x y by (simp add: conn_event_def)
    then have q4: "quiet es s4"
      unfolding s4_def using quiet_tick [OF q(1)] q(3,4) by (intro quiet_reset)
    have "evs s4 (p + 8) = conn_event fd EV_READ READCB p" "evs s4 (p + 136) = conn_event fd EV_WRITE WRITECB p"
      by (simp_all add: s4_def reset_event_def)
    then obtain r b' s' where en: "bufferevent_enable ops (conn_bev p, s4) EV_READ = Some (r, b', s')" "enabled_conn es p fd b' s'"
      by (rule conn_enable [OF q4 _ _ q(3,4) fd])
    have "conn_setup s1 fd = Some (Some (conn_bev p), s4)" using run True by (simp add: s4_def)
    then show thesis using en by (intro that [OF s1(1)]) (assumption, simp, blast, simp)
  qed
qed

subsection \<open>Property\<close>

text \<open>
  C39. Setting up a connection never leaks: \<open>on_accept\<close> returns whether or not \<open>accept\<close>, \<open>fcntl\<close>, the allocation of the client, of a
  buffer or of the job fail. On every failure the accepted descriptor, if there is one, has been closed exactly once and no event is left
  registered; otherwise nothing is closed and the pool gets a client whose buffered event, on the accepted descriptor and with timeouts of ten
  seconds, satisfies everything that the echo theorem asks for.
\<close>

theorem accept_closes_or_serves:
  fixes s :: "'b epoll_world_scheme"
  assumes fresh: "fresh_process s" and w: "willing_system s" and apart: "blocks_apart s" and fd: "ae_accept env < 2 ^ 30"
  shows "\<exists>closed c s'. on_accept ops env s = Some (closed, c, s') \<and>
    (case c of
       None \<Rightarrow> closed = (if ae_accept env < 0 then [] else [ae_accept env]) \<and> (\<forall>x. \<not> queued s' x)
     | Some cl \<Rightarrow> closed = [] \<and> 0 \<le> ae_accept env \<and> 0 \<le> setnonblock (ae_getfl env) (ae_setfl env) \<and> ae_client env \<and> ae_job env \<and>
         connection_ready cl (ae_accept env) s') \<and>
    (0 \<le> ae_accept env \<and> 0 \<le> setnonblock (ae_getfl env) (ae_setfl env) \<and> ae_client env \<and> ae_job env \<and> (\<forall>t. os_alloc (os s) t 56) \<longrightarrow> c \<noteq> None)"
proof -
  let ?fd = "ae_accept env" and ?s = "s\<lparr>tick := tick s + 1\<rparr>"
  have idle: "\<not> queued (s\<lparr>tick := n\<rparr>) x" "\<not> queued s x" for x n
    using fresh by (simp_all add: fresh_process_def queued_def flags_bit)
  consider "?fd < 0 \<or> setnonblock (ae_getfl env) (ae_setfl env) < 0 \<or> \<not> ae_client env"
    | "0 \<le> ?fd" "0 \<le> setnonblock (ae_getfl env) (ae_setfl env)" "ae_client env" "\<not> os_alloc (os s) (tick s) 56"
    | "0 \<le> ?fd" "0 \<le> setnonblock (ae_getfl env) (ae_setfl env)" "ae_client env" "os_alloc (os s) (tick s) 56"
    by linarith
  then show ?thesis
  proof cases
    case 1
    then have "on_accept ops env s = Some (if ?fd < 0 then [] else [?fd], None, s)"
      unfolding on_accept_def Let_def by (cases "?fd < 0"; cases "setnonblock (ae_getfl env) (ae_setfl env) < 0") simp_all
    then show ?thesis using idle(2) 1 by auto
  next
    case 2
    then show ?thesis using idle
      by (auto simp: on_accept_def evbuffer_new_fresh closeAndFreeClient_def closeClient_def)
  next
    case 3
    have "fresh_process ?s" "willing_system ?s" "blocks_apart ?s"
      using fresh w apart idle(1) by (simp_all add: fresh_process_def willing_system_def blocks_apart_def frames_ok_def)
    then obtain ob s1 s4 where base: "event_base_new ops ?s = Some (True, s1)" "conn_setup s1 ?fd = Some (ob, s4)"
      "\<exists>es. case ob of None \<Rightarrow> quiet es s4
        | Some b \<Rightarrow> \<exists>r p b' s'. bufferevent_enable ops (b, s4) EV_READ = Some (r, b', s') \<and> enabled_conn es p ?fd b' s'"
      "(\<forall>t. os_alloc (os ?s) t 56) \<longrightarrow> ob \<noteq> None"
      by (rule accept_new_base [OF _ _ _ 3(1) fd])
    have cond: "(?fd < 0) = False" "(setnonblock (ae_getfl env) (ae_setfl env) < 0) = False" "ae_client env = True" "os_alloc (os s) (tick s) 56 = True"
      using 3 by simp_all
    define cl where "cl ob = \<lparr>cl_fd = ?fd, cl_evbase = True, cl_buf_ev = ob, cl_output = Some fresh_evbuffer\<rparr>" for ob
    define give_up where "give_up = (\<lambda>c (s :: 'b epoll_world_scheme). do { (closed, s') \<leftarrow> closeAndFreeClient ops c s; Some (closed, None :: client option, s') })"
    have run: "on_accept ops env s = (case ob of
        None \<Rightarrow> give_up (cl None) s4
      | Some b \<Rightarrow> do { (r, st5) \<leftarrow> bufferevent_enable ops (b, s4) EV_READ;
                       if \<not> ae_job env then give_up (cl (Some (fst st5))) (snd st5) else Some ([], Some (cl (Some (fst st5))), snd st5) })"
      unfolding on_accept_def Let_def cond evbuffer_new_fresh if_True if_False not_True_eq_False option.case base(1) Option.bind_lunit
        prod.case conn_setup_then [OF base(2)]
      by (cases ob) (simp_all add: cl_def give_up_def cong: if_cong)
    show ?thesis
    proof (cases ob)
      case None
      then obtain es where "quiet es s4" using base(3) by auto
      then obtain s' where "event_base_free ops s4 Base = Some s'" "\<forall>x. \<not> queued s' x" by (rule quiet_free)
      then show ?thesis
        using run None 3 base(4) by (simp add: give_up_def cl_def closeAndFreeClient_def closeClient_def)
    next
      case (Some b)
      then obtain es r p b' s' where en: "bufferevent_enable ops (b, s4) EV_READ = Some (r, b', s')" "enabled_conn es p ?fd b' s'"
        using base(3) by auto
      show ?thesis
      proof (cases "ae_job env")
        case True
        then show ?thesis using run Some en(1) enabled_conn_ready [OF en(2)] 3 by (simp add: cl_def)
      next
        case False
        obtain s'' where "closeAndFreeClient ops (cl (Some b')) s' = Some ([?fd], s'')" "\<forall>x. \<not> queued s'' x"
          by (rule conn_close [OF en(2), of "cl (Some b')"]) (use 3 in \<open>simp_all add: cl_def\<close>)
        then show ?thesis using run Some en(1) False 3 by (simp add: give_up_def)
      qed
    qed
  qed
qed

text \<open>A process in which every call succeeds.\<close>

definition demo_start :: "unit epoll_world_scheme" where
  "demo_start = demo\<lparr>current_base := NullBase, os := (os demo)\<lparr>os_calloc := (\<lambda>t. Some (1000 * t + 1000))\<rparr>\<rparr>"

lemma demo_start_ok: "fresh_process demo_start" "willing_system demo_start" "blocks_apart demo_start" "\<forall>t. os_alloc (os demo_start) t 56"
proof -
  have "queued demo_start = queued demo" by (rule queued_cong) (simp add: demo_start_def)
  moreover have "\<not> queued demo e" for e using demo_okD(8) [of e] by (simp add: queued_def)
  moreover have "flags_ok (ev_flags (evs demo e))" for e using core_okD(10) [OF loop_okD(8) [OF demo_loop]] .
  moreover have "evs demo_start = evs demo" by (simp add: demo_start_def)
  ultimately show "fresh_process demo_start"
    by (simp add: fresh_process_def frames_ok_def) (simp add: demo_start_def demo_defs unallocated_def blank_on_def)
  show "willing_system demo_start" "\<forall>t. os_alloc (os demo_start) t 56"
    by (simp_all add: willing_system_def signals_valid_def demo_start_def demo_defs tv_ok_def)
  have "1000 * t + 1000 + 8 \<noteq> 1000 * u + 1000 \<and> 1000 * t + 1000 + 136 \<noteq> 1000 * u + (1000 :: nat)" for t u by (cases "u \<le> t") linarith+
  then show "blocks_apart demo_start" by (simp add: blocks_apart_def demo_start_def)
qed

theorem accept_closes_or_serves_witness:
  "\<exists>cl s'. on_accept ops \<lparr>ae_accept = 7, ae_getfl = 2, ae_setfl = 0, ae_client = True, ae_job = True\<rparr> demo_start = Some ([], Some cl, s') \<and>
     connection_ready cl 7 s'"
proof -
  let ?env = "\<lparr>ae_accept = 7, ae_getfl = 2, ae_setfl = 0, ae_client = True, ae_job = True\<rparr>"
  obtain closed c s' where "on_accept ops ?env demo_start = Some (closed, c, s')"
    "case c of None \<Rightarrow> closed = (if ae_accept ?env < 0 then [] else [ae_accept ?env]) \<and> (\<forall>x. \<not> queued s' x)
     | Some cl \<Rightarrow> closed = [] \<and> 0 \<le> ae_accept ?env \<and> 0 \<le> setnonblock (ae_getfl ?env) (ae_setfl ?env) \<and> ae_client ?env \<and> ae_job ?env \<and>
         connection_ready cl (ae_accept ?env) s'"
    "c \<noteq> None"
    using accept_closes_or_serves [OF demo_start_ok(1-3), of ?env] demo_start_ok(4) by (auto simp: setnonblock_def)
  then show ?thesis by auto
qed

end
