(* ===== verification/EchoSpec.thy ===== *)
theory EchoSpec
  imports AcceptSpec
begin

text \<open>
  The life of a connection: whatever order the loop delivers the two events of a connection in, and whatever \<open>read\<close> and \<open>write\<close>
  do, the stream of bytes that the connection sends is the stream that it received.
\<close>

subsection \<open>Serving an event\<close>

text \<open>
  What the loop does for one of the two events of a connection: the callback of the library, then the function of the server that it calls
  last. \<open>reading\<close> tells which of the two events it is.
\<close>

definition serve ::
  "('a event_core_scheme) eventop \<Rightarrow> (cbcall \<Rightarrow> 'a bev_state \<Rightarrow> ('a bev_state) option) \<Rightarrow> bev_io \<Rightarrow> int \<Rightarrow> bool \<Rightarrow> 16 word \<Rightarrow>
     client \<times> 'a bev_state \<Rightarrow> (int list \<times> client \<times> 'a bev_state) option" where
  "serve evsel ucb io fd reading event conn =
     (case conn of (c, st) \<Rightarrow> do {
        (call, st1) \<leftarrow> (if reading then bufferevent_readcb evsel ucb io fd event st else bufferevent_writecb evsel ucb io fd event st);
        (case call of
           None \<Rightarrow> Some ([], c, st1)
         | Some (ReadCb f arg) \<Rightarrow> if f = BUFFERED_ON_READ then buffered_on_read evsel ucb c st1 else None
         | Some (WriteCb f arg) \<Rightarrow> if f = BUFFERED_ON_WRITE then Some ([], c, st1) else None
         | Some (ErrorCb f what arg) \<Rightarrow>
             if f = BUFFERED_ON_ERROR then let (closed, c1) = buffered_on_error c in Some (closed, c1, st1) else None) })"

text \<open>The setting that \<open>on_accept\<close> makes, which nothing changes later.\<close>

definition echo_bev :: "bufferevent \<Rightarrow> bool" where
  "echo_bev b \<longleftrightarrow> be_wm_read b = \<lparr>wm_low = 0, wm_high = 0\<rparr> \<and> be_readcb b = Some BUFFERED_ON_READ \<and>
     be_writecb b = Some BUFFERED_ON_WRITE \<and> be_errorcb b = Some BUFFERED_ON_ERROR"

text \<open>Buffers so small that no sum of lengths wraps.\<close>

definition echo_small :: "client \<Rightarrow> bufferevent \<Rightarrow> bool" where
  "echo_small c b \<longleftrightarrow> evb_totallen (be_input b) \<le> 2 ^ 62 \<and> evb_totallen (be_output b) \<le> 2 ^ 62 \<and>
     (\<forall>out. cl_output c = Some out \<longrightarrow> evb_totallen out \<le> 2 ^ 60 \<and> evb_off out \<le> 2 ^ 56)"

text \<open>
  The state of a connection that has received \<open>rcv\<close>, sent \<open>snt\<close> and closed the descriptors \<open>closed\<close>: what was sent and what is still held,
  in the order in which it will be sent, is what was received, up to what no memory was there for.
\<close>

definition echo_conn :: "bool \<Rightarrow> eid set \<Rightarrow> int \<Rightarrow> byte list \<Rightarrow> byte list \<Rightarrow> int list \<Rightarrow> client \<Rightarrow> bufferevent \<Rightarrow> bool" where
  "echo_conn mem X fd rcv snt closed c b \<longleftrightarrow>
     echo_bev b \<and> bev_ok X b \<and> contents (be_input b) = [] \<and>
     (closed = [] \<and> cl_fd c = fd \<or> closed = [fd] \<and> cl_fd c = -1) \<and>
     (\<exists>out. cl_output c = Some out \<and> evb_ok out \<and> evb_cb out = None \<and>
        subseq (snt @ contents (be_output b) @ contents out) rcv \<and>
        (mem \<longrightarrow> contents out = [] \<and> snt @ contents (be_output b) = rcv))"

lemma arrived_small:
  assumes "io_ok io" and "wm_high (be_wm_read b) = 0"
  shows "length (arrived io fd event t b) < 2 ^ 31"
proof -
  let ?k = "evbuffer_read_size (be_input b) (io_ioctl io t fd) (- 1)"
  have "?k < 2 ^ 31" using assms(1) by (intro evbuffer_read_size_bounds(2)) (auto simp: io_ok_def)
  moreover have "length bs \<le> nat ?k" if "io_read io t fd (nat ?k) = Inr bs" for bs
    using assms(1) that unfolding io_ok_def by blast
  ultimately show ?thesis using assms(2) by (fastforce simp: arrived_def answer_def asked_def split: sum.splits)
qed

lemma echo_bev_setup: "same_setup b b' \<Longrightarrow> echo_bev b' = echo_bev b"
  by (simp add: echo_bev_def same_setupD)

lemma echo_flow: "echo_bev b \<Longrightarrow> flow b s"
  by (simp add: echo_bev_def flow_def full_def)

lemma closing:
  assumes "closed = [] \<and> cl_fd c = fd \<or> closed = [fd] \<and> cl_fd c = -1" and "0 \<le> fd" and "closeClient c = (cl, c1)"
  shows "closed @ cl = [fd] \<and> cl_fd c1 = -1 \<and> cl_output c1 = cl_output c"
  using assms by (auto simp: closeClient_def split: if_splits)

text \<open>A call that changes neither buffer; \<open>call\<close> is \<open>None\<close>, \<open>WriteCb\<close> or \<open>ErrorCb\<close>.\<close>

lemma echo_conn_close:
  assumes conn: "echo_conn mem X fd rcv snt closed c b" and fd: "0 \<le> fd" and cl: "closeClient c = (cl, c1)"
  shows "echo_conn mem X fd rcv snt (closed @ cl) c1 b"
  using closing [OF _ fd cl, of closed] conn by (simp add: echo_conn_def)

lemma subseq_more: "subseq a r \<Longrightarrow> subseq b q \<Longrightarrow> subseq (a @ b) (r @ q)"
  by (rule list_emb_append_mono)

text \<open>The bytes \<open>bs\<close> have been read into the input, \<open>buffered_on_read\<close> is called.\<close>

lemma serve_data:
  assumes g: "client_ok X s" and conn: "echo_conn mem X fd rcv snt closed c b" and fd: "0 \<le> fd" and small: "echo_small c b"
    and b1: "bev_ok X b1" "same_setup b b1" "be_output b1 = be_output b" "contents (be_input b1) = bs" "length bs < 2 ^ 31"
    and mem: "mem \<longrightarrow> (\<forall>t n. os_alloc (os s) t n)"
  obtains cl c' b' s' where "buffered_on_read ops ucb c (b1, s) = Some (cl, c', b', s')" and "client_ok X s'" and "os s' = os s"
    and "echo_conn mem X fd (rcv @ bs) snt (closed @ cl) c' b'"
proof -
  note E = conn [unfolded echo_conn_def]
  obtain out where out: "cl_output c = Some out" "evb_ok out" "evb_cb out = None"
    "subseq (snt @ contents (be_output b) @ contents out) rcv"
    "mem \<longrightarrow> contents out = [] \<and> snt @ contents (be_output b) = rcv"
    using E by blast
  have "evb_off (be_input b1) = length bs" using b1(1,4) length_contents [of "be_input b1"] by (simp add: bev_ok_def)
  then have room: "echo_room out b1"
    using small out(1-3) b1(3,5) by (auto simp: echo_room_def copy_room_def echo_small_def)
  obtain saved r out' b' s' where R: "buffered_on_read ops ucb c (b1, s) =
      (case if r \<noteq> (0 :: int) then closeClient c else ([], c) of (cl, c1) \<Rightarrow> Some (cl, c1\<lparr>cl_output := Some out'\<rparr>, b', s'))"
    "client_ok X s'" "bev_ok X b'" "same_setup b1 b'" "evb_ok out'" "contents (be_input b') = []" "evb_cb out' = None" "os s' = os s"
    "subseq saved (contents (be_input b1))"
    "r = 0 \<and> contents out' = [] \<and> contents (be_output b') = contents (be_output b1) @ contents out @ saved \<and>
        (contents out @ saved \<noteq> [] \<and> has (be_enabled b1) EV_WRITE \<longrightarrow> scheduled ops (be_write b1) (be_timeout_write b1) s') \<or>
      r = -1 \<and> contents out' = contents out @ saved \<and> contents (be_output b') = contents (be_output b1)"
    "(\<forall>t n. os_alloc (os s) t n) \<longrightarrow> saved = contents (be_input b1) \<and> r = 0"
    by (rule ec.on_read_ok [OF g b1(1) out(1) room, of ucb])
  obtain cl c1 where c1: "(if r \<noteq> 0 then closeClient c else ([], c)) = (cl, c1)" by fastforce
  have shut: "closed @ cl = [] \<and> cl_fd c1 = fd \<or> closed @ cl = [fd] \<and> cl_fd c1 = -1"
    using closing [OF _ fd, of closed c cl c1] E c1 by (auto split: if_splits)
  have held: "contents (be_output b') @ contents out' = contents (be_output b) @ contents out @ saved"
    using R(10) b1(3) by auto
  have "subseq ((snt @ contents (be_output b) @ contents out) @ saved) (rcv @ bs)"
    using subseq_more [OF out(4)] R(9) b1(4) by simp
  then have "subseq (snt @ contents (be_output b') @ contents out') (rcv @ bs)" using held by simp
  moreover have "contents out' = [] \<and> snt @ contents (be_output b') = rcv @ bs" if mem
    using that mem R(10,11) out(5) b1(3,4) by auto
  moreover have "echo_bev b'" using E b1(2) R(4) by (simp add: echo_bev_setup)
  ultimately have "echo_conn mem X fd (rcv @ bs) snt (closed @ cl) (c1\<lparr>cl_output := Some out'\<rparr>) b'"
    using R(3,5-7) shut by (simp add: echo_conn_def)
  moreover have "buffered_on_read ops ucb c (b1, s) = Some (cl, c1\<lparr>cl_output := Some out'\<rparr>, b', s')" using R(1) c1 by simp
  ultimately show thesis using that R(2,8) by blast
qed

lemma serve_read_ok:
  assumes g: "client_ok X s" and conn: "echo_conn mem X fd rcv snt closed c b" and fd: "0 \<le> fd" and small: "echo_small c b"
    and io: "io_ok io" and mem: "mem \<longrightarrow> (\<forall>t n. os_alloc (os s) t n)"
  obtains cl c' b' s' where "serve ops ucb io fd True event (c, b, s) = Some (cl, c', b', s')" and "client_ok X s'" and "os s' = os s"
    and "echo_conn mem X fd (rcv @ arrived io fd event (tick s) b) snt (closed @ cl) c' b'"
proof -
  note E = conn [unfolded echo_conn_def]
  let ?arr = "arrived io fd event (tick s) b"
  have b: "echo_bev b" "bev_ok X b" "wm_high (be_wm_read b) = 0" "wm_low (be_wm_read b) = 0" "contents (be_input b) = []"
    using E by (simp_all add: echo_bev_def)
  have "evb_off (be_input b) = 0" using b(2,5) length_contents [of "be_input b"] by (simp add: bev_ok_def)
  then have room: "read_room b" using small b(3) by (simp add: read_room_def echo_small_def)
  obtain call b1 s1 bs where R: "bufferevent_readcb ops ucb io fd event (b, s) = Some (call, b1, s1)" "client_ok X s1" "bev_ok X b1"
    "same_setup b b1" "be_output b1 = be_output b" "untouched X (be_read b) s s1" "read_outcome io (os_alloc (os s) (tick s)) fd event (tick s) b bs call b1"
    by (rule ec.readcb_ok [OF g b(2) echo_flow [OF b(1)] io room])
  have got: "bs = ?arr \<or> bs = [] \<and> \<not> (\<forall>t n. os_alloc (os s) t n)" using outcome_arrived [OF R(7)] by blast
  have os: "os s1 = os s" using R(6) by (simp add: untouched_def)
  have inp: "contents (be_input b1) = bs" using R(7) b(5) by (simp add: read_outcome_def)
  have more: "echo_conn mem X fd (rcv @ ?arr) snt closed' c' b'" if "echo_conn mem X fd (rcv @ bs) snt closed' c' b'" for closed' c' b'
    using that got mem subseq_more [where r = rcv and b = "[]" and q = ?arr] by (auto simp: echo_conn_def)
  show thesis
  proof (cases "bs = []")
    case True
    have conn1: "echo_conn mem X fd (rcv @ bs) snt closed c b1"
      using conn True inp R(3,5) echo_bev_setup [OF R(4)] by (auto simp: echo_conn_def)
    obtain cl c1 where c1: "closeClient c = (cl, c1)" by fastforce
    have "call = None \<or> (\<exists>what. call = Some (ErrorCb BUFFERED_ON_ERROR what (be_cbarg b)))"
      using R(7) b(1,3) True by (auto simp: read_outcome_def echo_bev_def full_def split: if_splits)
    then show thesis
    proof
      assume "call = None"
      then have "serve ops ucb io fd True event (c, b, s) = Some ([], c, b1, s1)" using R(1) by (simp add: serve_def)
      then show thesis using that R(2) os more [OF conn1] by simp
    next
      assume "\<exists>what. call = Some (ErrorCb BUFFERED_ON_ERROR what (be_cbarg b))"
      then have "serve ops ucb io fd True event (c, b, s) = Some (cl, c1, b1, s1)"
        using R(1) c1 by (auto simp: serve_def buffered_on_error_def)
      then show thesis using that R(2) os more [OF echo_conn_close [OF conn1 fd c1]] by blast
    qed
  next
    case False
    then have bs: "bs = ?arr" "length bs < 2 ^ 31" using got arrived_small [OF io b(3)] by auto
    obtain cl c' b' s' where D: "buffered_on_read ops ucb c (b1, s1) = Some (cl, c', b', s')" "client_ok X s'" "os s' = os s1"
      "echo_conn mem X fd (rcv @ bs) snt (closed @ cl) c' b'"
      by (rule serve_data [OF R(2) conn fd small R(3,4,5) inp bs(2)]) (use mem os in simp)
    have "event \<noteq> EV_TIMEOUT" using False R(7) by (auto simp: read_outcome_def)
    moreover have "\<not> full b" using b(3) by (simp add: full_def)
    ultimately have "call = Some (ReadCb BUFFERED_ON_READ (be_cbarg b1))"
      using False R(7) b(1,4) same_setupD [OF R(4)] by (simp add: read_outcome_def read_call_def echo_bev_def)
    then have "serve ops ucb io fd True event (c, b, s) = Some (cl, c', b', s')" using R(1) D(1) by (simp add: serve_def)
    then show thesis using that D(2-4) os bs(1) by simp
  qed
qed

lemma serve_write_ok:
  assumes g: "client_ok X s" and conn: "echo_conn mem X fd rcv snt closed c b" and fd: "0 \<le> fd" and io: "io_ok io"
  obtains cl c' b' s' where "serve ops ucb io fd False event (c, b, s) = Some (cl, c', b', s')" and "client_ok X s'" and "os s' = os s"
    and "echo_conn mem X fd rcv (snt @ taken io fd event (tick s) b) (closed @ cl) c' b'"
proof -
  note E = conn [unfolded echo_conn_def]
  have b: "echo_bev b" "bev_ok X b" using E by simp_all
  obtain call b1 s1 bs where W: "bufferevent_writecb ops ucb io fd event (b, s) = Some (call, b1, s1)" "ec.wrote X b s b1 s1"
    "write_outcome io fd event (tick s) b bs call b1"
    by (rule ec.writecb_ok [OF g b(2) echo_flow [OF b(1)] io])
  note V = W(2) [unfolded ec.wrote_def]
  have bs: "bs = taken io fd event (tick s) b" by (rule taken_outcome [OF W(3)])
  have held: "contents (be_output b) = bs @ contents (be_output b1)" using W(3) by (simp add: write_outcome_def)
  have conn1: "echo_conn mem X fd rcv (snt @ bs) closed c b1"
    using conn V held echo_bev_setup [of b b1] by (auto simp: echo_conn_def)
  have os: "os s1 = os s" using V by (simp add: untouched_def)
  obtain cl c1 where c1: "closeClient c = (cl, c1)" by fastforce
  have "call = None \<or> call = Some (WriteCb BUFFERED_ON_WRITE (be_cbarg b1)) \<or> (\<exists>what. call = Some (ErrorCb BUFFERED_ON_ERROR what (be_cbarg b)))"
    using W(3) b(1) echo_bev_setup [of b b1] V same_setupD(9) [of b b1]
    by (auto simp: write_outcome_def write_call_def echo_bev_def Let_def split: if_splits sum.splits)
  then consider "call = None \<or> call = Some (WriteCb BUFFERED_ON_WRITE (be_cbarg b1))"
    | what where "call = Some (ErrorCb BUFFERED_ON_ERROR what (be_cbarg b))" by blast
  then show thesis
  proof cases
    case 1
    then have "serve ops ucb io fd False event (c, b, s) = Some ([], c, b1, s1)" using W(1) by (auto simp: serve_def)
    then show thesis using that V os conn1 bs by simp
  next
    case 2
    then have "serve ops ucb io fd False event (c, b, s) = Some (cl, c1, b1, s1)"
      using W(1) c1 by (simp add: serve_def buffered_on_error_def)
    then show thesis using that V os echo_conn_close [OF conn1 fd c1] bs by blast
  qed
qed

subsection \<open>The life of a connection\<close>

text \<open>
  The connection \<open>(c, b)\<close> in the state \<open>s\<close> of its base, with the bytes received and sent and the descriptors closed since the start. Between
  two callbacks the loop may do anything that keeps the base consistent (\<open>loop\<close>); \<open>event\<close> is one callback, of either event, for
  any reason.
\<close>

type_synonym 'b conn = "bufferevent \<times> 'b epoll_world_scheme"

inductive echo_run ::
  "bev_io \<Rightarrow> (cbcall \<Rightarrow> 'b conn \<Rightarrow> 'b conn option) \<Rightarrow> eid set \<Rightarrow> int \<Rightarrow> client \<times> 'b conn \<Rightarrow> client \<times> 'b conn \<Rightarrow> byte list \<Rightarrow> byte list \<Rightarrow> int list \<Rightarrow> bool"
  for io ucb X fd conn0 where
  start: "echo_run io ucb X fd conn0 conn0 [] [] []"
| loop: "echo_run io ucb X fd conn0 (c, b, s) rcv snt closed \<Longrightarrow> client_ok X s' \<Longrightarrow> os s' = os s \<Longrightarrow>
    echo_run io ucb X fd conn0 (c, b, s') rcv snt closed"
| event: "echo_run io ucb X fd conn0 (c, b, s) rcv snt closed \<Longrightarrow> echo_small c b \<Longrightarrow>
    serve ops ucb io fd reading event (c, b, s) = Some (cl, conn') \<Longrightarrow>
    echo_run io ucb X fd conn0 conn' (rcv @ (if reading then arrived io fd event (tick s) b else []))
      (snt @ (if reading then [] else taken io fd event (tick s) b)) (closed @ cl)"

lemma serve_ok:
  assumes "client_ok X s" and "echo_conn mem X fd rcv snt closed c b" and "0 \<le> fd" and "echo_small c b"
    and "io_ok io" and "mem \<longrightarrow> (\<forall>t n. os_alloc (os s) t n)"
  obtains cl c' b' s' where "serve ops ucb io fd reading event (c, b, s) = Some (cl, c', b', s')" and "client_ok X s'" and "os s' = os s"
    and "echo_conn mem X fd (rcv @ (if reading then arrived io fd event (tick s) b else []))
      (snt @ (if reading then [] else taken io fd event (tick s) b)) (closed @ cl) c' b'"
proof (cases reading)
  case True
  show thesis by (rule serve_read_ok [OF assms, of ucb event]) (use that True in simp)
next
  case False
  show thesis by (rule serve_write_ok [OF assms(1-3,5), of ucb event]) (use that False in simp)
qed

text \<open>The invariant of the run.\<close>

lemma echo_run_inv:
  assumes "echo_run io ucb X fd conn0 conn rcv snt closed" and io: "io_ok io" and fd: "0 \<le> fd" and conn0: "conn0 = (c0, b0, s0)"
    and start: "client_ok X s0" "echo_conn mem X fd [] [] [] c0 b0" and mem: "mem \<longrightarrow> (\<forall>t n. os_alloc (os s0) t n)"
  shows "client_ok X (snd (snd conn)) \<and> os (snd (snd conn)) = os s0 \<and> echo_conn mem X fd rcv snt closed (fst conn) (fst (snd conn))"
  using assms(1)
proof induction
  case start
  then show ?case using conn0 assms(5,6) by simp
next
  case (loop c b s rcv snt closed s')
  then show ?case by simp
next
  case (event c b s rcv snt closed reading ev cl conn')
  then have IH: "client_ok X s" "os s = os s0" "echo_conn mem X fd rcv snt closed c b" by simp_all
  show ?case
    by (rule serve_ok [OF IH(1,3) fd event.hyps(2) io, of ucb reading ev]) (use IH(2) mem event.hyps(3) in \<open>auto\<close>)
qed

text \<open>
  C7. The stream is echoed. On a connection as \<open>on_accept\<close> hands it to the pool, after any sequence of callbacks of its two events, for
  data, timeouts or errors, what the descriptor has taken, then what the output holds, then what the client's own buffer holds, is what was received,
  in order; nothing is left in the input; bytes are missing only if memory ran out. With memory available nothing is missing and the client's own
  buffer is empty. The descriptor is closed at most once. As long as the buffers are below 2^56 bytes the next callback returns.
\<close>

theorem echo_stream:
  assumes "connection_ready c0 fd s0" and "cl_buf_ev c0 = Some b0" and "0 \<le> fd" and "io_ok io"
    and "echo_run io ucb {be_read b0, be_write b0} fd (c0, b0, s0) (c, b, s) rcv snt closed"
  shows "\<exists>out. cl_output c = Some out \<and> subseq (snt @ contents (be_output b) @ contents out) rcv \<and> contents (be_input b) = [] \<and>
    ((\<forall>t n. os_alloc (os s0) t n) \<longrightarrow> contents out = [] \<and> snt @ contents (be_output b) = rcv) \<and>
    (closed = [] \<and> cl_fd c = fd \<or> closed = [fd] \<and> cl_fd c = -1) \<and>
    (echo_small c b \<longrightarrow> serve ops ucb io fd reading event (c, b, s) \<noteq> None)"
proof -
  let ?X = "{be_read b0, be_write b0}" and ?mem = "\<forall>t n. os_alloc (os s0) t n"
  have start: "client_ok ?X s0" "echo_conn ?mem ?X fd [] [] [] c0 b0"
    using assms(1,2) by (auto simp: connection_ready_def echo_conn_def echo_bev_def echo_room_def copy_room_def)
  note I = echo_run_inv [OF assms(5,4,3) refl start]
  then have inv: "client_ok ?X s" "os s = os s0" "echo_conn ?mem ?X fd rcv snt closed c b" by simp_all
  have "serve ops ucb io fd reading event (c, b, s) \<noteq> None" if "echo_small c b"
    by (rule serve_ok [OF inv(1,3) assms(3) that assms(4), of ucb reading event]) (use inv(2) in simp_all)
  then show ?thesis using inv(3) by (auto simp: echo_conn_def)
qed

definition idle_bev :: bufferevent where
  "idle_bev = demo_bev\<lparr>be_input := demo_evbuffer [], be_output := demo_evbuffer [], be_wm_read := \<lparr>wm_low = 0, wm_high = 0\<rparr>,
     be_timeout_read := 10, be_timeout_write := 10, be_enabled := EV_WRITE\<rparr>"

definition idle_client :: client where
  "idle_client = \<lparr>cl_fd = 7, cl_evbase = True, cl_buf_ev = Some idle_bev, cl_output = Some (demo_evbuffer [])\<rparr>"

lemma idle_ready: "connection_ready idle_client 7 demo"
proof -
  have b: "be_read idle_bev = 7" "be_write idle_bev = 8" "ev_fd (evs demo 7) = 7"
    by (simp_all add: idle_bev_def demo_bev_def demo_evs demo_event_def)
  have "bev_ok {7, 8} idle_bev" "flow idle_bev demo" "echo_room (demo_evbuffer []) idle_bev"
    by (simp_all add: bev_ok_def flow_def full_def echo_room_def copy_room_def idle_bev_def demo_bev_def demo_evbuffer_ok)
  then show ?thesis
    using demo_client b
    by (simp add: connection_ready_def idle_client_def demo_evbuffer_ok)
      (simp add: idle_bev_def demo_bev_def demo_evbuffer_ok BUFFERED_ON_READ_def BUFFERED_ON_WRITE_def BUFFERED_ON_ERROR_def flag_defs)
qed

theorem echo_stream_witness:
  "\<exists>c b s cl. echo_run demo_io (\<lambda>_. Some) {7, 8} 7 (idle_client, idle_bev, demo) (c, b, s) [7, 8, 9] [] cl \<and>
     contents (be_output b) = [7, 8, 9]"
proof -
  have b: "be_read idle_bev = 7" "be_write idle_bev = 8" "cl_buf_ev idle_client = Some idle_bev"
    by (simp_all add: idle_bev_def demo_bev_def idle_client_def)
  have small: "echo_small idle_client idle_bev"
    by (simp add: echo_small_def idle_client_def idle_bev_def demo_evbuffer_ok)
  have arr: "arrived demo_io 7 EV_READ (tick demo) idle_bev = [7, 8, 9]"
    by (simp add: arrived_def answer_def full_def asked_def idle_bev_def demo_bev_def demo_io_def evbuffer_read_size_def EVBUFFER_MAX_READ_def
        demo_evbuffer_ok int_of_size_small flag_defs)
  note start = echo_run.start [of demo_io "\<lambda>_. Some" "{7, 8}" 7 "(idle_client, idle_bev, demo)"]
  have mem: "\<forall>t n. os_alloc (os demo) t n" by (simp add: demo_defs)
  note E = echo_stream [OF idle_ready b(3) _ demo_bev_ok(4), unfolded b(1,2), where ucb = "\<lambda>_. Some"]
  obtain cl c b' s where step: "serve ops (\<lambda>_. Some) demo_io 7 True EV_READ (idle_client, idle_bev, demo) = Some (cl, c, b', s)"
    using E [OF _ start, of True EV_READ] small by auto
  have "echo_run demo_io (\<lambda>_. Some) {7, 8} 7 (idle_client, idle_bev, demo) (c, b', s) [7, 8, 9] [] cl"
    using echo_run.event [OF start small step] arr by simp
  moreover from this have "contents (be_output b') = [7, 8, 9]" using E mem by fastforce
  ultimately show ?thesis by blast
qed

end
