(* ===== verification/WorkqueueSpec.thy ===== *)
theory WorkqueueSpec
  imports Workqueue
begin

text \<open>
  What holds in every interleaving of the workers and the clients of the pool: at most one thread is in a critical section, no job is lost or
  run twice, and no wake-up is lost; and what a shutdown does: the worker that exits keeps the lock, and a freed worker may be accessed.
\<close>

subsection \<open>The lists as stacks\<close>

text \<open>\<open>LL_ADD\<close> does not set the link of the old head back to the new one, so every link backwards is null.\<close>

fun chain :: "links \<Rightarrow> nat option \<Rightarrow> nat list \<Rightarrow> bool" where
  "chain l p [] \<longleftrightarrow> p = None"
| "chain l p (x # xs) \<longleftrightarrow> p = Some x \<and> prev_of l x = None \<and> chain l (next_of l x) xs"

lemma chain_cong:
  "(\<And>x. x \<in> set xs \<Longrightarrow> prev_of l' x = prev_of l x \<and> next_of l' x = next_of l x) \<Longrightarrow> chain l' p xs = chain l p xs"
  by (induction xs arbitrary: p) auto

lemma LL_ADD_chain: "chain l p xs \<Longrightarrow> x \<notin> set xs \<Longrightarrow> LL_ADD x (p, l) = (p', l') \<Longrightarrow> chain l' p' (x # xs)"
proof -
  assume c: "chain l p xs" "x \<notin> set xs" "LL_ADD x (p, l) = (p', l')"
  then have l': "p' = Some x" "l' = l\<lparr>prev_of := (prev_of l)(x := None), next_of := (next_of l)(x := p)\<rparr>"
    by (simp_all add: LL_ADD_def)
  have "chain l' p xs = chain l p xs" by (rule chain_cong) (use c(2) in \<open>auto simp: l'\<close>)
  then show "chain l' p' (x # xs)" using c(1) by (simp add: l')
qed

lemma LL_REMOVE_chain:
  assumes "chain l p (x # xs)" and "distinct (x # xs)" and "LL_REMOVE x (p, l) = (p', l')"
  shows "chain l' p' xs"
proof -
  have ne: "next_of l x \<noteq> Some x" using assms(1,2) by (cases xs) auto
  have p': "p' = next_of l x" and l': "l' = (let l2 = (case next_of l x of None \<Rightarrow> l | Some n \<Rightarrow> l\<lparr>prev_of := (prev_of l)(n := None)\<rparr>)
      in l2\<lparr>prev_of := (prev_of l2)(x := None), next_of := (next_of l2)(x := None)\<rparr>)"
    using assms(1,3) by (auto simp: LL_REMOVE_def Let_def split: option.splits)
  have "prev_of l' y = prev_of l y \<and> next_of l' y = next_of l y" if "y \<in> set xs" for y
  proof -
    have "prev_of l y = None" using assms(1) that by (induction xs arbitrary: x p) auto
    then show ?thesis using that assms(2) by (auto simp: l' Let_def split: option.splits)
  qed
  then show ?thesis using assms(1) chain_cong [of xs l' l] by (simp add: p')
qed

subsection \<open>Who holds the lock\<close>

definition worker_holds :: "worker_pc \<Rightarrow> bool" where
  "worker_holds p \<longleftrightarrow> p = Testing \<or> p = Deciding \<or> (\<exists>j. p = Unlocking j) \<or> p = Exiting \<or> p = Exited"

definition client_holds :: "client_pc \<Rightarrow> bool" where
  "client_holds p \<longleftrightarrow> (\<exists>j. p = AddItem j) \<or> p = AddSignal \<or> p = AddUnlock \<or> p = ShutClear \<or> p = ShutUnlock"

definition mutex_ok :: "workqueue \<Rightarrow> bool" where
  "mutex_ok s \<longleftrightarrow> (\<forall>w\<in>set (created s). worker_holds (wpc s w) \<longleftrightarrow> jobs_mutex s = Some (Worker w)) \<and>
     (\<forall>w. jobs_mutex s = Some (Worker w) \<longrightarrow> w \<in> set (created s)) \<and>
     (\<forall>c. client_holds (cpc s c) \<longleftrightarrow> jobs_mutex s = Some (Client c))"

subsection \<open>Where a job is\<close>

datatype place = Calling nat | Queued | Taken nat | Done

fun in_call :: "client_pc \<Rightarrow> nat option" where
  "in_call (AddLock j) = Some j"
| "in_call (AddItem j) = Some j"
| "in_call _ = None"

fun in_hand :: "worker_pc \<Rightarrow> nat option" where
  "in_hand (Unlocking j) = j"
| "in_hand (Running j) = Some j"
| "in_hand _ = None"

fun at :: "workqueue \<Rightarrow> nat list \<Rightarrow> nat \<Rightarrow> place \<Rightarrow> bool" where
  "at s ws j (Calling c) \<longleftrightarrow> in_call (cpc s c) = Some j"
| "at s ws j Queued \<longleftrightarrow> j \<in> set ws"
| "at s ws j (Taken w) \<longleftrightarrow> w \<in> set (created s) \<and> in_hand (wpc s w) = Some j"
| "at s ws j Done \<longleftrightarrow> j \<in> set (executed s)"

definition jobs_ok :: "workqueue \<Rightarrow> nat list \<Rightarrow> bool" where
  "jobs_ok s ws \<longleftrightarrow> (\<forall>j p. at s ws j p \<longrightarrow> j \<in> set (called s)) \<and> (\<forall>j p q. at s ws j p \<longrightarrow> at s ws j q \<longrightarrow> p = q) \<and>
     (\<not> shut s \<longrightarrow> (\<forall>j\<in>set (called s). \<exists>p. at s ws j p)) \<and> distinct ws \<and> distinct (executed s) \<and> distinct (called s)"

lemma jobs_okD:
  assumes "jobs_ok s ws"
  shows "at s ws j p \<Longrightarrow> j \<in> set (called s)" "at s ws j p \<Longrightarrow> at s ws j q \<Longrightarrow> p = q"
    "\<not> shut s \<Longrightarrow> j \<in> set (called s) \<Longrightarrow> \<exists>p. at s ws j p" "distinct ws" "distinct (executed s)" "distinct (called s)"
  using assms unfolding jobs_ok_def by blast+

text \<open>A job moves from one place to another.\<close>

definition moves_job :: "workqueue \<Rightarrow> nat list \<Rightarrow> nat \<Rightarrow> place \<Rightarrow> place \<Rightarrow> workqueue \<Rightarrow> nat list \<Rightarrow> bool" where
  "moves_job s ws j p q s' ws' \<longleftrightarrow> at s ws j p \<and> (\<forall>i r. at s' ws' i r \<longleftrightarrow> (if i = j then r = q else at s ws i r)) \<and>
     called s' = called s \<and> shut s' = shut s"

lemma jobs_ok_move:
  assumes "jobs_ok s ws" and "moves_job s ws j p q s' ws'" and "distinct ws'" and "distinct (executed s')"
  shows "jobs_ok s' ws'"
  using assms unfolding jobs_ok_def moves_job_def by metis

lemma jobs_ok_stay:
  assumes "jobs_ok s ws" and "\<And>j p. at s' ws j p = at s ws j p" and "called s' = called s" and "shut s' = shut s" and "executed s' = executed s"
  shows "jobs_ok s' ws"
proof -
  have eq: "at s' ws = at s ws" by (intro ext) (rule assms(2))
  show ?thesis using assms(1) unfolding jobs_ok_def eq assms(3-5) .
qed

subsection \<open>The invariant\<close>

definition awake :: "workqueue \<Rightarrow> bool" where
  "awake s \<longleftrightarrow> (\<exists>w\<in>set (created s). wpc s w \<noteq> Waiting) \<or> (\<exists>c. cpc s c = AddSignal)"

definition wq_inv :: "workqueue \<Rightarrow> nat list \<Rightarrow> bool" where
  "wq_inv s ws \<longleftrightarrow> mutex_ok s \<and> chain (jlinks s) (waiting_jobs s) ws \<and> jobs_ok s ws \<and>
     (created s \<noteq> [] \<and> ws \<noteq> [] \<longrightarrow> awake s)"

lemma wq_invD:
  assumes "wq_inv s ws"
  shows "mutex_ok s" "chain (jlinks s) (waiting_jobs s) ws" "jobs_ok s ws" "created s \<noteq> [] \<Longrightarrow> ws \<noteq> [] \<Longrightarrow> awake s"
    "w \<in> set (created s) \<Longrightarrow> worker_holds (wpc s w) \<longleftrightarrow> jobs_mutex s = Some (Worker w)"
    "client_holds (cpc s c) \<longleftrightarrow> jobs_mutex s = Some (Client c)" "jobs_mutex s = Some (Worker w) \<Longrightarrow> w \<in> set (created s)"
  using assms by (simp_all add: wq_inv_def mutex_ok_def)

lemma at_set_wpc:
  "w \<in> set (created s) \<Longrightarrow> at (set_wpc w p s) ws j r \<longleftrightarrow> (if r = Taken w then in_hand p = Some j else at s ws j r)"
  by (cases r) (simp_all add: set_wpc_def)

lemma at_set_cpc:
  "at (set_cpc c p s) ws j r \<longleftrightarrow> (if r = Calling c then in_call p = Some j else at s ws j r)"
  by (cases r) (simp_all add: set_cpc_def)

lemma at_cong:
  "cpc s' = cpc s \<Longrightarrow> wpc s' = wpc s \<Longrightarrow> created s' = created s \<Longrightarrow> executed s' = executed s \<Longrightarrow> at s' ws j r = at s ws j r"
  by (cases r) simp_all

subsection \<open>Taking, keeping and releasing the lock\<close>

lemma mutex_worker:
  assumes "mutex_ok s" and "w \<in> set (created s)"
  shows "jobs_mutex s = None \<Longrightarrow> worker_holds p \<Longrightarrow> mutex_ok (set_wpc w p (s\<lparr>jobs_mutex := Some (Worker w)\<rparr>))"
    and "worker_holds p = worker_holds (wpc s w) \<Longrightarrow> mutex_ok (set_wpc w p s)"
    and "worker_holds (wpc s w) \<Longrightarrow> \<not> worker_holds p \<Longrightarrow> mutex_ok ((set_wpc w p s)\<lparr>jobs_mutex := None\<rparr>)"
  using assms by (auto simp: mutex_ok_def set_wpc_def)

lemma mutex_client:
  assumes "mutex_ok s"
  shows "jobs_mutex s = None \<Longrightarrow> client_holds p \<Longrightarrow> mutex_ok (set_cpc c p (s\<lparr>jobs_mutex := Some (Client c)\<rparr>))"
    and "client_holds p = client_holds (cpc s c) \<Longrightarrow> mutex_ok (set_cpc c p s)"
    and "client_holds (cpc s c) \<Longrightarrow> \<not> client_holds p \<Longrightarrow> mutex_ok ((set_cpc c p s)\<lparr>jobs_mutex := None\<rparr>)"
  using assms by (auto simp: mutex_ok_def set_cpc_def)

lemma mutex_ok_cong:
  "mutex_ok s \<Longrightarrow> jobs_mutex s' = jobs_mutex s \<Longrightarrow> created s' = created s \<Longrightarrow> cpc s' = cpc s \<Longrightarrow>
    (\<And>w. worker_holds (wpc s' w) = worker_holds (wpc s w)) \<Longrightarrow> mutex_ok s'"
  by (simp add: mutex_ok_def)

lemma holds_simps [simp]:
  "worker_holds Testing" "worker_holds Deciding" "worker_holds (Unlocking j)" "worker_holds Exiting" "worker_holds Exited"
  "\<not> worker_holds Locking" "\<not> worker_holds Waiting" "\<not> worker_holds Waking" "\<not> worker_holds (Running k)"
  "client_holds (AddItem k)" "client_holds AddSignal" "client_holds AddUnlock" "client_holds ShutClear" "client_holds ShutUnlock"
  "\<not> client_holds Idle" "\<not> client_holds (AddLock k)" "\<not> client_holds (ShutMark j)" "\<not> client_holds (ShutNext k)" "\<not> client_holds ShutLock"
  by (simp_all add: worker_holds_def client_holds_def)

lemma mutex_lock_Some: "mutex_lock t s = Some s' \<longleftrightarrow> jobs_mutex s = None \<and> s' = s\<lparr>jobs_mutex := Some t\<rparr>"
  by (auto simp: mutex_lock_def)

lemma awake_worker: "w \<in> set (created s) \<Longrightarrow> wpc s w \<noteq> Waiting \<Longrightarrow> awake s"
  by (auto simp: awake_def)

lemma awake_client:
  assumes "awake s" and "cpc s c \<noteq> AddSignal" and "cpc s' = (cpc s)(c := p)" and "wpc s' = wpc s" and "created s' = created s"
  shows "awake s'"
  using assms(1) unfolding awake_def assms(3-5) by (metis assms(2) fun_upd_other)

lemma awake_cong: "wpc s' = wpc s \<Longrightarrow> cpc s' = cpc s \<Longrightarrow> created s' = created s \<Longrightarrow> awake s' = awake s"
  by (simp add: awake_def)

lemma sel_set [simp]:
  "wpc (set_wpc w p s) = (wpc s)(w := p)" "cpc (set_wpc w p s) = cpc s" "created (set_wpc w p s) = created s"
  "jobs_mutex (set_wpc w p s) = jobs_mutex s" "waiting_jobs (set_wpc w p s) = waiting_jobs s" "jlinks (set_wpc w p s) = jlinks s"
  "called (set_wpc w p s) = called s" "executed (set_wpc w p s) = executed s" "shut (set_wpc w p s) = shut s"
  "terminate (set_wpc w p s) = terminate s" "workers (set_wpc w p s) = workers s" "wlinks (set_wpc w p s) = wlinks s"
  "dangling (set_wpc w p s) = dangling s"
  "wpc (set_cpc c q s) = wpc s" "cpc (set_cpc c q s) = (cpc s)(c := q)" "created (set_cpc c q s) = created s"
  "jobs_mutex (set_cpc c q s) = jobs_mutex s" "waiting_jobs (set_cpc c q s) = waiting_jobs s" "jlinks (set_cpc c q s) = jlinks s"
  "called (set_cpc c q s) = called s" "executed (set_cpc c q s) = executed s" "shut (set_cpc c q s) = shut s"
  "terminate (set_cpc c q s) = terminate s" "workers (set_cpc c q s) = workers s" "wlinks (set_cpc c q s) = wlinks s"
  "dangling (set_cpc c q s) = dangling s"
  by (simp_all add: set_wpc_def set_cpc_def)

subsection \<open>Every step keeps the invariant\<close>

text \<open>Steps that move no job and end with a worker awake.\<close>

lemma worker_keeps:
  assumes inv: "wq_inv s ws" and w: "w \<in> set (created s)" and m: "mutex_ok s'"
    and wpc: "wpc s' = (wpc s)(w := p)" and hand: "in_hand p = in_hand (wpc s w)" and p: "p \<noteq> Waiting \<or> ws = []"
    and same: "cpc s' = cpc s" "created s' = created s" "executed s' = executed s" "called s' = called s" "shut s' = shut s"
      "jlinks s' = jlinks s" "waiting_jobs s' = waiting_jobs s"
  shows "wq_inv s' ws"
proof -
  have "at s' ws j r = at s ws j r" for j r using hand by (cases r) (auto simp: wpc same)
  then have "jobs_ok s' ws" by (rule jobs_ok_stay [OF wq_invD(3) [OF inv]]) (simp_all add: same)
  moreover have "awake s'" if "ws \<noteq> []" by (rule awake_worker [of w]) (use w p that in \<open>simp_all add: same wpc\<close>)
  ultimately show ?thesis using m wq_invD(2) [OF inv] by (simp add: wq_inv_def same)
qed

text \<open>A worker takes the first job.\<close>

lemma worker_takes:
  assumes inv: "wq_inv s ws" and w: "w \<in> set (created s)" and pc: "wpc s w = Deciding" and job: "waiting_jobs s = Some job"
    and rem: "LL_REMOVE job (waiting_jobs s, jlinks s) = (list, l)"
  shows "wq_inv (set_wpc w (Unlocking (Some job)) (s\<lparr>waiting_jobs := list, jlinks := l\<rparr>)) (tl ws)"
proof -
  let ?s = "set_wpc w (Unlocking (Some job)) (s\<lparr>waiting_jobs := list, jlinks := l\<rparr>)"
  obtain ys where ws: "ws = job # ys" using wq_invD(2) [OF inv] job by (cases ws) auto
  note J = jobs_okD [OF wq_invD(3) [OF inv]]
  have dis: "distinct ws" by (rule J(4))
  have "mutex_ok (s\<lparr>waiting_jobs := list, jlinks := l\<rparr>)" by (rule mutex_ok_cong [OF wq_invD(1) [OF inv]]) simp_all
  then have "mutex_ok ?s" by (rule mutex_worker(2)) (simp_all add: w pc)
  moreover have "chain l list ys" using LL_REMOVE_chain [of "jlinks s" "waiting_jobs s" job ys list l] wq_invD(2) [OF inv] rem dis ws by simp
  moreover have "jobs_ok ?s ys"
  proof (rule jobs_ok_move [OF wq_invD(3) [OF inv]])
    have at: "at s ws job Queued" by (simp add: ws)
    have "at ?s ys i r = (if i = job then r = Taken w else at s ws i r)" for i r
      using J(2) [OF at, of r] dis pc w
      by (cases r) (auto simp: ws split: if_splits)
    then show "moves_job s ws job Queued (Taken w) ?s ys" using at by (simp add: moves_job_def)
  qed (use dis ws J(5) in simp_all)
  moreover have "awake ?s" by (rule awake_worker [of w]) (simp_all add: w)
  ultimately show ?thesis by (simp add: wq_inv_def ws)
qed

text \<open>A worker has run its job.\<close>

lemma worker_runs:
  assumes inv: "wq_inv s ws" and w: "w \<in> set (created s)" and pc: "wpc s w = Running job"
  shows "wq_inv ((set_wpc w Locking s)\<lparr>executed := executed s @ [job]\<rparr>) ws"
proof -
  let ?s = "(set_wpc w Locking s)\<lparr>executed := executed s @ [job]\<rparr>"
  note J = jobs_okD [OF wq_invD(3) [OF inv]]
  have at: "at s ws job (Taken w)" using w pc by simp
  have "mutex_ok (set_wpc w Locking s)" by (rule mutex_worker(2) [OF wq_invD(1) [OF inv] w]) (simp add: pc)
  then have "mutex_ok ?s" by (rule mutex_ok_cong) simp_all
  moreover have "jobs_ok ?s ws"
  proof (rule jobs_ok_move [OF wq_invD(3) [OF inv]])
    have "at ?s ws i r = (if i = job then r = Done else at s ws i r)" for i r
    proof (cases r)
      case (Taken v)
      have "at s ws job (Taken v) \<Longrightarrow> v = w" using J(2) [OF at, of "Taken v"] by blast
      then have "in_hand (wpc s v) = Some job \<Longrightarrow> v \<in> set (created s) \<Longrightarrow> v = w" by simp
      then show ?thesis using Taken pc by (cases "v = w") auto
    qed (use J(2) [OF at, of r] in auto)
    then show "moves_job s ws job (Taken w) Done ?s ws" using at by (simp add: moves_job_def)
    show "distinct (executed ?s)" using J(5) J(2) [OF at, of Done] by auto
  qed (rule J(4))
  moreover have "awake ?s" by (rule awake_worker [of w]) (simp_all add: w)
  ultimately show ?thesis using wq_invD(2) [OF inv] by (simp add: wq_inv_def)
qed

lemma worker_inv:
  assumes inv: "wq_inv s ws" and w: "w \<in> set (created s)" and step: "worker_step w s = Some s'"
  shows "\<exists>ws'. wq_inv s' ws'"
proof -
  note m = mutex_worker [OF wq_invD(1) [OF inv] w] and keep = worker_keeps [OF inv w]
  have none: "waiting_jobs s = None \<Longrightarrow> ws = []" using wq_invD(2) [OF inv] by (cases ws) auto
  show ?thesis
  proof (cases "wpc s w")
    case Locking
    then have "jobs_mutex s = None" "s' = set_wpc w Testing (s\<lparr>jobs_mutex := Some (Worker w)\<rparr>)"
      using step by (auto simp: worker_step_def mutex_lock_Some)
    then show ?thesis using keep [of s' Testing] m(1) [of Testing] Locking by auto
  next
    case Waking
    then have "jobs_mutex s = None" "s' = set_wpc w Testing (s\<lparr>jobs_mutex := Some (Worker w)\<rparr>)"
      using step by (auto simp: worker_step_def mutex_lock_Some)
    then show ?thesis using keep [of s' Testing] m(1) [of Testing] Waking by auto
  next
    case Testing
    show ?thesis
    proof (cases "waiting_jobs s = None \<and> \<not> terminate s w")
      case True
      then have "s' = (set_wpc w Waiting s)\<lparr>jobs_mutex := None\<rparr>" using step Testing by (simp add: worker_step_def)
      then show ?thesis using keep [of s' Waiting] m(3) [of Waiting] Testing none True by auto
    next
      case False
      then have "s' = set_wpc w Deciding s" using step Testing by (auto simp: worker_step_def)
      then show ?thesis using keep [of s' Deciding] m(2) [of Deciding] Testing by auto
    qed
  next
    case Deciding
    consider "s' = set_wpc w Exiting s" | "s' = set_wpc w (Unlocking None) s" | job list l where "waiting_jobs s = Some job"
      "LL_REMOVE job (waiting_jobs s, jlinks s) = (list, l)"
      "s' = set_wpc w (Unlocking (Some job)) (s\<lparr>waiting_jobs := list, jlinks := l\<rparr>)"
      using step Deciding by (auto simp: worker_step_def split: if_splits option.splits prod.splits)
    then show ?thesis
    proof cases
      case 1
      then show ?thesis using keep [of s' Exiting] m(2) [of Exiting] Deciding by auto
    next
      case 2
      then show ?thesis using keep [of s' "Unlocking None"] m(2) [of "Unlocking None"] Deciding by auto
    next
      case 3
      then show ?thesis using worker_takes [OF inv w Deciding] by blast
    qed
  next
    case (Unlocking job)
    let ?p = "case job of None \<Rightarrow> Locking | Some j \<Rightarrow> Running j"
    have s': "s' = (set_wpc w ?p s)\<lparr>jobs_mutex := None\<rparr>" using step Unlocking by (simp add: worker_step_def)
    have "\<not> worker_holds ?p" "in_hand ?p = in_hand (wpc s w)" "?p \<noteq> Waiting" by (auto simp: Unlocking split: option.split)
    then show ?thesis using keep [of s' ?p] m(3) [of ?p] Unlocking by (auto simp: s')
  next
    case (Running job)
    then show ?thesis using worker_runs [OF inv w Running] step by (auto simp: worker_step_def)
  next
    case Exiting
    then have "s' = set_wpc w Exited s" using step by (simp add: worker_step_def)
    then show ?thesis using keep [of s' Exited] m(2) [of Exited] Exiting by auto
  qed (use step in \<open>simp_all add: worker_step_def\<close>)
qed

text \<open>Steps of a client that move no job.\<close>

lemma client_keeps:
  assumes inv: "wq_inv s ws" and m: "mutex_ok s'" and cpc: "cpc s' = (cpc s)(c := p)" and call: "in_call p = in_call (cpc s c)"
    and pc: "cpc s c \<noteq> AddSignal"
    and same: "wpc s' = wpc s" "created s' = created s" "executed s' = executed s" "called s' = called s" "shut s' = shut s"
      "jlinks s' = jlinks s" "waiting_jobs s' = waiting_jobs s"
  shows "wq_inv s' ws"
proof -
  have "at s' ws j r = at s ws j r" for j r using call by (cases r) (auto simp: cpc same)
  then have "jobs_ok s' ws" by (rule jobs_ok_stay [OF wq_invD(3) [OF inv]]) (simp_all add: same)
  moreover have "awake s \<Longrightarrow> awake s'" by (rule awake_client [OF _ pc cpc same(1,2)])
  ultimately show ?thesis using m wq_invD(2,4) [OF inv] by (simp add: wq_inv_def same)
qed

lemma add_item_inv:
  assumes inv: "wq_inv s ws" and pc: "cpc s c = AddItem job" and add: "LL_ADD job (waiting_jobs s, jlinks s) = (list, l)"
  shows "wq_inv (set_cpc c AddSignal (s\<lparr>waiting_jobs := list, jlinks := l\<rparr>)) (job # ws)"
proof -
  let ?s = "set_cpc c AddSignal (s\<lparr>waiting_jobs := list, jlinks := l\<rparr>)"
  note J = jobs_okD [OF wq_invD(3) [OF inv]]
  have at: "at s ws job (Calling c)" by (simp add: pc)
  have new: "job \<notin> set ws" using J(2) [OF at, of Queued] by auto
  have "mutex_ok (s\<lparr>waiting_jobs := list, jlinks := l\<rparr>)" by (rule mutex_ok_cong [OF wq_invD(1) [OF inv]]) simp_all
  then have "mutex_ok ?s" by (rule mutex_client(2)) (simp add: pc)
  moreover have "chain l list (job # ws)" by (rule LL_ADD_chain [OF wq_invD(2) [OF inv] new add])
  moreover have "jobs_ok ?s (job # ws)"
  proof (rule jobs_ok_move [OF wq_invD(3) [OF inv]])
    have "at ?s (job # ws) i r = (if i = job then r = Queued else at s ws i r)" for i r
    proof (cases r)
      case (Calling d)
      have "at s ws job (Calling d) \<Longrightarrow> d = c" using J(2) [OF at, of "Calling d"] by blast
      then have "in_call (cpc s d) = Some job \<Longrightarrow> d = c" by simp
      then show ?thesis using Calling pc by (cases "d = c") auto
    qed (use J(2) [OF at, of r] in auto)
    then show "moves_job s ws job (Calling c) Queued ?s (job # ws)" using at by (simp add: moves_job_def)
  qed (use new J(4,5) in simp_all)
  moreover have "awake ?s" by (auto simp: awake_def)
  ultimately show ?thesis by (simp add: wq_inv_def)
qed

lemma add_signal_inv:
  assumes inv: "wq_inv s ws" and pc: "cpc s c = AddSignal" and sg: "cond_signal woken s = Some s1"
  shows "wq_inv (set_cpc c AddUnlock s1) ws"
proof -
  let ?s = "set_cpc c AddUnlock s1"
  have m: "mutex_ok (set_cpc c AddUnlock s)" by (rule mutex_client(2) [OF wq_invD(1) [OF inv]]) (simp add: pc)
  show ?thesis
  proof (cases woken)
    case None
    then have s1: "s1 = s" "\<forall>v\<in>set (created s). wpc s v \<noteq> Waiting" using sg by (auto simp: cond_signal_def list_all_iff split: if_splits)
    have "at ?s ws j r = at s ws j r" for j r by (cases r) (auto simp: s1 pc)
    then have "jobs_ok ?s ws" by (rule jobs_ok_stay [OF wq_invD(3) [OF inv]]) (simp_all add: s1)
    moreover have "awake ?s" if "created s \<noteq> []" using s1 that by (intro awake_worker [of "hd (created s)"]) simp_all
    ultimately show ?thesis using m wq_invD(2) [OF inv] by (simp add: wq_inv_def s1)
  next
    case (Some v)
    then have s1: "s1 = set_wpc v Waking s" "v \<in> set (created s)" "wpc s v = Waiting"
      using sg by (auto simp: cond_signal_def split: if_splits)
    have "at ?s ws j r = at s ws j r" for j r by (cases r) (auto simp: s1 pc)
    then have "jobs_ok ?s ws" by (rule jobs_ok_stay [OF wq_invD(3) [OF inv]]) (simp_all add: s1)
    moreover have "awake ?s" by (rule awake_worker [of v]) (simp_all add: s1)
    moreover have "mutex_ok ?s" by (rule mutex_ok_cong [OF m]) (auto simp: s1)
    ultimately show ?thesis using wq_invD(2) [OF inv] by (simp add: wq_inv_def s1)
  qed
qed

lemma add_job_inv:
  assumes inv: "wq_inv s ws" and step: "workqueue_add_job c woken s = Some s'"
  shows "\<exists>ws'. wq_inv s' ws'"
proof -
  note m = mutex_client [OF wq_invD(1) [OF inv]] and keep = client_keeps [OF inv]
  show ?thesis
  proof (cases "cpc s c")
    case (AddLock job)
    then have "jobs_mutex s = None" "s' = set_cpc c (AddItem job) (s\<lparr>jobs_mutex := Some (Client c)\<rparr>)"
      using step by (auto simp: workqueue_add_job_def mutex_lock_Some)
    then show ?thesis using keep [of s' c "AddItem job"] m(1) [of "AddItem job" c] AddLock by auto
  next
    case (AddItem job)
    then show ?thesis
      using add_item_inv [OF inv AddItem] step by (auto simp: workqueue_add_job_def split: prod.splits)
  next
    case AddSignal
    then show ?thesis using add_signal_inv [OF inv AddSignal] step by (auto simp: workqueue_add_job_def)
  next
    case AddUnlock
    then have "s' = (set_cpc c Idle s)\<lparr>jobs_mutex := None\<rparr>" using step by (simp add: workqueue_add_job_def)
    then show ?thesis using keep [of s' c Idle] m(3) [of c Idle] AddUnlock by auto
  qed (use step in \<open>simp_all add: workqueue_add_job_def\<close>)
qed

text \<open>The body of the critical section of the shutdown forgets the jobs that wait.\<close>

lemma shut_clear_inv:
  assumes inv: "wq_inv s ws" and pc: "cpc s c = ShutClear"
  shows "wq_inv (cond_broadcast (set_cpc c ShutUnlock (s\<lparr>workers := None, waiting_jobs := None, shut := True\<rparr>))) []"
proof -
  let ?s = "cond_broadcast (set_cpc c ShutUnlock (s\<lparr>workers := None, waiting_jobs := None, shut := True\<rparr>))"
  note J = jobs_okD [OF wq_invD(3) [OF inv]]
  have sel: "cpc ?s = (cpc s)(c := ShutUnlock)" "created ?s = created s" "called ?s = called s" "executed ?s = executed s" "shut ?s"
    "wpc ?s w = (if wpc s w = Waiting then Waking else wpc s w)" "jobs_mutex ?s = jobs_mutex s" "waiting_jobs ?s = None" for w
    by (simp_all add: cond_broadcast_def)
  have "mutex_ok (set_cpc c ShutUnlock s)" by (rule mutex_client(2) [OF wq_invD(1) [OF inv]]) (simp add: pc)
  then have "mutex_ok ?s" by (rule mutex_ok_cong) (auto simp: sel)
  moreover have at: "at s ws j r" if "at ?s [] j r" for j r
    using that by (cases r) (auto simp: sel split: if_splits)
  have "jobs_ok ?s []"
    unfolding jobs_ok_def using J at by (auto simp: sel(3-5)) blast+
  ultimately show ?thesis using sel(8) by (simp add: wq_inv_def)
qed

lemma shutdown_inv:
  assumes inv: "wq_inv s ws" and step: "workqueue_shutdown c s = Some s'"
  shows "\<exists>ws'. wq_inv s' ws'"
proof -
  note m = mutex_client [OF wq_invD(1) [OF inv]] and keep = client_keeps [OF inv]
  have silent: "\<exists>ws'. wq_inv s' ws'" if "mutex_ok (set_cpc c p s)" "jobs_mutex s' = jobs_mutex s" "cpc s' = (cpc s)(c := p)"
    "in_call p = in_call (cpc s c)" "cpc s c \<noteq> AddSignal" "wpc s' = wpc s" "created s' = created s" "executed s' = executed s"
    "called s' = called s" "shut s' = shut s" "jlinks s' = jlinks s" "waiting_jobs s' = waiting_jobs s" for p
    using keep [of s' c p] that mutex_ok_cong [OF that(1), of s'] by auto
  show ?thesis
  proof (cases "cpc s c")
    case (ShutMark q)
    then show ?thesis
      using step silent [of "case q of None \<Rightarrow> ShutLock | Some w \<Rightarrow> ShutNext w"] m(2) [of "case q of None \<Rightarrow> ShutLock | Some w \<Rightarrow> ShutNext w" c]
      by (auto simp: workqueue_shutdown_def touch_def split: option.splits)
  next
    case (ShutNext w)
    then show ?thesis
      using step silent [of "ShutMark (next_of (wlinks s) w)"] m(2) [of "ShutMark (next_of (wlinks s) w)" c]
      by (auto simp: workqueue_shutdown_def touch_def)
  next
    case ShutLock
    then have "jobs_mutex s = None" "s' = set_cpc c ShutClear (s\<lparr>jobs_mutex := Some (Client c)\<rparr>)"
      using step by (auto simp: workqueue_shutdown_def mutex_lock_Some)
    then show ?thesis using keep [of s' c ShutClear] m(1) [of ShutClear c] ShutLock by auto
  next
    case ShutClear
    then show ?thesis using shut_clear_inv [OF inv ShutClear] step by (auto simp: workqueue_shutdown_def)
  next
    case ShutUnlock
    then have "s' = (set_cpc c Idle s)\<lparr>jobs_mutex := None\<rparr>" using step by (simp add: workqueue_shutdown_def)
    then show ?thesis using keep [of s' c Idle] m(3) [of c Idle] ShutUnlock by auto
  qed (use step in \<open>simp_all add: workqueue_shutdown_def\<close>)
qed

lemma call_add_inv:
  assumes inv: "wq_inv s ws" and pc: "cpc s c = Idle" and new: "job \<notin> set (called s)"
  shows "wq_inv ((set_cpc c (AddLock job) s)\<lparr>called := called s @ [job]\<rparr>) ws"
proof -
  let ?s = "(set_cpc c (AddLock job) s)\<lparr>called := called s @ [job]\<rparr>"
  note J = jobs_okD [OF wq_invD(3) [OF inv]]
  have "mutex_ok (set_cpc c (AddLock job) s)" by (rule mutex_client(2) [OF wq_invD(1) [OF inv]]) (simp add: pc)
  then have "mutex_ok ?s" by (rule mutex_ok_cong) simp_all
  moreover have old: "\<not> at s ws job r" for r using J(1) [of job r] new by blast
  have at: "at ?s ws i r \<longleftrightarrow> (if i = job then r = Calling c else at s ws i r)" for i r
  proof (cases r)
    case (Calling d)
    then show ?thesis using old [of "Calling d"] pc by (cases "d = c") auto
  qed (use old [of r] in auto)
  have "jobs_ok ?s ws"
    unfolding jobs_ok_def at using J new by (auto split: if_splits) blast+
  moreover have "awake s \<Longrightarrow> awake ?s" by (rule awake_client [of s c ?s "AddLock job"]) (simp_all add: pc)
  ultimately show ?thesis using wq_invD(2,4) [OF inv] by (simp add: wq_inv_def)
qed

lemma wq_exec_inv:
  assumes inv: "wq_inv s ws" and step: "wq_exec ch s = Some s'"
  shows "\<exists>ws'. wq_inv s' ws'"
proof (cases ch)
  case (StepWorker w)
  then show ?thesis using step worker_inv [OF inv] by (auto simp: wq_exec_def split: if_splits)
next
  case (Spurious w)
  then have w: "w \<in> set (created s)" "wpc s w = Waiting" "s' = set_wpc w Waking s" using step by (auto simp: wq_exec_def split: if_splits)
  have "mutex_ok s'" unfolding w(3) by (rule mutex_worker(2) [OF wq_invD(1) [OF inv] w(1)]) (simp add: w(2))
  then show ?thesis using worker_keeps [OF inv w(1), of s' Waking] w by auto
next
  case (CallAdd c job)
  then show ?thesis using step call_add_inv [OF inv] by (auto simp: wq_exec_def split: if_splits)
next
  case (StepAdd c woken)
  then show ?thesis using step add_job_inv [OF inv] by (simp add: wq_exec_def)
next
  case (CallShutdown c)
  then have c: "cpc s c = Idle" "s' = set_cpc c (ShutMark (workers s)) s" using step by (auto simp: wq_exec_def split: if_splits)
  have "mutex_ok s'" unfolding c(2) by (rule mutex_client(2) [OF wq_invD(1) [OF inv]]) (simp add: c(1))
  then show ?thesis using client_keeps [OF inv, of s' c "ShutMark (workers s)"] c by auto
next
  case (StepShutdown c)
  then show ?thesis using step shutdown_inv [OF inv] by (simp add: wq_exec_def)
qed

subsection \<open>Reachable states\<close>

inductive wq_reach :: "workqueue \<Rightarrow> workqueue \<Rightarrow> bool" for s0 where
  start: "wq_reach s0 s0"
| step: "wq_reach s0 s \<Longrightarrow> wq_exec ch s = Some s' \<Longrightarrow> wq_reach s0 s'"

lemma wq_run_reach: "wq_run chs s = Some s' \<Longrightarrow> wq_reach s0 s \<Longrightarrow> wq_reach s0 s'"
  by (induction chs arbitrary: s) (auto intro: wq_reach.step simp: bind_eq_Some_conv)

lemma wq_reach_inv: "wq_reach s0 s \<Longrightarrow> wq_inv s0 ws \<Longrightarrow> \<exists>ws'. wq_inv s ws'"
  by (induction rule: wq_reach.induct) (auto dest: wq_exec_inv)

lemma wq_exec_created: "wq_exec ch s = Some s' \<Longrightarrow> created s' = created s"
  by (auto simp: wq_exec_def worker_step_def mutex_lock_Some workqueue_add_job_def workqueue_shutdown_def cond_signal_def
      cond_broadcast_def touch_def split: choice.splits if_splits worker_pc.splits client_pc.splits option.splits prod.splits)

lemma wq_reach_created: "wq_reach s0 s \<Longrightarrow> created s = created s0"
  by (induction rule: wq_reach.induct) (auto dest: wq_exec_created)

text \<open>The state that \<open>workqueue_init\<close> leaves.\<close>

lemma start_workers_inv:
  assumes "wq_inv s []" and "jobs_mutex s = None" and "called s = []"
  shows "wq_inv (snd (start_workers malloc create is s)) [] \<and>
    (fst (start_workers malloc create is s) = 0 \<longrightarrow> length (created (snd (start_workers malloc create is s))) = length (created s) + length is)"
  using assms
proof (induction "is" arbitrary: s)
  case Nil
  then show ?case by simp
next
  case (Cons i "is")
  show ?case
  proof (cases "malloc i = None \<or> \<not> create i")
    case True
    then show ?thesis using Cons.prems by (auto split: option.split)
  next
    case False
    then obtain w list l where w: "malloc i = Some w" "create i" "LL_ADD w (workers s, wlinks s) = (list, l)"
      by (metis not_None_eq prod.exhaust)
    let ?s = "(set_wpc w Locking s)\<lparr>terminate := (terminate s)(w := False), created := created s @ [w], workers := list, wlinks := l\<rparr>"
    have none: "\<not> at s [] j r" for j r using jobs_okD(1) [OF wq_invD(3) [OF Cons.prems(1)]] Cons.prems(3) by fastforce
    have "\<not> at ?s [] j r" for j r
    proof (cases r)
      case (Taken v)
      then show ?thesis using none [of j "Taken v"] by auto
    qed (use none [of j r] in auto)
    then have "jobs_ok ?s []" using Cons.prems(3) wq_invD(3) [OF Cons.prems(1)] by (simp add: jobs_ok_def)
    moreover have "mutex_ok ?s" using wq_invD(1) [OF Cons.prems(1)] Cons.prems(2) by (auto simp: mutex_ok_def)
    ultimately have "wq_inv ?s []" using wq_invD(2) [OF Cons.prems(1)] by (simp add: wq_inv_def)
    then show ?thesis using Cons.IH [of ?s] Cons.prems w by simp
  qed
qed

lemma blank_inv: "wq_inv blank_workqueue []"
proof -
  have "\<not> at blank_workqueue [] j r" for j r by (cases r) (simp_all add: blank_workqueue_def)
  then show ?thesis by (simp add: wq_inv_def mutex_ok_def jobs_ok_def) (simp add: blank_workqueue_def)
qed

lemma init_inv:
  assumes "workqueue_init malloc create n = (r, s0)"
  shows "wq_inv s0 []" and "r = 0 \<Longrightarrow> created s0 \<noteq> []"
proof -
  let ?is = "[0..<nat (if n < 1 then 1 else n)]"
  have init: "start_workers malloc create ?is blank_workqueue = (r, s0)" using assms by (simp add: workqueue_init_def)
  have b: "jobs_mutex blank_workqueue = None" "called blank_workqueue = []" by (simp_all add: blank_workqueue_def)
  note S = start_workers_inv [OF blank_inv b, of malloc create ?is, unfolded init]
  then show "wq_inv s0 []" by simp
  have "0 < length ?is" by simp
  then show "created s0 \<noteq> []" if "r = 0" using S that by auto
qed

subsection \<open>Progress\<close>

text \<open>The steps of the threads inside the pool's functions: no new call, no spurious wake-up.\<close>

fun internal :: "choice \<Rightarrow> bool" where
  "internal (StepWorker w) = True"
| "internal (StepAdd c woken) = True"
| "internal (StepShutdown c) = True"
| "internal _ = False"

lemma holder_moves:
  assumes inv: "wq_inv s ws" and t: "jobs_mutex s = Some t" and alive: "\<forall>w\<in>set (created s). wpc s w \<noteq> Exited"
  shows "\<exists>ch s'. internal ch \<and> wq_exec ch s = Some s'"
proof (cases t)
  case (Worker w)
  then have w: "w \<in> set (created s)" "worker_holds (wpc s w)" using wq_invD(5,7) [OF inv] t by auto
  then have "worker_step w s \<noteq> None" using alive by (auto simp: worker_holds_def worker_step_def)
  then show ?thesis using w(1) by (intro exI [of _ "StepWorker w"]) (simp add: wq_exec_def)
next
  case (Client c)
  then have c: "client_holds (cpc s c)" using wq_invD(6) [OF inv] t by simp
  show ?thesis
  proof (cases "cpc s c = AddSignal")
    case True
    obtain woken s1 where "cond_signal woken s = Some s1"
    proof (cases "\<exists>v\<in>set (created s). wpc s v = Waiting")
      case True
      then obtain v where "v \<in> set (created s)" "wpc s v = Waiting" by blast
      then show thesis using that [of "Some v"] by (simp add: cond_signal_def)
    next
      case False
      then show thesis using that [of None] by (simp add: cond_signal_def list_all_iff)
    qed
    then have "wq_exec (StepAdd c woken) s = Some (set_cpc c AddUnlock s1)" using True by (simp add: wq_exec_def workqueue_add_job_def)
    then show ?thesis using internal.simps(2) by blast
  next
    case False
    then have "workqueue_add_job c None s \<noteq> None \<or> workqueue_shutdown c s \<noteq> None"
      using c by (auto simp: client_holds_def workqueue_add_job_def workqueue_shutdown_def split: prod.split)
    then show ?thesis using internal.simps(2,3) by (fastforce simp: wq_exec_def)
  qed
qed

lemma worker_moves:
  assumes inv: "wq_inv s ws" and w: "w \<in> set (created s)" "wpc s w \<noteq> Waiting" and alive: "\<forall>w\<in>set (created s). wpc s w \<noteq> Exited"
  shows "\<exists>ch s'. internal ch \<and> wq_exec ch s = Some s'"
proof (cases "jobs_mutex s")
  case None
  then have "worker_step w s \<noteq> None" using w alive by (cases "wpc s w") (auto simp: worker_step_def mutex_lock_def)
  then show ?thesis using w(1) by (intro exI [of _ "StepWorker w"]) (simp add: wq_exec_def)
qed (rule holder_moves [OF inv _ alive])

subsection \<open>After a worker has exited\<close>

lemma exited_step:
  assumes inv: "wq_inv s ws" and w: "w \<in> set (created s)" "wpc s w = Exited" and step: "wq_exec ch s = Some s'"
  shows "wpc s' w = Exited" and "v \<in> set (created s) \<Longrightarrow> wpc s' v = Running j \<Longrightarrow> wpc s v = Running j"
    and "set (executed s') \<subseteq> set (executed s) \<union> {j. \<exists>v\<in>set (created s). wpc s v = Running j}"
proof -
  have m: "jobs_mutex s = Some (Worker w)" using wq_invD(5) [OF inv w(1)] w(2) by simp
  have no: "\<not> worker_holds (wpc s v)" if "v \<in> set (created s)" "v \<noteq> w" for v using wq_invD(5) [OF inv that(1)] m that(2) by simp
  have nc: "\<not> client_holds (cpc s c)" for c using wq_invD(6) [OF inv] m by simp
  have "wpc s' w = Exited \<and> (\<forall>v\<in>set (created s). \<forall>j. wpc s' v = Running j \<longrightarrow> wpc s v = Running j) \<and>
    set (executed s') \<subseteq> set (executed s) \<union> {j. \<exists>v\<in>set (created s). wpc s v = Running j}"
  proof (cases ch)
    case (StepWorker u)
    then have u: "u \<in> set (created s)" "worker_step u s = Some s'" using step by (auto simp: wq_exec_def split: if_splits)
    then have "u \<noteq> w" using w(2) by (auto simp: worker_step_def)
    then obtain j where "wpc s u = Running j" "s' = (set_wpc u Locking s)\<lparr>executed := executed s @ [j]\<rparr>"
      using no [OF u(1)] u(2) m by (cases "wpc s u") (auto simp: worker_step_def mutex_lock_def)
    then show ?thesis using u(1) \<open>u \<noteq> w\<close> w(2) by auto
  next
    case (StepAdd c woken)
    then have "workqueue_add_job c woken s = Some s'" using step by (simp add: wq_exec_def)
    then show ?thesis using nc [of c] m by (cases "cpc s c") (auto simp: workqueue_add_job_def mutex_lock_def)
  next
    case (StepShutdown c)
    then have "workqueue_shutdown c s = Some s'" using step by (simp add: wq_exec_def)
    then show ?thesis using nc [of c] m w(2)
      by (cases "cpc s c") (auto simp: workqueue_shutdown_def mutex_lock_def touch_def split: option.splits)
  qed (use step w(2) in \<open>auto simp: wq_exec_def split: if_splits\<close>)
  then show "wpc s' w = Exited" "v \<in> set (created s) \<Longrightarrow> wpc s' v = Running j \<Longrightarrow> wpc s v = Running j"
    "set (executed s') \<subseteq> set (executed s) \<union> {j. \<exists>v\<in>set (created s). wpc s v = Running j}" by blast+
qed

lemma exited_reach:
  assumes "wq_reach s s'" and "wq_inv s ws" and "w \<in> set (created s)" and "wpc s w = Exited"
  shows "wpc s' w = Exited \<and> (\<forall>v\<in>set (created s). \<forall>j. wpc s' v = Running j \<longrightarrow> wpc s v = Running j) \<and>
    set (executed s') \<subseteq> set (executed s) \<union> {j. \<exists>v\<in>set (created s). wpc s v = Running j}"
  using assms(1)
proof (induction rule: wq_reach.induct)
  case start
  then show ?case using assms(4) by blast
next
  case (step t ch t')
  obtain ws' where inv: "wq_inv t ws'" using wq_reach_inv [OF step.hyps(1) assms(2)] by blast
  have c: "created t = created s" by (rule wq_reach_created [OF step.hyps(1)])
  then have w: "w \<in> set (created t)" "wpc t w = Exited" using step.IH assms(3) by simp_all
  note E = exited_step [OF inv w step.hyps(2), unfolded c]
  show ?case using E step.IH by fast
qed

subsection \<open>Properties\<close>

text \<open>
  C35. In every interleaving of any number of workers and clients, spurious wake-ups included: at most one thread is in a critical section, and it is
  the owner of the mutex; no job is executed twice, and only jobs that were added are; until a shutdown empties the list, every added job is in
  exactly one place: in the hands of its caller, in the list, in the hands of one worker, or executed.
\<close>

theorem workqueue_safe:
  assumes init: "workqueue_init malloc create n = (r, s0)" and reach: "wq_reach s0 s"
  shows "\<exists>ws. chain (jlinks s) (waiting_jobs s) ws \<and> distinct ws \<and>
    (\<forall>v\<in>set (created s). \<forall>w\<in>set (created s). worker_holds (wpc s v) \<and> worker_holds (wpc s w) \<longrightarrow> v = w) \<and>
    (\<forall>c d. client_holds (cpc s c) \<and> client_holds (cpc s d) \<longrightarrow> c = d) \<and>
    (\<forall>v\<in>set (created s). \<forall>c. \<not> (worker_holds (wpc s v) \<and> client_holds (cpc s c))) \<and>
    distinct (executed s) \<and> set (executed s) \<subseteq> set (called s) \<and>
    (\<not> shut s \<longrightarrow> (\<forall>j\<in>set (called s). \<exists>!p. at s ws j p))"
proof -
  obtain ws where inv: "wq_inv s ws" using wq_reach_inv [OF reach init_inv(1) [OF init]] by blast
  note J = jobs_okD [OF wq_invD(3) [OF inv]]
  have "set (executed s) \<subseteq> set (called s)" using J(1) [of _ Done] by auto
  moreover have "\<exists>!p. at s ws j p" if "\<not> shut s" "j \<in> set (called s)" for j using J(2,3) that by blast
  moreover have "\<forall>v\<in>set (created s). \<forall>w\<in>set (created s). worker_holds (wpc s v) \<and> worker_holds (wpc s w) \<longrightarrow> v = w"
    using wq_invD(5) [OF inv] by (metis option.inject thread.inject(1))
  moreover have "\<forall>c d. client_holds (cpc s c) \<and> client_holds (cpc s d) \<longrightarrow> c = d"
    using wq_invD(6) [OF inv] by (metis option.inject thread.inject(2))
  moreover have "\<forall>v\<in>set (created s). \<forall>c. \<not> (worker_holds (wpc s v) \<and> client_holds (cpc s c))"
    using wq_invD(5,6) [OF inv] by (metis option.inject thread.distinct(1))
  ultimately show ?thesis using wq_invD(2) [OF inv] J(4,5) by (intro exI [of _ ws] conjI) blast+
qed

definition demo_pool :: workqueue where
  "demo_pool = snd (workqueue_init (\<lambda>i. Some (i + 1)) (\<lambda>_. True) 2)"

lemma demo_pool_init: "workqueue_init (\<lambda>i. Some (i + 1)) (\<lambda>_. True) 2 = (0, demo_pool)"
  by (simp add: demo_pool_def workqueue_init_def upt_rec LL_ADD_def blank_workqueue_def)

lemmas pool_eval = demo_pool_def workqueue_init_def upt_rec LL_ADD_def LL_REMOVE_def blank_workqueue_def wq_exec_def worker_step_def mutex_lock_def
  workqueue_add_job_def workqueue_shutdown_def cond_signal_def cond_broadcast_def touch_def set_wpc_def set_cpc_def

definition demo_schedule :: "choice list" where
  "demo_schedule = [CallAdd 0 5, StepAdd 0 None, StepAdd 0 None, StepAdd 0 None, StepAdd 0 None,
     StepWorker 1, StepWorker 1, StepWorker 1, StepWorker 1, StepWorker 1]"

lemma demo_schedule_runs:
  obtains s where "wq_run demo_schedule demo_pool = Some s" and "executed s = [5]" and "called s = [5]" and "\<not> shut s"
  by (simp add: demo_schedule_def pool_eval)

theorem workqueue_safe_witness:
  "\<exists>s. wq_reach demo_pool s \<and> executed s = [5] \<and> set (executed s) \<subseteq> set (called s)"
proof -
  obtain s where s: "wq_run demo_schedule demo_pool = Some s" "executed s = [5]" by (rule demo_schedule_runs)
  have "wq_reach demo_pool s" by (rule wq_run_reach [OF s(1) wq_reach.start])
  then show ?thesis using workqueue_safe [OF demo_pool_init, of s] s(2) by blast
qed

text \<open>
  C37. A worker that is told to terminate exits with the mutex locked, and it stays locked for ever: from then on no other worker exits, none takes a
  job, no client gets into a critical section, and the only jobs still executed are those whose functions were already running.
\<close>

theorem worker_exit_keeps_lock:
  assumes init: "workqueue_init malloc create n = (r, s0)" and reach: "wq_reach s0 s" and w: "w \<in> set (created s)" "wpc s w = Exited"
    and later: "wq_reach s s'"
  shows "jobs_mutex s' = Some (Worker w) \<and> (\<forall>v\<in>set (created s'). v \<noteq> w \<longrightarrow> wpc s' v \<noteq> Exited) \<and> (\<forall>c. \<not> client_holds (cpc s' c)) \<and>
    set (executed s') \<subseteq> set (executed s) \<union> {j. \<exists>v\<in>set (created s). wpc s v = Running j}"
proof -
  obtain ws where inv: "wq_inv s ws" using wq_reach_inv [OF reach init_inv(1) [OF init]] by blast
  obtain ws' where inv': "wq_inv s' ws'" using wq_reach_inv [OF later inv] by blast
  have c: "created s' = created s" by (rule wq_reach_created [OF later])
  note E = exited_reach [OF later inv w]
  have m: "jobs_mutex s' = Some (Worker w)" using wq_invD(5) [OF inv', of w] E w(1) c by simp
  moreover have "wpc s' v \<noteq> Exited" if "v \<in> set (created s')" "v \<noteq> w" for v
    using wq_invD(5) [OF inv' that(1)] m that(2) by auto
  moreover have "\<not> client_holds (cpc s' c)" for c using wq_invD(6) [OF inv', of c] m by simp
  ultimately show ?thesis using E by blast
qed

text \<open>A shutdown of the pool during which the worker 2 exits.\<close>

definition demo_shutdown :: "choice list" where
  "demo_shutdown = [CallShutdown 0, StepShutdown 0, StepWorker 2, StepWorker 2, StepWorker 2, StepWorker 2]"

lemma demo_shutdown_runs:
  obtains s where "wq_run demo_shutdown demo_pool = Some s" and "wpc s 2 = Exited" and "created s = [1, 2]" and "cpc s 0 = ShutNext 2"
    and "wpc s 1 = Locking"
  by (simp add: demo_shutdown_def pool_eval)

theorem worker_exit_keeps_lock_witness:
  "\<exists>s. wq_reach demo_pool s \<and> wpc s 1 = Locking \<and> (\<forall>s'. wq_reach s s' \<longrightarrow> jobs_mutex s' = Some (Worker 2) \<and> wpc s' 1 \<noteq> Exited)"
proof -
  obtain s where s: "wq_run demo_shutdown demo_pool = Some s" "wpc s 2 = Exited" "created s = [1, 2]" "wpc s 1 = Locking"
    by (rule demo_shutdown_runs)
  have reach: "wq_reach demo_pool s" by (rule wq_run_reach [OF s(1) wq_reach.start])
  have "jobs_mutex s' = Some (Worker 2) \<and> wpc s' 1 \<noteq> Exited" if "wq_reach s s'" for s'
    using worker_exit_keeps_lock [OF demo_pool_init reach _ s(2) that] s(3) wq_reach_created [OF that] by auto
  then show ?thesis using reach s(4) by blast
qed

text \<open>
  \<open>workqueue_shutdown\<close> sets \<open>terminate\<close> before it has read \<open>worker->next\<close>: a worker that is awake may be freed in between. The
  program here has accessed a freed worker.
\<close>

theorem shutdown_reads_freed_worker:
  "\<exists>s. wq_reach demo_pool s \<and> dangling s"
proof -
  have "\<exists>s. wq_run (demo_shutdown @ [StepShutdown 0]) demo_pool = Some s \<and> dangling s"
    by (simp add: demo_shutdown_def pool_eval)
  then show ?thesis using wq_run_reach [OF _ wq_reach.start] by blast
qed

text \<open>
  The list is a stack: of two jobs that wait, the one added last is taken first.
\<close>

theorem jobs_taken_newest_first:
  "\<exists>s. wq_run [CallAdd 0 5, StepAdd 0 None, StepAdd 0 None, StepAdd 0 None, StepAdd 0 None,
      CallAdd 0 6, StepAdd 0 None, StepAdd 0 None, StepAdd 0 None, StepAdd 0 None,
      StepWorker 1, StepWorker 1, StepWorker 1, StepWorker 1, StepWorker 1,
      StepWorker 2, StepWorker 2, StepWorker 2, StepWorker 2, StepWorker 2] demo_pool = Some s \<and> executed s = [6, 5]"
  by (simp add: pool_eval)

text \<open>\<open>LL_ADD\<close> leaves the back link of the old head null, so \<open>LL_REMOVE\<close> of a node that is not the head does not unlink it.\<close>

theorem LL_REMOVE_inner_stays:
  assumes "l0 = \<lparr>prev_of = (\<lambda>_. None), next_of = (\<lambda>_. None)\<rparr>"
  shows "next_of (snd (LL_REMOVE 1 (LL_ADD 2 (LL_ADD 1 (None, l0))))) 2 = Some 1"
  by (simp add: assms LL_ADD_def LL_REMOVE_def Let_def)

end
