(* ===== verification/WorkqueueLive.thy ===== *)
theory WorkqueueLive
  imports WorkqueueSpec
begin

text \<open>
  Liveness of the worker pool as long as nobody shuts it down. Every step of a thread inside the pool's functions uses up
  some of the work that is left, whichever thread is scheduled, and only a call from outside or a spurious wake-up makes new work; where no thread can
  move, nothing is left to do.
\<close>

subsection \<open>The work that is left\<close>

text \<open>
  Each step of a worker or of a client in \<open>workqueue_add_job\<close> lowers its share, if a waiting job counts 5, the steps of the worker that
  takes it.
\<close>

fun worker_work :: "worker_pc \<Rightarrow> nat" where
  "worker_work (Unlocking j) = 4"
| "worker_work (Running j) = 3"
| "worker_work Locking = 2"
| "worker_work Waking = 2"
| "worker_work Testing = 1"
| "worker_work _ = 0"

fun client_work :: "client_pc \<Rightarrow> nat" where
  "client_work (AddLock j) = 11"
| "client_work (AddItem j) = 10"
| "client_work AddSignal = 4"
| "client_work AddUnlock = 1"
| "client_work _ = 0"

definition work :: "nat set \<Rightarrow> workqueue \<Rightarrow> nat list \<Rightarrow> nat" where
  "work C s ws = (\<Sum>w\<in>set (created s). worker_work (wpc s w)) + (\<Sum>c\<in>C. client_work (cpc s c)) + 5 * length ws"

text \<open>What a choice may add to it.\<close>

fun cost :: "choice \<Rightarrow> nat" where
  "cost (Spurious w) = 2"
| "cost (CallAdd c j) = 11"
| "cost _ = 0"

lemma sum_fun_upd:
  fixes f :: "'v \<Rightarrow> nat"
  assumes "finite A" and "a \<in> A"
  shows "(\<Sum>x\<in>A. f ((g(a := v)) x)) + f (g a) = (\<Sum>x\<in>A. f (g x)) + f v"
proof -
  have "(\<Sum>x\<in>A - {a}. f ((g(a := v)) x)) = (\<Sum>x\<in>A - {a}. f (g x))" by (rule sum.cong) auto
  then show ?thesis using sum.remove [OF assms, of "\<lambda>x. f (g x)"] sum.remove [OF assms, of "\<lambda>x. f ((g(a := v)) x)"] by simp
qed

lemma chain_unique: "chain l p xs \<Longrightarrow> chain l p ys \<Longrightarrow> xs = ys"
proof (induction xs arbitrary: p ys)
  case Nil
  then show ?case by (cases ys) simp_all
next
  case (Cons x xs)
  then show ?case by (cases ys) auto
qed

subsection \<open>A pool that nobody shuts down\<close>

fun adding :: "client_pc \<Rightarrow> bool" where
  "adding Idle = True"
| "adding (AddLock j) = True"
| "adding (AddItem j) = True"
| "adding AddSignal = True"
| "adding AddUnlock = True"
| "adding _ = False"

text \<open>\<open>C\<close> holds the clients that have called; a worker at the decision has seen a job.\<close>

definition in_service :: "nat set \<Rightarrow> workqueue \<Rightarrow> bool" where
  "in_service C s \<longleftrightarrow> finite C \<and> \<not> shut s \<and> (\<forall>c. adding (cpc s c) \<and> (c \<notin> C \<longrightarrow> cpc s c = Idle)) \<and> (\<forall>w. \<not> terminate s w) \<and>
     (\<forall>w\<in>set (created s). wpc s w \<noteq> Exiting \<and> wpc s w \<noteq> Exited \<and> wpc s w \<noteq> Unlocking None \<and>
       (wpc s w = Deciding \<longrightarrow> waiting_jobs s \<noteq> None))"

lemma in_serviceD:
  assumes "in_service C s"
  shows "finite C" "\<not> shut s" "adding (cpc s c)" "cpc s c \<noteq> Idle \<Longrightarrow> c \<in> C" "\<not> terminate s w"
    "w \<in> set (created s) \<Longrightarrow> wpc s w \<noteq> Exiting" "w \<in> set (created s) \<Longrightarrow> wpc s w \<noteq> Exited"
    "w \<in> set (created s) \<Longrightarrow> wpc s w \<noteq> Unlocking None" "w \<in> set (created s) \<Longrightarrow> wpc s w = Deciding \<Longrightarrow> waiting_jobs s \<noteq> None"
  using assms unfolding in_service_def by blast+

lemma in_service_upd:
  assumes ok: "in_service C s" and s': "shut s' = shut s" "terminate s' = terminate s" "created s' = created s"
    and c: "\<And>c. cpc s' c = cpc s c \<or> adding (cpc s' c) \<and> c \<in> C"
    and w: "\<And>w. w \<in> set (created s) \<Longrightarrow> wpc s' w = wpc s w \<or>
      wpc s' w \<noteq> Exiting \<and> wpc s' w \<noteq> Exited \<and> wpc s' w \<noteq> Unlocking None"
    and d: "\<And>w. w \<in> set (created s) \<Longrightarrow> wpc s' w = Deciding \<Longrightarrow> waiting_jobs s' \<noteq> None"
  shows "in_service C s'"
  unfolding in_service_def s'
proof (intro conjI allI ballI impI)
  note D = in_serviceD [OF ok]
  show "finite C" "\<not> shut s" "\<not> terminate s w" for w using D by blast+
  show "adding (cpc s' x)" "x \<notin> C \<Longrightarrow> cpc s' x = Idle" for x using c [of x] D(3,4) [of x] by auto
  fix x assume x: "x \<in> set (created s)"
  show "wpc s' x \<noteq> Exiting" "wpc s' x \<noteq> Exited" "wpc s' x \<noteq> Unlocking None" using w [OF x] D(6-8) [OF x] by metis+
  show "waiting_jobs s' \<noteq> None" if "wpc s' x = Deciding" using d [OF x that] .
qed

text \<open>A step of a worker: its counter moves on, and it may take the first job.\<close>

lemma work_worker:
  assumes "w \<in> set (created s)" and "wpc s' = (wpc s)(w := p)" and "cpc s' = cpc s" and "created s' = created s"
  shows "work C s' ws' + worker_work (wpc s w) + 5 * length ws = work C s ws + worker_work p + 5 * length ws'"
  using sum_fun_upd [of "set (created s)" w worker_work "wpc s" p] assms by (simp add: work_def)

lemma work_client:
  assumes "finite C" and "c \<in> C" and "cpc s' = (cpc s)(c := p)" and "wpc s' = wpc s" and "created s' = created s"
  shows "work C s' ws' + client_work (cpc s c) + 5 * length ws = work C s ws + client_work p + 5 * length ws'"
  using sum_fun_upd [of C c client_work "cpc s" p] assms by (simp add: work_def)

lemma one_decides:
  assumes "wq_inv s ws" and "v \<in> set (created s)" and "wpc s v = Deciding" and "jobs_mutex s = Some t"
  shows "t = Worker v"
  using wq_invD(5) [OF assms(1,2)] assms(3,4) by simp

lemma worker_serves:
  assumes inv: "wq_inv s ws" and ok: "in_service C s" and w: "w \<in> set (created s)" and step: "worker_step w s = Some s'"
    and inv': "wq_inv s' ws'"
  shows "in_service C s' \<and> work C s' ws' + 1 \<le> work C s ws"
proof -
  note D = in_serviceD [OF ok]
  note chain = wq_invD(2) [OF inv] wq_invD(2) [OF inv']
  have stay: "ws' = ws" if "jlinks s' = jlinks s" "waiting_jobs s' = waiting_jobs s" using chain that chain_unique by simp
  have moved: ?thesis if m: "wpc s' = (wpc s)(w := p)" "worker_work p < worker_work (wpc s w)" "p \<noteq> Unlocking None \<and> p \<noteq> Exiting \<and> p \<noteq> Exited"
      "p = Deciding \<longrightarrow> waiting_jobs s \<noteq> None"
    and same: "cpc s' = cpc s" "created s' = created s" "terminate s' = terminate s" "shut s' = shut s" "jlinks s' = jlinks s"
      "waiting_jobs s' = waiting_jobs s" for p
  proof
    show "in_service C s'"
      by (rule in_service_upd [OF ok same(4,3,2)]) (use m same D(9) in \<open>auto split: if_splits\<close>)
    show "work C s' ws' + 1 \<le> work C s ws"
      using work_worker [OF w m(1) same(1,2), of C ws' ws] stay [OF same(5,6)] m(2) by simp
  qed
  show ?thesis
  proof (cases "wpc s w")
    case Deciding
    then obtain job where job: "waiting_jobs s = Some job" using D(9) [OF w] by blast
    obtain list l where rem: "LL_REMOVE job (waiting_jobs s, jlinks s) = (list, l)" by fastforce
    have s': "s' = set_wpc w (Unlocking (Some job)) (s\<lparr>waiting_jobs := list, jlinks := l\<rparr>)"
      using step Deciding D(5) rem by (simp add: worker_step_def job)
    have "wq_inv s' (tl ws)" unfolding s' by (rule worker_takes [OF inv w Deciding job rem])
    then have "ws' = tl ws" using chain(2) chain_unique wq_invD(2) by blast
    moreover have "ws \<noteq> []" using wq_invD(2) [OF inv] job by auto
    ultimately have len: "length ws = Suc (length ws')" by simp
    have "in_service C s'"
    proof (rule in_service_upd [OF ok])
      fix v assume v: "v \<in> set (created s)" "wpc s' v = Deciding"
      then have "v \<noteq> w" "wpc s v = Deciding" by (auto simp: s' split: if_splits)
      then have False using one_decides [OF inv v(1), of "Worker w"] wq_invD(5) [OF inv w] Deciding by simp
      then show "waiting_jobs s' \<noteq> None" ..
    qed (simp_all add: s')
    moreover have "work C s' ws' + 1 \<le> work C s ws"
      using work_worker [OF w, of s' "Unlocking (Some job)" C ws' ws] len by (simp add: s' Deciding)
    ultimately show ?thesis ..
  next
    case Testing
    then have "s' = (if waiting_jobs s = None then (set_wpc w Waiting s)\<lparr>jobs_mutex := None\<rparr> else set_wpc w Deciding s)"
      using step D(5) by (simp add: worker_step_def split: if_splits)
    then show ?thesis
      using moved [of Waiting] moved [of Deciding] by (cases "waiting_jobs s") (simp_all add: Testing)
  next
    case (Unlocking j)
    then obtain k where "j = Some k" using D(8) [OF w] by (cases j) auto
    then have "s' = (set_wpc w (Running k) s)\<lparr>jobs_mutex := None\<rparr>" using step Unlocking by (simp add: worker_step_def)
    then show ?thesis using moved [of "Running k"] by (simp add: Unlocking)
  next
    case (Running k)
    then show ?thesis using step moved [of Locking] by (auto simp: worker_step_def)
  qed (use step D(6,7) [OF w] moved [of Testing] in \<open>auto simp: worker_step_def mutex_lock_Some\<close>)
qed

text \<open>A step of a client that adds a job: the job enters the list, a worker may wake up.\<close>

lemma client_serves:
  assumes inv: "wq_inv s ws" and ok: "in_service C s" and step: "workqueue_add_job c woken s = Some s'" and inv': "wq_inv s' ws'"
  shows "in_service C s' \<and> work C s' ws' + 1 \<le> work C s ws"
proof -
  note D = in_serviceD [OF ok]
  have c: "c \<in> C" using D(4) [of c] step by (cases "cpc s c") (auto simp: workqueue_add_job_def)
  note chain = wq_invD(2) [OF inv] wq_invD(2) [OF inv']
  have stay: "ws' = ws" if "jlinks s' = jlinks s" "waiting_jobs s' = waiting_jobs s" using chain that chain_unique by simp
  have moved: ?thesis if m: "cpc s' = (cpc s)(c := p)" "client_work p < client_work (cpc s c)" "adding p"
    and same: "wpc s' = wpc s" "created s' = created s" "terminate s' = terminate s" "shut s' = shut s" "jlinks s' = jlinks s"
      "waiting_jobs s' = waiting_jobs s" for p
  proof
    show "in_service C s'"
      by (rule in_service_upd [OF ok same(4,3,2)]) (use m same c D(9) in auto)
    show "work C s' ws' + 1 \<le> work C s ws"
      using work_client [OF D(1) c m(1) same(1,2), of ws' ws] stay [OF same(5,6)] m(2) by simp
  qed
  show ?thesis
  proof (cases "cpc s c")
    case (AddItem job)
    obtain list l where add: "LL_ADD job (waiting_jobs s, jlinks s) = (list, l)" by fastforce
    have s': "s' = set_cpc c AddSignal (s\<lparr>waiting_jobs := list, jlinks := l\<rparr>)"
      using step AddItem add by (simp add: workqueue_add_job_def)
    have "at s ws job (Calling c)" by (simp add: AddItem)
    then have "\<not> at s ws job Queued" using jobs_okD(2) [OF wq_invD(3) [OF inv]] by blast
    then have "chain (jlinks s') (waiting_jobs s') (job # ws)" using LL_ADD_chain [OF chain(1) _ add] by (simp add: s')
    then have "ws' = job # ws" by (rule chain_unique [OF chain(2)])
    then have len: "length ws' = Suc (length ws)" by simp
    have list: "list = Some job" using add by (simp add: LL_ADD_def)
    have "in_service C s'" by (rule in_service_upd [OF ok]) (simp_all add: s' list c)
    moreover have "work C s' ws' + 1 \<le> work C s ws"
      using work_client [OF D(1) c, of s' s AddSignal ws' ws] len by (simp add: s' AddItem)
    ultimately show ?thesis ..
  next
    case AddSignal
    show ?thesis
    proof (cases woken)
      case None
      then have "s' = set_cpc c AddUnlock s" using step AddSignal by (auto simp: workqueue_add_job_def cond_signal_def split: if_splits)
      then show ?thesis using moved [of AddUnlock] by (simp add: AddSignal)
    next
      case (Some v)
      then have v: "v \<in> set (created s)" "wpc s v = Waiting" and s': "s' = set_cpc c AddUnlock (set_wpc v Waking s)"
        using step AddSignal by (auto simp: workqueue_add_job_def cond_signal_def split: if_splits)
      let ?s1 = "set_wpc v Waking s"
      have "work C s' ws' + 4 + 5 * length ws' = work C ?s1 ws' + 1 + 5 * length ws'"
        using work_client [OF D(1) c, of s' ?s1 AddUnlock ws' ws'] by (simp add: s' AddSignal)
      moreover have "work C ?s1 ws' + 5 * length ws = work C s ws + 2 + 5 * length ws'"
        using work_worker [OF v(1), of ?s1 Waking C ws' ws] v(2) by simp
      ultimately have "work C s' ws' + 1 \<le> work C s ws" using stay by (simp add: s')
      moreover have "in_service C s'"
        by (rule in_service_upd [OF ok]) (use c D(9) in \<open>auto simp: s' split: if_splits\<close>)
      ultimately show ?thesis by blast
    qed
  next
    case (AddLock job)
    then show ?thesis using step moved [of "AddItem job"] by (auto simp: workqueue_add_job_def mutex_lock_Some)
  next
    case AddUnlock
    then show ?thesis using step moved [of Idle] by (auto simp: workqueue_add_job_def)
  qed (use step in \<open>auto simp: workqueue_add_job_def\<close>)
qed

text \<open>Any step but the call of a shutdown.\<close>

fun caller :: "choice \<Rightarrow> nat set" where
  "caller (CallAdd c j) = {c}"
| "caller _ = {}"

lemma step_serves:
  assumes inv: "wq_inv s ws" and ok: "in_service C s" and step: "wq_exec ch s = Some s'" and inv': "wq_inv s' ws'"
    and no: "\<nexists>c. ch = CallShutdown c" and C: "caller ch \<subseteq> C"
  shows "in_service C s' \<and> work C s' ws' + (if internal ch then 1 else 0) \<le> work C s ws + cost ch"
proof (cases ch)
  case (StepWorker w)
  then show ?thesis using worker_serves [OF inv ok _ _ inv'] step by (auto simp: wq_exec_def split: if_splits)
next
  case (StepAdd c woken)
  then show ?thesis using client_serves [OF inv ok _ inv'] step by (auto simp: wq_exec_def)
next
  case (StepShutdown c)
  then show ?thesis
    using step in_serviceD(3) [OF ok, of c] by (cases "cpc s c") (auto simp: wq_exec_def workqueue_shutdown_def)
next
  case (Spurious w)
  then have w: "w \<in> set (created s)" "wpc s w = Waiting" and s': "s' = set_wpc w Waking s"
    using step by (auto simp: wq_exec_def split: if_splits)
  have "in_service C s'" by (rule in_service_upd [OF ok]) (use in_serviceD(9) [OF ok] in \<open>auto simp: s' split: if_splits\<close>)
  moreover have "ws' = ws" using wq_invD(2) [OF inv] wq_invD(2) [OF inv'] chain_unique by (simp add: s')
  ultimately show ?thesis using work_worker [OF w(1), of s' Waking C ws' ws] w(2) Spurious by (simp add: s')
next
  case (CallAdd c job)
  then have c: "cpc s c = Idle" and s': "s' = (set_cpc c (AddLock job) s)\<lparr>called := called s @ [job]\<rparr>"
    using step by (auto simp: wq_exec_def split: if_splits)
  have "c \<in> C" using C CallAdd by simp
  have "in_service C s'" by (rule in_service_upd [OF ok]) (use in_serviceD(9) [OF ok] \<open>c \<in> C\<close> in \<open>auto simp: s'\<close>)
  moreover have "ws' = ws" using wq_invD(2) [OF inv] wq_invD(2) [OF inv'] chain_unique by (simp add: s')
  ultimately show ?thesis
    using work_client [OF in_serviceD(1) [OF ok] \<open>c \<in> C\<close>, of s' s "AddLock job" ws' ws] c CallAdd by (simp add: s')
next
  case (CallShutdown c)
  then show ?thesis using no by blast
qed

lemma run_serves:
  assumes "wq_inv s ws" and "in_service C s" and "wq_run chs s = Some s'" and "\<forall>c. CallShutdown c \<notin> set chs"
    and "\<Union> (caller ` set chs) \<subseteq> C"
  obtains ws' where "wq_inv s' ws'" and "in_service C s'"
    and "work C s' ws' + length (filter internal chs) \<le> work C s ws + sum_list (map cost chs)"
  using assms
proof (induction chs arbitrary: s ws thesis)
  case Nil
  then show thesis by simp
next
  case (Cons ch chs)
  obtain s1 where s1: "wq_exec ch s = Some s1" "wq_run chs s1 = Some s'" using Cons.prems(4) by (auto simp: bind_eq_Some_conv)
  obtain ws1 where ws1: "wq_inv s1 ws1" using wq_exec_inv [OF Cons.prems(2) s1(1)] by blast
  have step: "in_service C s1 \<and> work C s1 ws1 + (if internal ch then 1 else 0) \<le> work C s ws + cost ch"
    by (rule step_serves [OF Cons.prems(2,3) s1(1) ws1]) (use Cons.prems(5,6) in auto)
  obtain ws' where "wq_inv s' ws'" "in_service C s'"
    "work C s' ws' + length (filter internal chs) \<le> work C s1 ws1 + sum_list (map cost chs)"
    by (rule Cons.IH [OF _ ws1 _ s1(2)]) (use step Cons.prems(5,6) in auto)
  then show thesis using step by (intro Cons.prems(1) [of ws']) (auto split: if_splits)
qed

subsection \<open>A pool that has just been made, and one where nothing moves\<close>

lemma start_workers_state:
  "fst (start_workers malloc create is s) = r \<Longrightarrow> wpc s = (\<lambda>_. Locking) \<Longrightarrow> terminate s = (\<lambda>_. False) \<Longrightarrow>
     wpc (snd (start_workers malloc create is s)) = (\<lambda>_. Locking) \<and> terminate (snd (start_workers malloc create is s)) = (\<lambda>_. False) \<and>
     cpc (snd (start_workers malloc create is s)) = cpc s \<and> shut (snd (start_workers malloc create is s)) = shut s"
proof (induction "is" arbitrary: s)
  case (Cons i "is")
  show ?case
  proof (cases "malloc i = None \<or> \<not> create i")
    case True
    then show ?thesis using Cons.prems by (auto split: option.split)
  next
    case False
    then obtain w list l where w: "malloc i = Some w" "create i" "LL_ADD w (workers s, wlinks s) = (list, l)"
      by (metis not_None_eq prod.exhaust)
    let ?s = "(set_wpc w Locking s)\<lparr>terminate := (terminate s)(w := False), created := created s @ [w], workers := list, wlinks := l\<rparr>"
    have "wpc ?s = (\<lambda>_. Locking)" "terminate ?s = (\<lambda>_. False)" using Cons.prems by auto
    then show ?thesis using Cons.IH [of ?s] Cons.prems(1) w by simp
  qed
qed simp

lemma init_serves:
  assumes init: "workqueue_init malloc create n = (r, s0)" and C: "finite C"
  shows "in_service C s0" and "work C s0 [] \<le> 2 * length (created s0)"
proof -
  let ?is = "[0..<nat (if n < 1 then 1 else n)]"
  have "start_workers malloc create ?is blank_workqueue = (r, s0)" using init by (simp add: workqueue_init_def)
  then have s0: "wpc s0 = (\<lambda>_. Locking)" "terminate s0 = (\<lambda>_. False)" "cpc s0 = (\<lambda>_. Idle)" "\<not> shut s0"
    using start_workers_state [of malloc create ?is blank_workqueue] by (simp_all add: blank_workqueue_def)
  then show "in_service C s0" using C by (simp add: in_service_def)
  show "work C s0 [] \<le> 2 * length (created s0)" using card_length [of "created s0"] by (simp add: work_def s0)
qed

lemma nothing_moves:
  assumes inv: "wq_inv s ws" and ok: "in_service C s" and some: "created s \<noteq> []" and stuck: "\<forall>ch. internal ch \<longrightarrow> wq_exec ch s = None"
  shows "waiting_jobs s = None \<and> (\<forall>w\<in>set (created s). wpc s w = Waiting) \<and> (\<forall>c. cpc s c = Idle) \<and> set (executed s) = set (called s)"
proof -
  note D = in_serviceD [OF ok]
  have alive: "\<forall>w\<in>set (created s). wpc s w \<noteq> Exited" using D(7) by blast
  have asleep: "wpc s w = Waiting" if "w \<in> set (created s)" for w using worker_moves [OF inv that _ alive] stuck by force
  have free: "jobs_mutex s = None" using holder_moves [OF inv _ alive] stuck by (cases "jobs_mutex s") force+
  have idle: "cpc s c = Idle" for c
  proof -
    have "\<not> client_holds (cpc s c)" using wq_invD(6) [OF inv] free by simp
    moreover have "wq_exec (StepAdd c None) s = None" using stuck internal.simps(2) by blast
    ultimately show ?thesis
      using D(3) [of c] free by (cases "cpc s c") (simp_all add: wq_exec_def workqueue_add_job_def mutex_lock_def)
  qed
  have "\<not> awake s" using asleep idle by (simp add: awake_def)
  then have ws: "ws = []" using wq_invD(4) [OF inv some] by blast
  then have none: "waiting_jobs s = None" using wq_invD(2) [OF inv] by simp
  note J = jobs_okD [OF wq_invD(3) [OF inv]]
  have "j \<in> set (executed s)" if j: "j \<in> set (called s)" for j
  proof -
    obtain p where "at s ws j p" using J(3) [OF D(2) j] by blast
    then show ?thesis using asleep idle ws by (cases p) auto
  qed
  moreover have "set (executed s) \<subseteq> set (called s)" using J(1) [of _ Done] by auto
  ultimately show ?thesis using asleep idle none by blast
qed

subsection \<open>Properties\<close>

text \<open>
  C36. As long as nobody calls \<open>workqueue_shutdown\<close>, every job that is handed to the pool is executed after finitely many steps, whatever the
  scheduler does. In a run of any choices the number of the steps of threads inside the pool's functions is bounded by twice the number of workers
  plus 11 for each call of \<open>workqueue_add_job\<close> plus 2 for each spurious wake-up; so the threads cannot go on for ever without a new call or wake-up,
  and where none of them can move, every job that was added has been executed, the list is empty, the callers have returned and the
  workers wait at the condition variable.
\<close>

theorem workqueue_progress:
  assumes init: "workqueue_init malloc create n = (0, s0)" and run: "wq_run chs s0 = Some s" and serving: "\<forall>c. CallShutdown c \<notin> set chs"
  shows "length (filter internal chs) \<le> 2 * length (created s) + sum_list (map cost chs) \<and>
    ((\<forall>ch. internal ch \<longrightarrow> wq_exec ch s = None) \<longrightarrow>
      set (executed s) = set (called s) \<and> waiting_jobs s = None \<and> (\<forall>w\<in>set (created s). wpc s w = Waiting) \<and> (\<forall>c. cpc s c = Idle))"
proof -
  define C where "C = \<Union> (caller ` set chs)"
  have "finite (caller ch)" for ch by (cases ch) simp_all
  then have C: "finite C" by (simp add: C_def)
  note I = init_serves [OF init C]
  obtain ws where ws: "wq_inv s ws" "in_service C s" "work C s ws + length (filter internal chs) \<le> work C s0 [] + sum_list (map cost chs)"
    by (rule run_serves [OF init_inv(1) [OF init] I(1) run serving]) (simp_all add: C_def)
  have created: "created s = created s0" by (rule wq_reach_created [OF wq_run_reach [OF run wq_reach.start]])
  then have "created s \<noteq> []" using init_inv(2) [OF init] by simp
  then show ?thesis using nothing_moves [OF ws(1,2)] ws(3) I(2) created by auto
qed

text \<open>Two workers, a job, and the workers go back to sleep.\<close>

definition demo_rest :: "choice list" where
  "demo_rest = demo_schedule @ [StepWorker 1, StepWorker 1, StepWorker 2, StepWorker 2]"

lemma demo_rest_runs:
  obtains s where "wq_run demo_rest demo_pool = Some s" and "called s = [5]" and "created s = [1, 2]"
    and "wpc s 1 = Waiting" and "wpc s 2 = Waiting" and "cpc s = (\<lambda>_. Idle)"
  by (simp add: demo_rest_def demo_schedule_def pool_eval fun_upd_idem)

theorem workqueue_progress_witness:
  "\<exists>s. wq_run demo_rest demo_pool = Some s \<and> set (executed s) = {5} \<and> waiting_jobs s = None"
proof -
  obtain s where s: "wq_run demo_rest demo_pool = Some s" "called s = [5]" "created s = [1, 2]" "wpc s 1 = Waiting" "wpc s 2 = Waiting"
    "cpc s = (\<lambda>_. Idle)"
    by (rule demo_rest_runs)
  have "\<forall>c. CallShutdown c \<notin> set demo_rest" by (simp add: demo_rest_def demo_schedule_def)
  moreover have "wq_exec ch s = None" if "internal ch" for ch
    using that s(3-6) by (cases ch) (auto simp: wq_exec_def worker_step_def workqueue_add_job_def workqueue_shutdown_def)
  ultimately show ?thesis using workqueue_progress [OF demo_pool_init s(1)] s(1,2) by auto
qed

end
