(* ===== verification/LogSpec.thy ===== *)
theory LogSpec
  imports Log
begin

text \<open>
  What the log guarantees: the numbers in the names of the files are read back uniquely, so shifting renames every file exactly
  once and the rotation is the shift of the whole sequence of files by one place.
\<close>

subsection \<open>Decimal numbers\<close>

definition digit_value :: "char \<Rightarrow> nat" where
  "digit_value c = of_char c - 48"

definition number :: "string \<Rightarrow> nat" where
  "number cs = foldl (\<lambda>n c. 10 * n + digit_value c) 0 cs"

lemma digit_value: "n < 10 \<Longrightarrow> digit_value (digit n) = n"
  by (simp add: digit_value_def digit_def)

lemma number_digits: "number (digits n) = n"
proof (induction n rule: digits.induct)
  case (1 n)
  show ?case
  proof (cases "n < 10")
    case True
    then show ?thesis by (subst digits.simps) (simp add: number_def digit_value)
  next
    case False
    have "number (digits n) = 10 * number (digits (n div 10)) + n mod 10"
      using False by (subst digits.simps) (simp add: number_def digit_value)
    then show ?thesis using 1 [OF False] by simp
  qed
qed

lemma digits_range: "c \<in> set (digits n) \<Longrightarrow> \<exists>k<10. c = digit k"
proof (induction n rule: digits.induct)
  case (1 n)
  show ?case
  proof (cases "n < 10")
    case True
    then show ?thesis using 1(2) by (subst (asm) digits.simps) auto
  next
    case False
    then have "c \<in> set (digits (n div 10)) \<or> c = digit (n mod 10)" using 1(2) by (subst (asm) digits.simps) auto
    then show ?thesis using 1(1) [OF False] by (auto intro: exI [of _ "n mod 10"])
  qed
qed

lemma decimal_inj: "0 \<le> i \<Longrightarrow> 0 \<le> j \<Longrightarrow> decimal i = decimal j \<Longrightarrow> i = j"
  by (metis decimal_def int_nat_eq linorder_not_less number_digits)

lemma digits_not_empty: "digits n \<noteq> []"
  by (subst digits.simps) simp

lemma numbered_inj: "0 \<le> i \<Longrightarrow> 0 \<le> j \<Longrightarrow> numbered_name base i = numbered_name base j \<longleftrightarrow> i = j"
  using decimal_inj by (auto simp: numbered_name_def)

lemma numbered_current: "numbered_name base i \<noteq> current_name base"
proof -
  have "decimal i \<noteq> []" using digits_not_empty by (auto simp: decimal_def)
  then show ?thesis by (simp add: numbered_name_def current_name_def)
qed

lemma length_digits: "length (digits n) \<le> Suc n"
proof (induction n rule: digits.induct)
  case (1 n)
  show ?case
  proof (cases "n < 10")
    case True
    then show ?thesis by (subst digits.simps) simp
  next
    case False
    then have "length (digits n) \<le> Suc (Suc (n div 10))" using 1 by (subst digits.simps) simp
    then show ?thesis using False by linarith
  qed
qed

text \<open>The place \<open>i\<close> of the sequence of files: the current one is at place 0.\<close>

definition log_place :: "string \<Rightarrow> nat \<Rightarrow> string" where
  "log_place base i = shift_source base (int i)"

lemma source_inj: "log_place base i = log_place base j \<longleftrightarrow> i = j"
  using numbered_inj [of "int i" "int j" base] numbered_current [of base "int i"] numbered_current [of base "int j"]
  by (auto simp: log_place_def shift_source_def)

lemma numbered_source: "numbered_name base (int n + 1) = log_place base (Suc n)"
  by (simp add: log_place_def shift_source_def add.commute)

subsection \<open>Shifting\<close>

text \<open>The reference: every file up to place \<open>n\<close> has moved on by one place, where the place \<open>n + 1\<close> was free.\<close>

definition shifted :: "string \<Rightarrow> nat \<Rightarrow> (string \<Rightarrow> string option) \<Rightarrow> (string \<Rightarrow> string option) \<Rightarrow> bool" where
  "shifted base n fs fs' \<longleftrightarrow> fs' (log_place base 0) = None \<and>
     (\<forall>i\<le>n. fs' (log_place base (Suc i)) = fs (log_place base i)) \<and>
     (\<forall>nm. (\<forall>i\<le>Suc n. nm \<noteq> log_place base i) \<longrightarrow> fs' nm = fs nm)"

definition names_fit :: "string \<Rightarrow> nat \<Rightarrow> bool" where
  "names_fit base n \<longleftrightarrow> (\<forall>i\<le>n. length (log_place base i) < 256)"

lemma shift_from_place:
  assumes "length (log_place base n) < 256" and "length (log_place base (Suc n)) < 256" and "\<forall>t. rename_ok env t"
  defines "s1 \<equiv> \<lambda>s. case files s (log_place base n) of None \<Rightarrow> s
      | Some c \<Rightarrow> s\<lparr>files := (files s)(log_place base n := None, log_place base (Suc n) := Some c), log_tick := log_tick s + 1\<rparr>"
  shows "shift_from env base n s = (case n of 0 \<Rightarrow> Some (0, s1 s) | Suc m \<Rightarrow> shift_from env base m (s1 s))"
proof -
  have "file_name (shift_source base (int n)) = Some (log_place base n)" "file_name (numbered_name base (int n + 1)) = Some (log_place base (Suc n))"
    unfolding numbered_source using assms(1,2) by (simp_all add: file_name_def flip: log_place_def)
  then show ?thesis
    unfolding s1_def by (subst shift_from.simps) (simp add: assms(3) split: option.split nat.split)
qed

lemma shift_from_ok:
  assumes "names_fit base (Suc n)" and "\<forall>t. rename_ok env t" and "files s (log_place base (Suc n)) = None"
  shows "\<exists>s'. shift_from env base n s = Some (0, s') \<and> shifted base n (files s) (files s') \<and>
    s' = s\<lparr>files := files s', log_tick := log_tick s'\<rparr>"
  using assms
proof (induction n arbitrary: s)
  case 0
  have fit: "length (log_place base 0) < 256" "length (log_place base (Suc 0)) < 256"
    using 0(1) by (auto simp: names_fit_def le_Suc_eq)
  let ?s' = "case files s (log_place base 0) of None \<Rightarrow> s
    | Some c \<Rightarrow> s\<lparr>files := (files s)(log_place base 0 := None, log_place base (Suc 0) := Some c), log_tick := log_tick s + 1\<rparr>"
  have "shift_from env base 0 s = Some (0, ?s')"
    using shift_from_place [OF fit 0(2)] by simp
  moreover have "shifted base 0 (files s) (files ?s')"
    using 0(3) source_inj [of base 0 "Suc 0"]
    by (auto simp: shifted_def le_Suc_eq split: option.split)
  ultimately show ?case by (intro exI [of _ ?s']) (simp split: option.split)
next
  case (Suc n)
  let ?src = "log_place base (Suc n)" and ?dst = "log_place base (Suc (Suc n))"
  have fits: "length (log_place base i) < 256" if "i \<le> Suc (Suc n)" for i using Suc.prems(1) that by (simp add: names_fit_def)
  have fit: "length ?src < 256" "length ?dst < 256" by (rule fits, simp)+
  let ?s1 = "case files s ?src of None \<Rightarrow> s
    | Some c \<Rightarrow> s\<lparr>files := (files s)(?src := None, ?dst := Some c), log_tick := log_tick s + 1\<rparr>"
  have ne: "?src \<noteq> ?dst" using source_inj [of base "Suc n" "Suc (Suc n)"] by simp
  have step: "shift_from env base (Suc n) s = shift_from env base n ?s1"
    using shift_from_place [OF fit Suc.prems(2)] by simp
  have free: "files ?s1 ?src = None" using ne by (simp split: option.split)
  have fit': "names_fit base (Suc n)" using Suc.prems(1) by (simp add: names_fit_def)
  obtain s' where s': "shift_from env base n ?s1 = Some (0, s')" "shifted base n (files ?s1) (files s')"
    "s' = ?s1\<lparr>files := files s', log_tick := log_tick s'\<rparr>"
    using Suc.IH [OF fit' Suc.prems(2) free] by blast
  have old: "files ?s1 nm = files s nm" if "nm \<noteq> ?src" "nm \<noteq> ?dst" for nm using that by (simp split: option.split)
  have dst: "files ?s1 ?dst = files s ?src" using ne Suc.prems(3) by (auto split: option.split)
  have "shifted base (Suc n) (files s) (files s')"
    unfolding shifted_def
  proof (intro conjI allI impI)
    show "files s' (log_place base 0) = None" using s'(2) by (simp add: shifted_def)
  next
    fix i assume i: "i \<le> Suc n"
    show "files s' (log_place base (Suc i)) = files s (log_place base i)"
    proof (cases "i = Suc n")
      case True
      have "\<forall>k\<le>Suc n. ?dst \<noteq> log_place base k" using source_inj by auto
      then have "files s' ?dst = files ?s1 ?dst" using s'(2) by (simp add: shifted_def)
      then show ?thesis using True dst by simp
    next
      case False
      then have le: "i \<le> n" using i by simp
      then have "files s' (log_place base (Suc i)) = files ?s1 (log_place base i)" using s'(2) by (simp add: shifted_def)
      then show ?thesis using old [of "log_place base i"] le source_inj [of base i] by simp
    qed
  next
    fix nm assume nm: "\<forall>i\<le>Suc (Suc n). nm \<noteq> log_place base i"
    then have "files s' nm = files ?s1 nm" using s'(2) by (simp add: shifted_def)
    then show "files s' nm = files s nm" using old [of nm] nm by simp
  qed
  moreover have "s' = s\<lparr>files := files s', log_tick := log_tick s'\<rparr>"
    using s'(3) by (simp split: option.splits)
  ultimately show ?case using step s'(1) by metis
qed

lemma shifted_cong:
  assumes "shifted base n fs fs'" and "\<And>nm. nm \<noteq> log_place base (Suc n) \<Longrightarrow> gs nm = fs nm"
  shows "shifted base n gs fs'"
proof -
  have "gs (log_place base i) = fs (log_place base i)" if "i \<le> n" for i using assms(2) source_inj [of base i "Suc n"] that by simp
  moreover have "gs nm = fs nm" if "\<forall>i\<le>Suc n. nm \<noteq> log_place base i" for nm using assms(2) that by blast
  ultimately show ?thesis using assms(1) by (simp add: shifted_def)
qed

lemma shift_files_ok:
  assumes fit: "names_fit base (Suc n)" and ok: "\<forall>t. rename_ok env t" "\<forall>t. remove_ok env t" and c: "files s (log_place base 0) = Some c"
  obtains s' where "ShiftFiles env base limit (int n + 2) s = Some (0, s')"
    and "if int (length c) < limit then s' = s else shifted base n (files s) (files s')"
proof (cases "int (length c) < limit")
  case True
  have "file_name (current_name base) = Some (log_place base 0)" "current_name base = log_place base 0"
    using fit by (auto simp: names_fit_def file_name_def log_place_def shift_source_def)
  then show thesis using that [of s] c True by (simp add: ShiftFiles_def)
next
  case False
  have fits: "length (log_place base i) < 256" if "i \<le> Suc n" for i using fit that by (simp add: names_fit_def)
  have cur: "file_name (current_name base) = Some (log_place base 0)"
    using fits [of 0] by (simp add: file_name_def log_place_def shift_source_def)
  have "numbered_name base (int n + 2 - 1) = log_place base (Suc n)" using numbered_source [of base n] by (simp add: algebra_simps)
  then have old: "file_name (numbered_name base (int n + 2 - 1)) = Some (log_place base (Suc n))"
    using fits [of "Suc n"] by (simp add: file_name_def)
  let ?s1 = "case files s (log_place base (Suc n)) of None \<Rightarrow> s
    | Some _ \<Rightarrow> s\<lparr>files := (files s)(log_place base (Suc n) := None), log_tick := log_tick s + 1\<rparr>"
  have eq: "ShiftFiles env base limit (int n + 2) s = shift_from env base n ?s1"
    unfolding ShiftFiles_def cur old using False c ok(2) by (simp split: option.split)
  have free: "files ?s1 (log_place base (Suc n)) = None" by (simp split: option.split)
  obtain s' where s': "shift_from env base n ?s1 = Some (0, s')" "shifted base n (files ?s1) (files s')"
    using shift_from_ok [OF fit ok(1) free] by blast
  have "shifted base n (files s) (files s')"
    by (rule shifted_cong [OF s'(2)]) (simp split: option.split)
  then show thesis using that [of s'] eq s'(1) False by simp
qed

subsection \<open>Properties\<close>

text \<open>
  C40. Writing an entry appends it, with its time, to the current file; if this file has then reached the size limit and there are
  at least two files, the sequence of files is shifted by one place: every file is renamed to the next number, the oldest is dropped, the
  current one is free again, and no other file is touched. So after every call the current file is below the limit or absent.
\<close>

theorem log_rotation:
  fixes s :: log_state
  assumes fit: "names_fit base (Suc n)" and ok: "\<forall>t. fopen_ok env t" "\<forall>t. rename_ok env t" "\<forall>t. remove_ok env t"
    and fmt: "printf_plain format = Some text"
  defines "cur \<equiv> log_place base 0"
    and "entry \<equiv> ''['' @ GetCurrentTimeStr (local_time env (log_tick s)) @ ''] '' @ text"
  defines "written \<equiv> (files s)(cur := Some (case_option [] id (files s cur) @ entry))"
  shows "\<exists>s'. WriteLog env base limit (int n + 2) format s = Some (0, s') \<and>
    (if int (length (the (written cur))) < limit then files s' = written else shifted base n written (files s')) \<and>
    (\<forall>c. files s' cur = Some c \<longrightarrow> int (length c) < limit)"
proof -
  let ?s1 = "s\<lparr>files := written, log_tick := log_tick s + 1\<rparr>"
  have name: "file_name (current_name base) = Some cur"
    using fit by (auto simp: names_fit_def file_name_def log_place_def shift_source_def cur_def)
  have old: "(case files s cur of None \<Rightarrow> [] | Some c \<Rightarrow> c) = case_option [] id (files s cur)" by (simp split: option.split)
  have eq: "WriteLog env base limit (int n + 2) format s = ShiftFiles env base limit (int n + 2) ?s1"
    unfolding WriteLog_def VWriteLog_def name by (simp add: ok(1) fmt written_def entry_def old)
  have c: "files ?s1 (log_place base 0) = Some (the (written cur))" by (simp add: written_def cur_def)
  obtain s' where s': "ShiftFiles env base limit (int n + 2) ?s1 = Some (0, s')"
    "if int (length (the (written cur))) < limit then s' = ?s1 else shifted base n (files ?s1) (files s')"
    by (rule shift_files_ok [OF fit ok(2,3) c])
  have "\<forall>c. files s' cur = Some c \<longrightarrow> int (length c) < limit"
    using s'(2) by (auto simp: written_def shifted_def cur_def split: if_splits)
  then show ?thesis using eq s' by (auto split: if_splits)
qed

definition demo_log_env :: log_env where
  "demo_log_env = \<lparr>fopen_ok = (\<lambda>_. True), remove_ok = (\<lambda>_. True), rename_ok = (\<lambda>_. True),
     local_time = (\<lambda>_. \<lparr>tm_year = 120, tm_mon = 0, tm_mday = 2, tm_hour = 3, tm_min = 4, tm_sec = 5, tm_usec = 6\<rparr>)\<rparr>"

definition demo_log :: log_state where
  "demo_log = \<lparr>files = [''a.log'' \<mapsto> ''old'', ''a1.log'' \<mapsto> ''older''], log_tick = 0, sszLogBaseName = ''a'', slMaxLogSize = 8,
     siMaxLogNum = 3, siLogInitialized = True\<rparr>"

lemma demo_places: "log_place ''a'' 0 = ''a.log''" "log_place ''a'' (Suc 0) = ''a1.log''" "log_place ''a'' (Suc (Suc 0)) = ''a2.log''"
  by code_simp+

lemma demo_fit: "names_fit ''a'' (Suc 1)"
  by (auto simp: names_fit_def le_Suc_eq demo_places)

theorem log_rotation_witness:
  "\<exists>s'. WriteLog demo_log_env ''a'' 8 3 ''new'' demo_log = Some (0, s') \<and> files s' ''a.log'' = None \<and> files s' ''a2.log'' = Some ''older''"
proof -
  have ok: "\<forall>t. fopen_ok demo_log_env t" "\<forall>t. rename_ok demo_log_env t" "\<forall>t. remove_ok demo_log_env t"
    by (simp_all add: demo_log_env_def)
  have fmt: "printf_plain ''new'' = Some ''new''" by simp
  obtain s' where s': "WriteLog demo_log_env ''a'' 8 (int 1 + 2) ''new'' demo_log = Some (0, s')"
    "shifted ''a'' 1 ((files demo_log)(''a.log'' := Some (''old'' @ ''['' @ GetCurrentTimeStr (local_time demo_log_env 0) @ ''] '' @ ''new''))) (files s')"
    using log_rotation [OF demo_fit ok fmt, where s = demo_log and limit = 8] by (auto simp: demo_places demo_log_def split: if_splits)
  have "\<forall>i\<le>1. files s' (log_place ''a'' (Suc i)) =
      ((files demo_log)(''a.log'' := Some (''old'' @ ''['' @ GetCurrentTimeStr (local_time demo_log_env 0) @ ''] '' @ ''new''))) (log_place ''a'' i)"
    "files s' (log_place ''a'' 0) = None"
    using s'(2) unfolding shifted_def by blast+
  then have "files s' ''a.log'' = None" "files s' ''a2.log'' = Some ''older''"
    by (auto simp: demo_places demo_log_def le_Suc_eq)
  then show ?thesis using s'(1) by simp
qed

text \<open>With one file the current file is never shifted: the loop does not run, so it grows without bound.\<close>

theorem one_file_never_rotates:
  fixes s :: log_state
  assumes "length (current_name base) < 256" and "length (numbered_name base 0) < 256" and "\<forall>t. fopen_ok env t" and "\<forall>t. remove_ok env t"
    and "printf_plain format = Some text"
  defines "content \<equiv> case_option [] id (files s (current_name base)) @ ''['' @ GetCurrentTimeStr (local_time env (log_tick s)) @ ''] '' @ text"
  shows "\<exists>s'. WriteLog env base limit 1 format s = Some (0, s') \<and> files s' (current_name base) = Some content"
proof -
  let ?s1 = "s\<lparr>files := (files s)(current_name base := Some content), log_tick := log_tick s + 1\<rparr>"
  have name: "file_name (current_name base) = Some (current_name base)" "file_name (numbered_name base (1 - 1)) = Some (numbered_name base 0)"
    using assms(1,2) by (simp_all add: file_name_def)
  have old: "(case files s (current_name base) of None \<Rightarrow> [] | Some c \<Rightarrow> c) = case_option [] id (files s (current_name base))"
    by (simp split: option.split)
  have "WriteLog env base limit 1 format s = ShiftFiles env base limit 1 ?s1"
    unfolding WriteLog_def VWriteLog_def name by (simp add: assms(3,5) content_def old)
  moreover have "\<exists>s'. ShiftFiles env base limit 1 ?s1 = Some (0, s') \<and> files s' (current_name base) = Some content"
    unfolding ShiftFiles_def name using assms(4) numbered_current [of base 0] by (auto simp: Let_def split: option.split)
  ultimately show ?thesis by simp
qed

text \<open>
  \<open>Log\<close> hands its finished line to \<open>WriteLog\<close> as a format: a message with a per cent sign makes \<open>vfprintf\<close> read arguments that were not passed.
\<close>

theorem log_message_as_format:
  assumes "\<forall>t. fopen_ok env t"
  shows "Log env DEBUG ''50% done'' s = None"
  using assms by (simp add: Log_def log_line_def WriteLog_def VWriteLog_def DEBUG_def file_name_def)

text \<open>\<open>LogInit\<close> keeps names of up to 255 characters, but the arrays for the names of the files have room for a base of 251.\<close>

theorem log_name_overflows:
  assumes "252 \<le> length base"
  shows "Log env level msg (LogInit base limit num s) = None"
proof -
  have "file_name (current_name (take 255 base)) = None" using assms by (simp add: file_name_def current_name_def)
  then have "WriteLog env (take 255 base) l n format t = None" for l n format t by (simp add: WriteLog_def VWriteLog_def)
  then show ?thesis by (simp add: Log_def LogInit_def bind_eq_None_conv)
qed

end
