(* ===== verification/CallSpec.thy ===== *)
theory CallSpec
  imports LoopSpec
begin

text \<open>
  Which callbacks \<open>event_process_active\<close> calls, and with which arguments: against the reference \<open>call_events\<close>, and,
  for clients whose callbacks only note that they were called, as the sequence of the calls itself.
\<close>

subsection \<open>Callbacks that only record their calls\<close>

text \<open>
  The callback \<open>n\<close> of an observer changes nothing but the client's own part of the state, by \<open>h n fd what arg\<close>. The effect of
  a call of the callback of an event, and of its calls for one activation, follows from what is registered in the event, or
  in its \<open>struct event_once\<close>.
\<close>

type_synonym 'w effect = "nat \<Rightarrow> int \<Rightarrow> 16 word \<Rightarrow> nat \<Rightarrow> 'w \<Rightarrow> 'w"

definition observer :: "'w effect \<Rightarrow> ('w epoll_world_scheme) client \<Rightarrow> bool" where
  "observer h cl \<longleftrightarrow> (\<forall>n fd what arg s. cl_call cl n fd what arg s = Some (epoll_world.more_update (h n fd what arg) s))"

definition plain_effect :: "'w effect \<Rightarrow> callback \<Rightarrow> int \<Rightarrow> 16 word \<Rightarrow> nat \<Rightarrow> 'w \<Rightarrow> 'w" where
  "plain_effect h cb fd what arg = (case cb of User n \<Rightarrow> h n fd what arg | _ \<Rightarrow> id)"

definition one_call :: "'w effect \<Rightarrow> event \<Rightarrow> event_once option \<Rightarrow> 'w \<Rightarrow> 'w" where
  "one_call h v eo = (case (ev_callback v, eo) of
      (OnceCb, Some o1) \<Rightarrow> plain_effect h (eo_cb o1) (ev_fd v) (ucast (ev_res v)) (eo_arg o1)
    | _ \<Rightarrow> plain_effect h (ev_callback v) (ev_fd v) (ucast (ev_res v)) (ev_arg v))"

lemma one_call_upd [simp]:
  "one_call h (v\<lparr>ev_ncalls := m\<rparr>) eo = one_call h v eo" "one_call h (v\<lparr>ev_flags := f, ev_pncalls := p\<rparr>) eo = one_call h v eo"
  by (simp_all add: one_call_def split: callback.split option.split)

definition call_effect :: "'w effect \<Rightarrow> 'a event_core_scheme \<Rightarrow> eid \<Rightarrow> 'w \<Rightarrow> 'w" where
  "call_effect h s e = one_call h (evs s e) (onces s e) ^^ unat (ev_ncalls (evs s e))"

text \<open>Two states that agree but for the counters of the event \<open>e\<close>, its \<open>struct event_once\<close>, and the part of the client.\<close>

definition agree_but :: "eid \<Rightarrow> 'a event_core_scheme \<Rightarrow> 'a event_core_scheme \<Rightarrow> bool" where
  "agree_but e s s' \<longleftrightarrow> (\<exists>m. evs s' = (evs s)(e := (evs s e)\<lparr>ev_ncalls := m\<rparr>)) \<and> (\<forall>x. x \<noteq> e \<longrightarrow> onces s' x = onces s x) \<and>
     event_break s' = event_break s \<and> event_gotsig s' = event_gotsig s"

lemma agree_but_trans: "agree_but e s t \<Longrightarrow> agree_but e t u \<Longrightarrow> agree_but e s u"
  unfolding agree_but_def by (elim conjE exE) (auto intro!: exI)

lemma observed_plain:
  assumes "observer h cl" and "cb \<noteq> OnceCb"
  obtains s' where "run_plain cl cb fd what arg s = Some s'" and "epoll_world.more s' = plain_effect h cb fd what arg (epoll_world.more s)"
    and "evs s' = evs s" and "onces s' = onces s" and "frames s' = frames s" and "event_break s' = event_break s"
    and "event_gotsig s' = event_gotsig s"
  using that assms by (cases cb) (simp_all add: run_plain_def observer_def plain_effect_def event_loopexit_cb_def)

lemma observed_callback:
  assumes obs: "observer h cl" and once: "ev_callback (evs s e) = OnceCb \<Longrightarrow> once_event s e"
  obtains s' where "run_callback cl (ev_callback (evs s e)) (ev_fd (evs s e)) (ucast (ev_res (evs s e))) (ev_arg (evs s e))
      (calling fr e m s) = Some s'"
    and "epoll_world.more s' = one_call h (evs s e) (onces s e) (epoll_world.more s)" and "agree_but e s s'"
    and "frames s' fr = Some m" and "ev_callback (evs s e) \<noteq> OnceCb \<Longrightarrow> onces s' e = onces s e"
proof -
  have more: "epoll_world.more (calling fr e m s) = epoll_world.more s" by (simp add: calling_def upd_ev_def)
  show thesis
  proof (cases "ev_callback (evs s e) = OnceCb")
    case False
    obtain s' where s': "run_plain cl (ev_callback (evs s e)) (ev_fd (evs s e)) (ucast (ev_res (evs s e))) (ev_arg (evs s e))
        (calling fr e m s) = Some s'"
      "epoll_world.more s' = plain_effect h (ev_callback (evs s e)) (ev_fd (evs s e)) (ucast (ev_res (evs s e))) (ev_arg (evs s e))
         (epoll_world.more (calling fr e m s))"
      "evs s' = evs (calling fr e m s)" "onces s' = onces (calling fr e m s)" "frames s' = frames (calling fr e m s)"
      "event_break s' = event_break (calling fr e m s)" "event_gotsig s' = event_gotsig (calling fr e m s)"
      by (rule observed_plain [OF obs False])
    have "one_call h (evs s e) (onces s e) =
        plain_effect h (ev_callback (evs s e)) (ev_fd (evs s e)) (ucast (ev_res (evs s e))) (ev_arg (evs s e))"
      using False by (simp add: one_call_def split: callback.splits)
    then show thesis using that [of s'] s' False more by (auto simp: run_callback_def agree_but_def)
  next
    case True
    then obtain eo where eo: "onces s e = Some eo" "eo_cb eo \<noteq> OnceCb" "ev_arg (evs s e) = e"
      using once by (auto simp: once_event_def)
    obtain s' where s': "run_plain cl (eo_cb eo) (ev_fd (evs s e)) (ucast (ev_res (evs s e))) (eo_arg eo) (calling fr e m s) = Some s'"
      "epoll_world.more s' = plain_effect h (eo_cb eo) (ev_fd (evs s e)) (ucast (ev_res (evs s e))) (eo_arg eo)
         (epoll_world.more (calling fr e m s))"
      "evs s' = evs (calling fr e m s)" "onces s' = onces (calling fr e m s)" "frames s' = frames (calling fr e m s)"
      "event_break s' = event_break (calling fr e m s)" "event_gotsig s' = event_gotsig (calling fr e m s)"
      by (rule observed_plain [OF obs eo(2)])
    show thesis
      by (rule that [of "s'\<lparr>onces := (onces s')(e := None)\<rparr>"])
        (use s' True eo more in \<open>auto simp: run_callback_def event_once_cb_def one_call_def agree_but_def\<close>)
  qed
qed

text \<open>The calls of one event.\<close>

lemma observed_calls:
  assumes obs: "observer h cl"
    and "frames s fr = Some n" and "unat n = k" and "\<not> event_break s" and "\<not> event_gotsig s"
    and "ev_callback (evs s e) = OnceCb \<Longrightarrow> once_event s e \<and> k \<le> 1"
  shows "\<exists>s'. call_times cl fr e k s = Some (False, s') \<and> agree_but e s s' \<and>
    epoll_world.more s' = (one_call h (evs s e) (onces s e) ^^ k) (epoll_world.more s)"
  using assms(2-)
proof (induction k arbitrary: s n)
  case 0
  then show ?case by (auto simp: agree_but_def intro!: exI [of _ "ev_ncalls (evs s e)"])
next
  case (Suc k)
  have "n \<noteq> 0" using Suc.prems(2) by auto
  moreover have "of_nat (unat n) = n" by simp
  ultimately have k: "of_nat k = n - 1" "unat (n - 1) = k"
    using Suc.prems(2) by (simp_all add: unat_minus_one) (metis add_diff_cancel_left')
  obtain s2 where s2: "run_callback cl (ev_callback (evs s e)) (ev_fd (evs s e)) (ucast (ev_res (evs s e))) (ev_arg (evs s e))
      (calling fr e (n - 1) s) = Some s2"
    "epoll_world.more s2 = one_call h (evs s e) (onces s e) (epoll_world.more s)" "agree_but e s s2"
    "frames s2 fr = Some (n - 1)" "ev_callback (evs s e) \<noteq> OnceCb \<Longrightarrow> onces s2 e = onces s e"
    using observed_callback [OF obs, of s e fr "n - 1"] Suc.prems(5) by blast
  have go: "\<not> event_break s2" "\<not> event_gotsig s2" using s2(3) Suc.prems(3,4) by (simp_all add: agree_but_def)
  have ref: "call_times cl fr e (Suc k) s = call_times cl fr e k s2"
    using Suc.prems(1) \<open>n \<noteq> 0\<close> s2(1) k(1) go by simp
  show ?case
  proof (cases "ev_callback (evs s e) = OnceCb")
    case True
    then have "k = 0" using Suc.prems(5) by simp
    then show ?thesis using ref s2(2,3) by simp
  next
    case False
    have same: "ev_callback (evs s2 e) = ev_callback (evs s e)" "one_call h (evs s2 e) (onces s2 e) = one_call h (evs s e) (onces s e)"
      using s2(3) s2(5) [OF False] by (auto simp: agree_but_def)
    obtain s' where s': "call_times cl fr e k s2 = Some (False, s')" "agree_but e s2 s'"
      "epoll_world.more s' = (one_call h (evs s2 e) (onces s2 e) ^^ k) (epoll_world.more s2)"
      using Suc.IH [OF s2(4) k(2) go] False same(1) by auto
    then show ?thesis
      using ref same(2) s2(2) agree_but_trans [OF s2(3) s'(2)] by (simp add: funpow_swap1)
  qed
qed

subsection \<open>Taking an event off does not touch the client's data\<close>

lemma outer_more: "event_core.more (s' :: 'b epoll_world_scheme) = event_core.more s \<Longrightarrow> epoll_world.more s' = epoll_world.more s"
  by (cases s; cases s'; simp)

lemma epoll_del_more:
  assumes "epoll_del s e = Some (r, s')"
  shows "epoll_world.more s' = epoll_world.more s"
proof -
  have restore: "epoll_world.more t' = epoll_world.more t" if "evsignal_restore_handler t n = Some (r, t')" for t t' :: "'b epoll_world_scheme" and n r
    using that
    by (auto simp: evsignal_restore_handler_def set_sh_old_def sigaction_set_def Let_def upd_sig_def
        split: if_splits option.splits prod.splits)
  have ctl: "epoll_world.more (snd (epoll_ctl c fd w t)) = epoll_world.more t" for c fd w and t :: "'b epoll_world_scheme"
    by (simp add: epoll_ctl_def Let_def)
  have sigs: "epoll_world.more s' = epoll_world.more s" if "evsignal_del s e = Some (r, s')"
    using that restore by (fastforce simp: evsignal_del_def Let_def upd_sig_def split: if_splits)
  show ?thesis
  proof (cases "has (ev_events (evs s e)) EV_SIGNAL")
    case True
    then show ?thesis using assms sigs by (simp add: epoll_del_def)
  next
    case False
    obtain c w d1 d2 where plan: "epoll_del_plan (ep_fds s ! nat (ev_fd (evs s e))) (ev_events (evs s e)) = (c, w, d1, d2)"
      by (metis prod_cases4)
    then show ?thesis
      using assms False plan ctl by (auto simp: epoll_del_def Let_def split_beta split: if_splits)
  qed
qed

lemma taken_off_more:
  assumes ok: "loop_ok s" and e: "active s e" and off: "taken_off ops fr e s = Some s1"
  shows "epoll_world.more s1 = epoll_world.more s"
proof -
  note L = loop_okD [OF ok]
  have rdy: "ready s e" using all_readyD [OF L(2)] e by blast
  have base: "ev_base (evs s e) = Base" using core_okD(11) [OF L(8)] e by blast
  have upd: "epoll_world.more (upd_ev e g (t\<lparr>frames := f\<rparr>)) = epoll_world.more t" for g f and t :: "'a epoll_world_scheme"
    by (simp add: upd_ev_def)
  show ?thesis
  proof (cases "has (ev_events (evs s e)) EV_PERSIST")
    case True
    obtain s0 where s0: "(if has (ev_flags (evs s e)) EVLIST_ACTIVE then event_queue_remove s e EVLIST_ACTIVE
        else Some s) = Some s0" "moves s e (ev_flags (evs s e) AND NOT EVLIST_ACTIVE) s0"
      by (rule drop_active [OF L(8)])
    have "epoll_world.more s0 = epoll_world.more s" by (rule outer_more [OF queues_onlyD(17) [OF movesD(2) [OF s0(2)]]])
    then show ?thesis using off True s0(1) e by (auto simp: taken_off_def active_def upd)
  next
    case False
    obtain s0 where s0: "event_core.more s0 = event_core.more s" "event_del ops s e = (if inserted s e then op_del ops e s0 else Some (0, s0))"
      using event_del_queues [OF L(8) base, where ops = ops] rdy by (metis ready_def)
    obtain r s2 where s2: "event_del ops s e = Some (r, s2)" "s1 = upd_ev e (\<lambda>v. v\<lparr>ev_pncalls := Some fr\<rparr>) (s2\<lparr>frames := (frames s2)(fr := Some (ev_ncalls (evs s e)))\<rparr>)"
      using off False by (auto simp: taken_off_def)
    have "epoll_world.more s2 = epoll_world.more s0"
      using s0(2) s2(1) epoll_del_more [of s0 e r s2] by (auto split: if_splits)
    then show ?thesis using outer_more [OF s0(1)] by (simp add: s2(2) upd)
  qed
qed

subsection \<open>The calls of a queue\<close>

lemma observed_event:
  assumes cl: "gentle loop_ok cl" and obs: "observer h cl"
    and ok: "loop_ok s" and fr: "idle s fr" "frames s fr \<noteq> None" and go: "\<not> event_break s" "\<not> event_gotsig s" and e: "active s e"
  obtains s1 s2 where "taken_off ops fr e s = Some s1" and "call_times cl fr e (unat (ev_ncalls (evs s e))) s1 = Some (False, s2)"
    and "epoll_world.more s2 = call_effect h s e (epoll_world.more s)"
    and "loop_ok s2" and "idle s2 fr" and "frames s2 fr \<noteq> None" and "\<not> event_break s2" and "\<not> event_gotsig s2"
    and "\<And>x. x \<noteq> e \<Longrightarrow> evs s2 x = evs s x \<and> onces s2 x = onces s x"
proof -
  note live = live_loop [symmetric]
  obtain s1 where s1: "el.live s1" "counting s1 fr e" "running s1 fr e" "event_break s1 = event_break s"
    "event_gotsig s1 = event_gotsig s" "frames s1 fr = Some (ev_ncalls (evs s e))" "onces s1 = onces s"
    "\<exists>f. evs s1 = (evs s)(e := (evs s e)\<lparr>ev_flags := f, ev_pncalls := Some fr\<rparr>)" "taken_off ops fr e s = Some s1"
    by (rule el.take_active_ok [OF ok [unfolded live] e fr(2,1), where n = 0]) blast
  from s1(8) obtain f where evs1: "evs s1 = (evs s)(e := (evs s e)\<lparr>ev_flags := f, ev_pncalls := Some fr\<rparr>)" by blast
  have more1: "epoll_world.more s1 = epoll_world.more s" by (rule taken_off_more [OF ok e s1(9)])
  have once: "once_event s1 e \<and> unat (ev_ncalls (evs s e)) \<le> 1" if "ev_callback (evs s1 e) = OnceCb"
  proof -
    have "once_event s e" using loop_okD(6) [OF ok] e that evs1 by (simp add: onces_ok_def queued_def)
    then show ?thesis using s1(7) evs1 by (simp add: once_event_def) (simp add: word_le_nat_alt)
  qed
  obtain s2 where s2: "call_times cl fr e (unat (ev_ncalls (evs s e))) s1 = Some (False, s2)" "agree_but e s1 s2"
    "epoll_world.more s2 = (one_call h (evs s1 e) (onces s1 e) ^^ unat (ev_ncalls (evs s e))) (epoll_world.more s1)"
    using observed_calls [OF obs s1(6) refl] once go s1(4,5) by blast
  obtain stop s3 where s3: "call_times cl fr e (unat (ev_ncalls (evs s e))) s1 = Some (stop, s3)" "loop_ok s3" "idle s3 fr" "frames s3 fr \<noteq> None"
    using el.run_calls_ok [OF cl [unfolded live] s1(1,2,3,6) disjI2 [OF refl]] go s1(4,5) unfolding live by blast
  have "one_call h (evs s1 e) (onces s1 e) = one_call h (evs s e) (onces s e)"
    using s1(7) evs1 by simp
  then have "epoll_world.more s2 = call_effect h s e (epoll_world.more s)" using s2(3) more1 by (simp add: call_effect_def)
  moreover have "s3 = s2" using s2(1) s3(1) by simp
  ultimately show thesis
    using that [of s1 s2] s1(4,5,7,9) evs1 s2(1,2) s3(2-4) go by (auto simp: agree_but_def)
qed

lemma observed_events:
  assumes cl: "gentle loop_ok cl" and obs: "observer h cl"
    and "loop_ok s" and "idle s fr" and "frames s fr \<noteq> None" and "\<not> event_break s" and "\<not> event_gotsig s"
    and "distinct es" and "\<forall>x\<in>set es. active s x"
  shows "\<exists>s'. call_events ops cl fr es s = Some s' \<and> \<not> event_break s' \<and> \<not> event_gotsig s' \<and>
    epoll_world.more s' = fold (call_effect h s) es (epoll_world.more s)"
  using assms(3-)
proof (induction es arbitrary: s)
  case (Cons e es)
  have e: "active s e" using Cons.prems(7) by simp
  obtain s1 s2 where s2: "taken_off ops fr e s = Some s1" "call_times cl fr e (unat (ev_ncalls (evs s e))) s1 = Some (False, s2)"
    "epoll_world.more s2 = call_effect h s e (epoll_world.more s)"
    "loop_ok s2" "idle s2 fr" "frames s2 fr \<noteq> None" "\<not> event_break s2" "\<not> event_gotsig s2"
    "\<And>x. x \<noteq> e \<Longrightarrow> evs s2 x = evs s x \<and> onces s2 x = onces s x"
    using observed_event [OF cl obs Cons.prems(1-5) e] by blast
  have es: "evs s2 x = evs s x" "onces s2 x = onces s x" if "x \<in> set es" for x
    using that s2(9) [of x] Cons.prems(6) by auto
  then have "fold (call_effect h s2) es w = fold (call_effect h s) es w" for w
    by (intro fold_cong) (simp_all add: call_effect_def fun_eq_iff)
  moreover have "\<forall>x\<in>set es. active s2 x" using es Cons.prems(7) by (simp add: active_def)
  ultimately show ?case
    using Cons.IH [OF s2(4-8)] Cons.prems(6) s2(1-3) e by simp
qed simp

subsection \<open>The invariant does not depend on the client's part\<close>

lemma loop_ok_client:
  fixes s :: "'b epoll_world_scheme" and s' :: "'c epoll_world_scheme"
  assumes same: "evs s' = evs s" "eventqueue s' = eventqueue s" "activequeues s' = activequeues s" "timeheap s' = timeheap s"
    "nactivequeues s' = nactivequeues s" "event_count s' = event_count s" "event_count_active s' = event_count_active s"
    "sig s' = sig s" "ker s' = ker s" "ep_fds s' = ep_fds s" "ep_nfds s' = ep_nfds s" "os s' = os s" "tv_cache s' = tv_cache s"
    "event_tv s' = event_tv s" "onces s' = onces s" "frames s' = frames s" "next_frame s' = next_frame s"
    and ok: "loop_ok s"
  shows "loop_ok s'"
proof -
  note L = loop_okD [OF ok]
  have core: "core_ok s'" using core_ok_cong [of s' s] same L(8) by simp
  have bits: "inserted s' = inserted s" "timed s' = timed s" "active s' = active s" "queued s' = queued s" "epoll_own s' = epoll_own s"
    "deadline s' = deadline s"
    by (simp_all add: fun_eq_iff flags_bit queued_def epoll_own_def deadline_def same)
  have inv: "epoll_inv s {x. inserted s x}" "own_ok (epoll_own s) s" using base_okD [OF L(1)] by blast+
  have "table_ok s' {x. inserted s x}" using inv(1) table_ok_cong [of s _ s'] same by (simp add: epoll_inv_def)
  moreover have "sig_ok s' {x. inserted s x}" using inv(1) sig_ok_cong [of s _ s'] same by (simp add: epoll_inv_def)
  moreover have "watched s'" using inv(1) watched_cong [of s' s] same by (simp add: epoll_inv_def)
  ultimately have "epoll_inv s' {x. inserted s' x}" using inv(1) by (simp add: epoll_inv_def bits same)
  moreover have "own_ok (epoll_own s') s'" using inv(2) by (simp add: own_ok_def bits)
  ultimately have "base_ok s'" using core by (simp add: base_ok_def)
  moreover have "all_ready s'" using L(2) by (simp add: all_ready_def bits ready_iff same)
  moreover have "clock_ok s'" using L(3) by (simp add: clock_ok_def same)
  moreover have "deadlines_ok s'" using L(4) by (simp add: deadlines_ok_def bits)
  moreover have "onces_ok s'" using L(6) by (simp add: onces_ok_def once_event_def bits same)
  moreover have "frames_ok s'" using L(7) by (simp add: frames_ok_def same)
  ultimately show ?thesis using L(5) by (simp add: loop_ok_def same)
qed

text \<open>An observer that notes every call, and the state \<open>demo_act\<close> with an empty record.\<close>

type_synonym call_log = "(nat \<times> int \<times> 16 word \<times> nat) list"

definition recorder :: "(call_log epoll_world_scheme) client" where
  "recorder = \<lparr>cl_call = (\<lambda>n fd what arg s. Some (epoll_world.more_update (\<lambda>l. l @ [(n, fd, what, arg)]) s)),
     cl_sigcb = (\<lambda>_ s. Some (0, s\<lparr>event_break := False\<rparr>))\<rparr>"

definition demo_log :: "call_log epoll_world_scheme" where
  "demo_log = epoll_world.extend demo_act []"

lemma recorder_observes: "observer (\<lambda>n fd what arg l. l @ [(n, fd, what, arg)]) recorder"
  by (simp add: observer_def recorder_def)

lemma recorder_gentle: "gentle loop_ok recorder"
proof -
  have "loop_ok (epoll_world.more_update f s)" if "loop_ok s" for s :: "call_log epoll_world_scheme" and f
    by (rule loop_ok_client [OF _ _ _ _ _ _ _ _ _ _ _ _ _ _ _ _ _ that]) simp_all
  moreover have "loop_ok (s\<lparr>event_break := False\<rparr>)" if "loop_ok s" for s :: "call_log epoll_world_scheme"
    by (rule loop_ok_client [OF _ _ _ _ _ _ _ _ _ _ _ _ _ _ _ _ _ that]) simp_all
  moreover have "kept s (epoll_world.more_update f s)" if "loop_ok s" "\<not> event_break s" "\<not> event_gotsig s"
    for s :: "call_log epoll_world_scheme" and f
  proof -
    have "kept s (s\<lparr>event_gotterm := event_gotterm s\<rparr>)" using that kept_quit loop_okD(8) by blast
    moreover have "queued (epoll_world.more_update f s) = queued s" "active (epoll_world.more_update f s) = active s"
      "actq (epoll_world.more_update f s) = actq s"
      by (simp_all add: fun_eq_iff queued_def flags_bit actq_def)
    ultimately show ?thesis by (simp add: kept_def called_def)
  qed
  ultimately show ?thesis by (simp add: gentle_def recorder_def)
qed

lemma demo_log:
  shows "loop_ok demo_log" and "actq demo_log = actq demo_act" and "event_count_active demo_log \<noteq> 0" and "\<not> event_break demo_log"
    and "\<not> event_gotsig demo_log" and "evs demo_log = evs demo_act" and "epoll_world.more demo_log = []"
proof -
  show "loop_ok demo_log"
    by (rule loop_ok_client [OF _ _ _ _ _ _ _ _ _ _ _ _ _ _ _ _ _ demo_act(2)]) (simp_all add: demo_log_def epoll_world.extend_def)
qed (use demo_act(4-6) in \<open>simp_all add: demo_log_def epoll_world.extend_def actq_def fun_eq_iff\<close>)

subsection \<open>The active events of the most urgent priority\<close>

text \<open>
  C8. \<open>event_process_active\<close>, for a client whose callbacks return, keep the base consistent and activate nothing
  themselves: it returns and keeps the base consistent, and does what the reference \<open>call_events\<close> does on the queue of the most urgent
  priority that has active events: each event of that queue, in the order of activation, is taken off (a one-shot
  event off everything) and its callback called as often as it was activated, until a call clears the counter or a callback asked to
  leave the loop; unless one did, the queue is empty afterwards. In particular, if the callbacks only record that they were called, with
  \<open>h\<close>, then what is recorded is exactly one call per activation and event of the queue, in the order of the queue, each with
  the descriptor, the result and the argument of the event.
\<close>

theorem event_process_active_spec:
  assumes "gentle loop_ok cl" and "loop_ok s" and "event_count_active s \<noteq> 0" and "\<not> event_break s" and "\<not> event_gotsig s"
  shows "\<exists>q s1 s'. actq s q \<noteq> [] \<and> (\<forall>p<q. actq s p = []) \<and>
    call_events ops cl (next_frame s) (actq s q)
      (s\<lparr>next_frame := next_frame s + 1, frames := (frames s)(next_frame s := Some 0)\<rparr>) = Some s1 \<and>
    s' = s1\<lparr>frames := (frames s1)(next_frame s := None)\<rparr> \<and>
    event_process_active ops cl s = Some s' \<and> loop_ok s' \<and> (event_break s' \<or> event_gotsig s' \<or> actq s' q = []) \<and>
    (\<forall>h. observer h cl \<longrightarrow> actq s' q = [] \<and> epoll_world.more s' = fold (call_effect h s) (actq s q) (epoll_world.more s))"
proof -
  let ?fr = "next_frame s" and ?s0 = "s\<lparr>next_frame := next_frame s + 1, frames := (frames s)(next_frame s := Some 0)\<rparr>"
  obtain q s1 where q: "actq s q \<noteq> []" "\<forall>p<q. actq s p = []" "call_events ops cl ?fr (actq s q) ?s0 = Some s1"
    "event_process_active ops cl s = Some (s1\<lparr>frames := (frames s1)(?fr := None)\<rparr>)"
    "loop_ok (s1\<lparr>frames := (frames s1)(?fr := None)\<rparr>)" "event_break s1 \<or> event_gotsig s1 \<or> actq s1 q = []"
    "loop_ok ?s0" "idle ?s0 ?fr"
    using el.process_active_ok [of cl s 0] assms unfolding live_loop by blast
  have "actq s1 q = [] \<and> epoll_world.more s1 = fold (call_effect h s) (actq s q) (epoll_world.more s)" if obs: "observer h cl" for h
  proof -
    have "\<forall>x\<in>set (actq s q). active ?s0 x" using core_okD(6) [OF loop_okD(8) [OF assms(2)]] by (simp add: active_def)
    then obtain s2 where s2: "call_events ops cl ?fr (actq s q) ?s0 = Some s2" "\<not> event_break s2" "\<not> event_gotsig s2"
      "epoll_world.more s2 = fold (call_effect h ?s0) (actq s q) (epoll_world.more ?s0)"
      using observed_events [OF assms(1) obs q(7,8), of "actq s q"] actq_distinct [OF loop_okD(8) [OF assms(2)]] assms(4,5) by auto
    have "call_effect h ?s0 = call_effect h s" by (simp add: call_effect_def fun_eq_iff)
    then show ?thesis using q(3,6) s2 by simp
  qed
  then show ?thesis using q by (intro exI [of _ q] exI [of _ s1] exI [of _ "s1\<lparr>frames := (frames s1)(?fr := None)\<rparr>"]) (simp add: actq_def)
qed

text \<open>The event 7 is active for reading, to be called once: so it is called once, with its descriptor, \<open>EV_READ\<close> and its argument.\<close>

theorem event_process_active_spec_witness:
  "\<exists>s'. event_process_active ops recorder demo_log = Some s' \<and> actq s' 0 = [] \<and> epoll_world.more s' = [(0, 7, 2, 0)]"
proof -
  obtain q s1 s' where s': "actq demo_log q \<noteq> []" "\<forall>p<q. actq demo_log p = []" "event_process_active ops recorder demo_log = Some s'"
    "actq s' q = [] \<and> epoll_world.more s' = fold (call_effect (\<lambda>n fd what arg l. l @ [(n, fd, what, arg)]) demo_log) (actq demo_log q) []"
    using event_process_active_spec [OF recorder_gentle demo_log(1,3-5)] recorder_observes demo_log(7) by metis
  have "q = 0" using s'(1,2) demo_act(3) demo_log(2) by (metis list.distinct(1) not_gr_zero)
  then show ?thesis
    using s' by (simp add: demo_log(2,6) demo_act(3,17) call_effect_def one_call_def plain_effect_def demo_evs demo_event_def zero_event_def EV_READ_def)
qed

end
