(* ===== verification/Spec2Isabelle.thy ===== *)
theory Spec2Isabelle
  imports EchoSpec WorkqueueLive LogSpec CallSpec
begin

text \<open>
  A verification development of ilibevent, an event notification library in C++ after libevent 1.4, and of the echo server that
  is built on it. This theory imports the others and holds no definition; the properties, \<open>C1\<close> to \<open>C40\<close>, stand where the
  component they are about is verified.

  \<^bold>\<open>The program.\<close> A \<open>struct event\<close> stands for interest in a descriptor (reading, writing), in a signal, or in a point of time. A
  \<open>struct event_base\<close> keeps the events that are registered: a list of inserted events, one queue of active events per priority, and a heap
  of timers. \<open>event_add\<close> and \<open>event_del\<close> move an event on and off these and tell the backend, which is reached through the
  function pointers of \<open>struct eventop\<close>. The only backend is epoll: it has a table with a reader and a writer per descriptor, asks the kernel to
  watch them, and leaves signals to \<open>signal.cpp\<close>, whose handler counts deliveries and wakes the loop through a socket pair on
  which an event of the library's own waits. \<open>event_base_loop\<close> waits in the backend until the next timer is due, activates the events
  that are ready, caught or due, and calls the active events of the most urgent priority. On top of this a \<open>struct bufferevent\<close>
  joins two events on a descriptor with two growable byte buffers and water marks. The server \<open>mainsvrd.cpp\<close> accepts connections in one
  loop and hands each of them to a pool of worker threads (\<open>workqueue.cpp\<close>), where it is served by the loop of a base of its own. \<open>log.cpp\<close>
  writes a log and rotates its files.

  \<^bold>\<open>Representation.\<close> A function that may meet undefined behaviour, a failed assertion or an endless loop returns an \<open>option\<close>, and \<open>None\<close> says
  that it does not return; every theorem of the form \<open>f x = Some y\<close> includes that \<open>f\<close> returns. Error codes stay the integers of the code. Flag
  words and truncated integers are machine words, lengths and indices natural numbers with the wrap-around written out, \<open>time_t\<close> and \<open>int\<close> that
  must not overflow are \<open>int\<close>. A \<open>struct event\<close> is named by its address, \<open>eid\<close>; the state of the library is the record \<open>event_core\<close>
  (\<open>EventTypes\<close>), extended for the backend to \<open>epoll_world\<close> (\<open>World\<close>) by \<open>struct epollop\<close> and by the part of the kernel that is called. Outcomes
  of the system (allocation, clock, \<open>epoll_ctl\<close>, \<open>epoll_wait\<close>, \<open>sigaction\<close>, \<open>socketpair\<close>, \<open>read\<close>, \<open>write\<close>) are arbitrary functions of the
  position of the call, so each theorem holds for every behaviour of the system that its hypotheses allow. Local variables whose address
  escapes (\<open>ncalls\<close> of \<open>event_process_active\<close>) are frames of the state.

  \<^bold>\<open>Theories and sources\<close> (under \<open>src/include\<close> unless said otherwise).
  \<^item> \<open>Prelude\<close>, \<open>Timeval\<close>: the vocabulary (cells of memory, wrap-around, \<open>struct timeval\<close> and its macros as an instance of \<open>linorder\<close>).
  \<^item> \<open>MinHeap\<close>: \<open>minheap.cpp\<close>. Heap order, slots and room are one invariant; push, pop and erase keep it, return, and refine
    the set of events; pushing and popping sorts. A failed growth changes nothing.
  \<^item> \<open>Tailq\<close>: the intrusive lists of \<open>event.cpp\<close> and \<open>signal.cpp\<close>, at the level of their pointers, refine lists of addresses.
  \<^item> \<open>Buffer\<close>: \<open>buffer.cpp\<close>. A buffer is a window into a block of cells; every operation is related to the content, and any
    sequence of additions and removals is a queue of bytes.
  \<^item> \<open>EventTypes\<close>, \<open>EventQueues\<close>, \<open>EventOps\<close>: the data of \<open>event.hpp\<close>; \<open>event_queue_insert\<close>, \<open>event_queue_remove\<close> and the invariant
    \<open>core_ok\<close> that ties queues, flags and counters; the operations on a single event over an arbitrary backend.
  \<^item> \<open>Backend\<close>: the locale \<open>event_backend\<close>, what \<open>event.cpp\<close> relies on when it calls through \<open>struct eventop\<close>, and what \<open>event_add\<close> and
    \<open>event_del\<close> do on any backend that keeps it. \<open>Loop\<close>: timeouts, the calls of active events, the rounds.
  \<^item> \<open>World\<close>, \<open>Signal\<close>, \<open>Epoll\<close>: \<open>epoll.cpp\<close> and \<open>signal.cpp\<close> with the kernel after its manual pages. \<open>EpollBackend\<close> proves the laws of
    \<open>event_backend\<close> for \<open>epollops\<close>.
  \<^item> \<open>Registration\<close>, \<open>Delivery\<close>, \<open>Dispatch\<close>: the properties of registration, of the kernel's interest list and the dispositions of
    signals, and of the dispatch of readiness reports and caught signals.
  \<^item> \<open>Rounds\<close>, \<open>Callbacks\<close>, \<open>LoopSpec\<close>: the locale \<open>event_dispatcher\<close>, which extends \<open>event_backend\<close> by the dispatch, and the loop under a
    contract for the callbacks (\<open>gentle\<close>): they may add and delete events, but activate none. \<open>wait_limit\<close> is how long a round may
    wait, \<open>loop_rounds\<close> the loop cut off after so many rounds. \<open>CallSpec\<close>: which callbacks a round calls, against the reference
    \<open>call_events\<close>, which is written without the code's loops, and as a sequence of calls for callbacks that only record them.
  \<^item> \<open>Base\<close>: making and freeing a base. \<open>base_ok\<close>, the invariant of all other theories, holds from \<open>event_init\<close> on, whatever the
    memory held in which the code initialises its lists.
  \<^item> \<open>Client\<close>: the locale \<open>event_client\<close>, what a component that owns some events relies on, interpreted on the epoll backend with the
    invariant \<open>client_ok\<close>. \<open>BufferEvent\<close>, \<open>BufferEventSpec\<close>: \<open>evbuffer.cpp\<close>; the lemmas are proved inside the locale.
  \<^item> \<open>Workqueue\<close>, \<open>WorkqueueSpec\<close>, \<open>WorkqueueLive\<close>: \<open>workqueue.cpp\<close> as the steps of its threads between two accesses to shared state, mutex
    and condition variable after POSIX; invariants of every interleaving, a bound on the steps that threads can make on their own, and that
    every job has been executed when none of them can move.
  \<^item> \<open>Log\<close>, \<open>LogSpec\<close>: \<open>log.cpp\<close>; the directory is a map from names to contents.
  \<^item> \<open>Server\<close>, \<open>ServerSpec\<close>, \<open>AcceptSpec\<close>, \<open>EchoSpec\<close>: \<open>src/mainsvrd.cpp\<close>; the echo of one callback, the set-up of a connection, and the
    stream of bytes over the whole life of a connection.

  \<^bold>\<open>Bounds.\<close> \<open>epollops n\<close> is the backend whose functions may call back into \<open>event.cpp\<close> \<open>n - 1\<close> levels deep. Adding a signal adds the event of
  the socket pair, which is a descriptor and goes no further, so two levels are enough; the theorems use \<open>ops = epollops 3\<close>, and that its
  calls return shows that the third level is never asked for. Hypotheses on sizes (a heap below 2^31 slots, buffers below 2^62 bytes, counts of \<open>read\<close> and \<open>write\<close>
  below 2^31) are those under which no sum in the code wraps; what happens beyond them is stated where it is known (\<open>evbuffer_expand\<close> does not end
  beyond 2^63, \<open>epoll_timeout\<close> turns negative from 2^31 milliseconds on). The number of rounds in \<open>loop_rounds\<close> is arbitrary, so it is no
  restriction: \<open>loop_never_stuck\<close> holds for every number. Clocks give values of normal form; a pending event keeps a base, a descriptor and
  kinds of events that the backend can register (\<open>usable\<close>).

  \<^bold>\<open>Not modelled.\<close> The release of memory (\<open>min_heap_dtor\<close>, \<open>evbuffer_free\<close>, the calls of \<open>free\<close> at the end of \<open>event_base_free\<close>,
  \<open>epoll_dealloc\<close> and \<open>bufferevent_free\<close>): what is freed is not used by any function of the model afterwards, except the cases named in
  \<open>WorkqueueSpec\<close>. The bytes in the socket pair and its descriptor flags (\<open>evsignal_cb\<close>, \<open>make_socket_nonblocking\<close>) belong to the kernel;
  the byte that the handler sends is one more reason for \<open>epoll_wait\<close> to report the pair, which it may do at any time. Signals are delivered
  while \<open>epoll_wait\<close> waits. The kernel drops a descriptor from its interest list when it is closed; the
  model keeps the entry, and the code modelled closes a descriptor only after its events have been deleted. A job is added to the work queue
  at most once: the address of a job that has run, and which the server frees, is not used again. The
  calls of \<open>Debug\<close> and \<open>Error\<close> write to the log and change no other state. Variables that several bases share (\<open>current_base\<close>, \<open>evsignal_base\<close>,
  \<open>event_sigcb\<close>, \<open>event_gotsig\<close>) are part of the state of a base, so interference of two bases that run in two threads, which the code does not prevent, is not
  covered. Which timeout macros \<open>sys/time.h\<close> defines, and the layout of structures beyond the addresses of the two events of a
  \<open>struct bufferevent\<close>, are not code of the repository. That the loop keeps \<open>client_ok\<close> between two callbacks of a connection is the rule \<open>loop\<close>
  of \<open>echo_run\<close>, not a theorem.
\<close>

end
